(* ===== verification/Prelude.thy ===== *)
theory Prelude
  imports Main "HOL-Library.Word"
begin

unbundle bit_operations_syntax

text \<open>
  Shared ground of the development: the machine integers of the 32-bit build (\<open>-m32\<close> in
  \<open>kernel/Makefile\<close>: \<open>int\<close>, \<open>unsigned\<close>, \<open>long\<close>, \<open>size_t\<close> and every pointer are 32 bits wide), the
  outcomes of code that can stop at an \<open>assert\<close> of \<open>kernel/include/kernel/debug.h\<close>, the named
  collections of simplification rules, and generic lemmas on lists and words that several
  components use.
\<close>

subsection \<open>Machine integers\<close>

type_synonym u8 = "8 word"
type_synonym u16 = "16 word"
type_synonym u32 = "32 word"
type_synonym u64 = "64 word"

subsection \<open>Outcomes\<close>

text \<open>
  \<open>panic\<close> prints its message and spins forever (debug.h), so a failed \<open>assert\<close> is the end of the
  run: the value \<open>Panic\<close> with the message. \<open>Wild\<close> marks an access outside the objects the
  model knows, which the C code performs on whatever memory is there. \<open>Divide_error\<close> is the
  processor's exception on a division by zero, \<open>Protection\<close> its general protection exception.
\<close>

datatype fault = Panic string | Wild | Divide_error | Protection

type_synonym 'a outcome = "fault + 'a"

definition bind_outcome :: "'a outcome \<Rightarrow> ('a \<Rightarrow> 'b outcome) \<Rightarrow> 'b outcome" where
  "bind_outcome m f = (case m of Inl e \<Rightarrow> Inl e | Inr x \<Rightarrow> f x)"

definition assert_that :: "bool \<Rightarrow> string \<Rightarrow> unit outcome" where
  "assert_that b msg = (if b then Inr () else Inl (Panic msg))"

lemma bind_outcome_simps [simp]:
  "bind_outcome (Inl e) f = Inl e"
  "bind_outcome (Inr x) f = f x"
  by (simp_all add: bind_outcome_def)

lemma bind_outcome_Inr_iff:
  "bind_outcome m f = Inr y \<longleftrightarrow> (\<exists>x. m = Inr x \<and> f x = Inr y)"
  by (cases m) auto

lemma assert_that_simps [simp]:
  "assert_that True msg = Inr ()"
  "assert_that False msg = Inl (Panic msg)"
  "assert_that b msg = Inr u \<longleftrightarrow> b"
  by (simp_all add: assert_that_def)

subsection \<open>Collections of rules\<close>

named_theorems kernel_defs \<open>unfoldings of straight-line code, for evaluation\<close>
named_theorems link_simps \<open>reads of the link store after a write\<close>
named_theorems bits \<open>characterisations of flag words bit by bit\<close>

subsection \<open>Lists\<close>

lemma remove1_append_middle:
  "n \<notin> set xs \<Longrightarrow> remove1 n (xs @ n # ys) = xs @ ys"
  by (simp add: remove1_append)

lemma distinct_split_remove1:
  assumes "distinct xs" and "n \<in> set xs"
  obtains us vs where "xs = us @ n # vs" and "n \<notin> set us" and "n \<notin> set vs"
    and "remove1 n xs = us @ vs"
proof -
  from split_list_first [OF assms(2)] obtain us vs
    where "xs = us @ n # vs" and "n \<notin> set us" by blast
  moreover from this assms(1) have "n \<notin> set vs" by simp
  ultimately show thesis using that by (simp add: remove1_append)
qed

lemma sorted_wrt_append_iff:
  "sorted_wrt P (xs @ x # ys) \<longleftrightarrow>
     sorted_wrt P xs \<and> sorted_wrt P ys \<and> (\<forall>a\<in>set xs. P a x) \<and> (\<forall>b\<in>set ys. P x b) \<and>
     (\<forall>a\<in>set xs. \<forall>b\<in>set ys. P a b)"
  by (auto simp: sorted_wrt_append)

subsection \<open>Words\<close>

lemma unat_plus_no_wrap:
  fixes a b :: "'a::len word"
  shows "unat a + unat b < 2 ^ LENGTH('a) \<Longrightarrow> unat (a + b) = unat a + unat b"
  by (simp add: unat_word_ariths)

lemma unat_minus_no_wrap:
  fixes a b :: "'a::len word"
  shows "b \<le> a \<Longrightarrow> unat (a - b) = unat a - unat b"
  by (rule unat_sub)

lemma unat_lt_2p32 [simp]: "unat (x :: u32) < 4294967296"
  using unsigned_less [of x] by simp

end
