(* ===== verification/Kernel.thy ===== *)
theory Kernel
  imports Prelude
begin

text \<open>
  \<open>kernel/include/kernel/kernel.h\<close>, \<open>asm/kernel.h\<close> and the address arithmetic of
  \<open>include/x86/arch/asm/memory.h\<close> and \<open>arch/memory.h\<close>: single-bit masks, alignment, minima and
  maxima on the widest types, the constants of the address-space layout, and the page-table entries.
  \<open>uintptr_t\<close> is 32 bits, \<open>uintmax_t\<close> 64: the callers' 32-bit values are widened and the result
  narrowed again, as the C conversions do.
\<close>

subsection \<open>kernel.h\<close>

definition BITU :: "nat \<Rightarrow> u32" where
  "BITU x = push_bit x 1"

definition BITUL :: "nat \<Rightarrow> u32" where
  "BITUL x = push_bit x 1"

definition BITULL :: "nat \<Rightarrow> u64" where
  "BITULL x = push_bit x 1"

definition align_mask :: "u32 \<Rightarrow> u32 \<Rightarrow> u32" where
  "align_mask x m = (x + m) AND NOT m"

definition align_up :: "u32 \<Rightarrow> u32 \<Rightarrow> u32" where
  "align_up x a = align_mask x (a - 1)"

definition align_down :: "u32 \<Rightarrow> u32 \<Rightarrow> u32" where
  "align_down x a = x AND NOT (a - 1)"

definition minu :: "u64 \<Rightarrow> u64 \<Rightarrow> u64" where
  "minu x y = (if x < y then x else y)"

definition maxu :: "u64 \<Rightarrow> u64 \<Rightarrow> u64" where
  "maxu x y = (if x > y then x else y)"

definition min_signed :: "u64 \<Rightarrow> u64 \<Rightarrow> u64" where
  "min_signed x y = (if x <s y then x else y)"

definition max_signed :: "u32 \<Rightarrow> u64 \<Rightarrow> u64" where
  "max_signed x y = (if y <s scast x then scast x else y)"

declare BITU_def [kernel_defs] BITUL_def [kernel_defs] BITULL_def [kernel_defs]

lemma ucast_u32_u64 [simp]: "(ucast (ucast (a::u32) :: u64) :: u32) = a"
  by (rule ucast_up_ucast_id) (simp add: is_up)

lemma ucast_u32_u64_less [simp]: "(ucast (a::u32) :: u64) < ucast (b::u32) \<longleftrightarrow> a < b"
proof -
  have "unat (ucast x :: u64) = unat x" for x :: u32
    by (simp add: unsigned_ucast_eq take_bit_nat_eq_self_iff)
      (rule less_trans [OF unat_lt_2p32], simp)
  then show ?thesis by (simp add: word_less_nat_alt)
qed

lemma minu_u32 [simp]: "(ucast (minu (ucast (a::u32)) (ucast (b::u32))) :: u32) = min a b"
  by (auto simp: minu_def min_def)

lemma maxu_u32 [simp]: "(ucast (maxu (ucast (a::u32)) (ucast (b::u32))) :: u32) = max a b"
  by (auto simp: maxu_def max_def)

subsection \<open>Alignment\<close>

definition is_pow2 :: "u32 \<Rightarrow> bool" where
  "is_pow2 a \<longleftrightarrow> a \<in> set (map (\<lambda>k. push_bit k 1) [0..<32])"

lemma is_pow2E:
  assumes "is_pow2 a"
  obtains k where "k < 32" and "a = push_bit k 1" and "unat a = 2 ^ k" and "a - 1 = mask k"
proof -
  from assms obtain k where k: "k < 32" "a = push_bit k 1" by (auto simp: is_pow2_def)
  then have "unat a = 2 ^ k"
    by (simp only: unsigned_push_bit_eq) (simp add: take_bit_nat_eq_self_iff)
  moreover have "a - 1 = mask k" using k by (simp add: mask_eq_decr_exp push_bit_eq_mult)
  ultimately show thesis using that k by blast
qed

lemma and_not_mask: "x AND NOT (mask k) = push_bit k (drop_bit k (x :: 'a::len word))"
  by (rule bit_word_eqI) (auto simp: bit_simps)

lemma unat_push_drop_bit:
  "unat (push_bit k (drop_bit k (x :: u32))) = unat x div 2 ^ k * 2 ^ k"
proof -
  have "unat x div 2 ^ k * 2 ^ k \<le> unat x" by (rule div_times_less_eq_dividend)
  then have "unat x div 2 ^ k * 2 ^ k < 4294967296" using unat_lt_2p32 [of x] by (rule le_less_trans)
  then show ?thesis
    by (simp only: unsigned_push_bit_eq unat_drop_bit_eq)
      (simp add: push_bit_eq_mult drop_bit_eq_div take_bit_nat_eq_self_iff)
qed

text \<open>Without wrap-around, \<open>align_up\<close> gives the least multiple of the alignment from \<open>x\<close> on.\<close>

lemma unat_align_up:
  assumes "is_pow2 a" and "unat x + unat a \<le> 2 ^ 32"
  shows "unat (align_up x a) = (unat x + unat a - 1) div unat a * unat a"
proof -
  from assms(1) obtain k where k: "unat a = 2 ^ k" "a - 1 = mask k" "k < 32" by (rule is_pow2E)
  have "unat (a - 1) = 2 ^ k - 1"
    using k(1) by (subst unat_minus_no_wrap) (auto simp: word_le_nat_alt)
  then have "unat (x + mask k) = unat x + (2 ^ k - 1)"
    using assms(2) k by (subst unat_plus_no_wrap) auto
  then show ?thesis
    by (simp add: align_up_def align_mask_def k and_not_mask unat_push_drop_bit)
qed

lemma align_up_props:
  assumes "is_pow2 a" and "unat x + unat a \<le> 2 ^ 32"
  shows "unat a dvd unat (align_up x a)" and "unat x \<le> unat (align_up x a)"
    and "unat (align_up x a) < unat x + unat a"
    and "\<And>c. unat a dvd c \<Longrightarrow> unat x \<le> c \<Longrightarrow> unat (align_up x a) \<le> c"
proof -
  define n where "n = unat a"
  from assms(1) have n: "0 < n" by (auto simp: n_def elim: is_pow2E)
  define y where "y = unat x + n - 1"
  have eq: "unat (align_up x a) = y div n * n"
    using unat_align_up [OF assms] by (simp add: n_def y_def)
  have yy: "y div n * n + y mod n = y" by (rule div_mult_mod_eq)
  have m: "y mod n < n" using n by simp
  show "unat a dvd unat (align_up x a)" by (simp add: eq n_def [symmetric])
  show "unat x \<le> unat (align_up x a)" using yy m unfolding eq y_def by linarith
  show "unat (align_up x a) < unat x + unat a" using yy n unfolding eq y_def n_def [symmetric] by linarith
  show "unat (align_up x a) \<le> c" if c: "unat a dvd c" "unat x \<le> c" for c
  proof -
    from c(1) obtain q where q: "c = q * n" by (auto simp: n_def mult.commute dvd_def)
    have "y < (q + 1) * n" using c(2) q n by (simp add: y_def algebra_simps)
    then have "y div n < q + 1" by (simp add: div_less_iff_less_mult n)
    then show ?thesis by (simp add: eq q)
  qed
qed

lemma align_up_one [simp]: "align_up x 1 = x"
  by (simp add: align_up_def align_mask_def)

lemma is_pow2_1 [simp]: "is_pow2 1"
  unfolding is_pow2_def by (simp add: image_iff) (rule bexI [of _ 0], auto)

subsection \<open>memory.h: the address-space layout\<close>

definition PHYS_MEM_MAX :: u32 where "PHYS_MEM_MAX = 0xFFFFFFFF"
definition PAGE_OFFSET :: u32 where "PAGE_OFFSET = 0xC0000000"
definition KMAP_OFFSET :: u32 where "KMAP_OFFSET = 0xF8000000"
definition PAGE_SHIFT :: nat where "PAGE_SHIFT = 12"
definition PAGE_SIZE :: u32 where "PAGE_SIZE = push_bit PAGE_SHIFT 1"
definition PAGE_OFFSET_MASK :: u32 where "PAGE_OFFSET_MASK = PAGE_SIZE - 1"
definition PGDIR_SHIFT :: nat where "PGDIR_SHIFT = 22"
definition PGDIR_SIZE :: u32 where "PGDIR_SIZE = push_bit PGDIR_SHIFT 1"
definition PAGE_TABLE_MASK :: u32 where "PAGE_TABLE_MASK = PGDIR_SIZE - 1"
definition PTRS_PER_PT :: u32 where "PTRS_PER_PT = 1024"
definition PTRS_PER_PGD :: u32 where "PTRS_PER_PGD = 1024"

definition PAGE_FRAME :: "u32 \<Rightarrow> u32" where
  "PAGE_FRAME addr = drop_bit PAGE_SHIFT addr"

definition PAGE_DIR :: "u32 \<Rightarrow> u32" where
  "PAGE_DIR addr = drop_bit PGDIR_SHIFT addr"

definition PAGE_FRAMES :: u32 where "PAGE_FRAMES = 1 + PAGE_FRAME PHYS_MEM_MAX"
definition PAGE_DIRS :: u32 where "PAGE_DIRS = 1 + PAGE_DIR PHYS_MEM_MAX"
definition LOWMEM_PAGE_FRAME :: u32 where "LOWMEM_PAGE_FRAME = PAGE_FRAME PAGE_OFFSET"
definition LOWMEM_PAGE_DIR :: u32 where "LOWMEM_PAGE_DIR = PAGE_DIR PAGE_OFFSET"
definition KMAP_PAGE_FRAME :: u32 where "KMAP_PAGE_FRAME = PAGE_FRAME KMAP_OFFSET"
definition KMAP_PAGE_DIR :: u32 where "KMAP_PAGE_DIR = PAGE_DIR KMAP_OFFSET"
definition LOWMEM_PAGE_FRAMES :: u32 where "LOWMEM_PAGE_FRAMES = KMAP_PAGE_FRAME - LOWMEM_PAGE_FRAME"
definition LOWMEM_PAGE_DIRS :: u32 where "LOWMEM_PAGE_DIRS = KMAP_PAGE_DIR - LOWMEM_PAGE_DIR"
definition KMAP_PAGE_FRAMES :: u32 where "KMAP_PAGE_FRAMES = PAGE_FRAMES - KMAP_PAGE_FRAME"
definition KMAP_PAGE_DIRS :: u32 where "KMAP_PAGE_DIRS = PAGE_DIRS - KMAP_PAGE_DIR"
definition KERNEL_PAGE_FRAMES :: u32 where "KERNEL_PAGE_FRAMES = PAGE_FRAMES - LOWMEM_PAGE_FRAME"
definition KERNEL_PAGE_DIRS :: u32 where "KERNEL_PAGE_DIRS = PAGE_DIRS - LOWMEM_PAGE_DIR"

lemmas layout_defs = PHYS_MEM_MAX_def PAGE_OFFSET_def KMAP_OFFSET_def PAGE_SHIFT_def PAGE_SIZE_def
  PAGE_OFFSET_MASK_def PGDIR_SHIFT_def PGDIR_SIZE_def PAGE_TABLE_MASK_def PTRS_PER_PT_def
  PTRS_PER_PGD_def PAGE_FRAME_def PAGE_DIR_def PAGE_FRAMES_def PAGE_DIRS_def LOWMEM_PAGE_FRAME_def
  LOWMEM_PAGE_DIR_def KMAP_PAGE_FRAME_def KMAP_PAGE_DIR_def LOWMEM_PAGE_FRAMES_def
  LOWMEM_PAGE_DIRS_def KMAP_PAGE_FRAMES_def KMAP_PAGE_DIRS_def KERNEL_PAGE_FRAMES_def
  KERNEL_PAGE_DIRS_def

lemma layout_values:
  "LOWMEM_PAGE_FRAMES = 0x38000" "KMAP_PAGE_FRAMES = 0x8000" "KERNEL_PAGE_FRAMES = 0x40000"
  "LOWMEM_PAGE_FRAME = 0xC0000" "KMAP_PAGE_FRAME = 0xF8000" "PAGE_SIZE = 0x1000"
  "PAGE_FRAMES = 0x100000" "LOWMEM_PAGE_DIRS = 0xE0" "KMAP_PAGE_DIRS = 0x20" "KERNEL_PAGE_DIRS = 0x100"
  "PAGE_OFFSET_MASK = 0xFFF" "LOWMEM_PAGE_DIR = 0x300" "KMAP_PAGE_DIR = 0x3E0"
  by (simp_all add: layout_defs drop_bit_eq_div push_bit_eq_mult)

subsection \<open>memory.h: addresses and table entries\<close>

definition pgd_index :: "u64 \<Rightarrow> u64" where
  "pgd_index p = drop_bit PGDIR_SHIFT p AND ucast (PTRS_PER_PGD - 1)"

definition phys_addr :: "u32 \<Rightarrow> u32" where
  "phys_addr x = x - PAGE_OFFSET"

definition virt_addr :: "u32 \<Rightarrow> u32" where
  "virt_addr x = x + PAGE_OFFSET"

definition create_table_entry :: "u32 \<Rightarrow> u32 \<Rightarrow> u32" where
  "create_table_entry paddr flags = (paddr AND NOT PAGE_OFFSET_MASK) OR (flags AND PAGE_OFFSET_MASK)"

definition create_dir_entry :: "u32 \<Rightarrow> u32 \<Rightarrow> u32" where
  "create_dir_entry paddr flags = (paddr AND NOT PAGE_OFFSET_MASK) OR (flags AND PAGE_OFFSET_MASK)"

definition page_flags :: "u32 \<Rightarrow> u32" where
  "page_flags pte = pte AND PAGE_OFFSET_MASK"

definition page_paddr :: "u32 \<Rightarrow> u32" where
  "page_paddr pte = pte AND NOT PAGE_OFFSET_MASK"

lemma virt_phys [simp]: "virt_addr (phys_addr x) = x" "phys_addr (virt_addr x) = x"
  by (simp_all add: virt_addr_def phys_addr_def)

lemma page_offset_mask: "PAGE_OFFSET_MASK = mask 12"
  by (simp add: layout_values mask_eq_exp_minus_1)

lemma entry_fields:
  "page_paddr (create_table_entry p f) = p AND NOT PAGE_OFFSET_MASK"
  "page_flags (create_table_entry p f) = f AND PAGE_OFFSET_MASK"
  by (rule bit_word_eqI; auto simp: page_paddr_def page_flags_def create_table_entry_def
      page_offset_mask bit_simps)+

lemma entry_of_fields: "create_table_entry (page_paddr e) (page_flags e) = e"
  by (rule bit_word_eqI) (auto simp: page_paddr_def page_flags_def create_table_entry_def
      page_offset_mask bit_simps)

subsection \<open>cpu.h and memory.h: flags\<close>

definition X86_CR0_PE :: u32 where "X86_CR0_PE = BITUL 0"
definition X86_CR0_MP :: u32 where "X86_CR0_MP = BITUL 1"
definition X86_CR0_ET :: u32 where "X86_CR0_ET = BITUL 4"
definition X86_CR0_NE :: u32 where "X86_CR0_NE = BITUL 5"
definition X86_CR0_WP :: u32 where "X86_CR0_WP = BITUL 16"
definition X86_CR0_AM :: u32 where "X86_CR0_AM = BITUL 18"
definition X86_CR0_PG :: u32 where "X86_CR0_PG = BITUL 31"

definition X86_PTE_PRESENT :: u32 where "X86_PTE_PRESENT = BITUL 0"
definition X86_PTE_WRITE :: u32 where "X86_PTE_WRITE = BITUL 1"
definition X86_PTE_USER :: u32 where "X86_PTE_USER = BITUL 2"
definition X86_PTE_WRTHROUGH :: u32 where "X86_PTE_WRTHROUGH = BITUL 3"
definition X86_PTE_NOCACHE :: u32 where "X86_PTE_NOCACHE = BITUL 4"
definition X86_PTE_ACCESSED :: u32 where "X86_PTE_ACCESSED = BITUL 5"
definition X86_PTE_DIRTY :: u32 where "X86_PTE_DIRTY = BITUL 6"
definition X86_PTE_GLOBAL :: u32 where "X86_PTE_GLOBAL = BITUL 8"

definition X86_PDE_PRESENT :: u32 where "X86_PDE_PRESENT = BITUL 0"
definition X86_PDE_WRITE :: u32 where "X86_PDE_WRITE = BITUL 1"
definition X86_PDE_USER :: u32 where "X86_PDE_USER = BITUL 2"
definition X86_PDE_WRTHROUGH :: u32 where "X86_PDE_WRTHROUGH = BITUL 3"
definition X86_PDE_NOCACHE :: u32 where "X86_PDE_NOCACHE = BITUL 4"
definition X86_PDE_ACCESSED :: u32 where "X86_PDE_ACCESSED = BITUL 5"
definition X86_PDE_LARGE :: u32 where "X86_PDE_LARGE = BITUL 7"

definition PTE_PRESENT :: u32 where "PTE_PRESENT = X86_PTE_PRESENT"
definition PTE_USER :: u32 where "PTE_USER = X86_PTE_USER"
definition PTE_KERNEL :: u32 where "PTE_KERNEL = 0"
definition PTE_READ :: u32 where "PTE_READ = 0"
definition PTE_NOREAD :: u32 where "PTE_NOREAD = 0"
definition PTE_WRITE :: u32 where "PTE_WRITE = X86_PTE_WRITE"
definition PTE_NOWRITE :: u32 where "PTE_NOWRITE = 0"
definition PTE_CACHE :: u32 where "PTE_CACHE = 0"
definition PTE_NOCACHE :: u32 where "PTE_NOCACHE = X86_PTE_NOCACHE"

definition PDE_PRESENT :: u32 where "PDE_PRESENT = X86_PDE_PRESENT"
definition PDE_USER :: u32 where "PDE_USER = X86_PDE_USER"
definition PDE_KERNEL :: u32 where "PDE_KERNEL = 0"
definition PDE_READ :: u32 where "PDE_READ = 0"
definition PDE_NOREAD :: u32 where "PDE_NOREAD = 0"
definition PDE_WRITE :: u32 where "PDE_WRITE = X86_PDE_WRITE"
definition PDE_NOWRITE :: u32 where "PDE_NOWRITE = 0"
definition PDE_CACHE :: u32 where "PDE_CACHE = 0"
definition PDE_NOCACHE :: u32 where "PDE_NOCACHE = X86_PDE_NOCACHE"

end
