(* ===== verification/Bootmem.thy ===== *)
theory Bootmem
  imports Kernel
begin

text \<open>
  \<open>kernel/bootmem.c\<close>: the allocator used before the page allocator exists. Two arrays of address
  ranges, one of the memory the machine has and one of the parts in use, each with its fill \<open>size\<close>
  and fixed \<open>capacity\<close>. Counting loops \<open>for (i = 0; i != n; ++i)\<close> start below \<open>n\<close>, so their test is
  written \<open>i < n\<close>, and array indices are \<open>nat\<close> (at most \<open>BOOT_MEM_RANGES\<close>); addresses are 32-bit
  words and wrap. The loop of \<open>boot_mem_find\<close> may run forever (with an alignment of 0), so it is a
  \<^theory_text>\<open>partial_function\<close> and its returning is a theorem.
\<close>

subsection \<open>State\<close>

definition BOOT_MEM_RANGES :: nat where
  "BOOT_MEM_RANGES = 128"

record boot_mem_range =
  rg_begin :: u32
  rg_end :: u32

record boot_mem_type =
  bm_ranges :: "boot_mem_range list"
  bm_size :: nat
  bm_capacity :: nat

record boot_mem =
  bm_memory :: boot_mem_type
  bm_reserved :: boot_mem_type

definition zero_range :: boot_mem_range where
  "zero_range = \<lparr>rg_begin = 0, rg_end = 0\<rparr>"

definition empty_type :: boot_mem_type where
  "empty_type = \<lparr>bm_ranges = replicate BOOT_MEM_RANGES zero_range, bm_size = 0,
     bm_capacity = BOOT_MEM_RANGES\<rparr>"

definition boot_mem_init :: boot_mem where
  "boot_mem_init = \<lparr>bm_memory = empty_type, bm_reserved = empty_type\<rparr>"

subsection \<open>Ranges\<close>

definition boot_mem_merge :: "boot_mem_range \<Rightarrow> boot_mem_range \<Rightarrow> boot_mem_range" where
  "boot_mem_merge dst src =
     \<lparr>rg_begin = ucast (minu (ucast (rg_begin src)) (ucast (rg_begin dst))),
      rg_end = ucast (maxu (ucast (rg_end src)) (ucast (rg_end dst)))\<rparr>"

definition boot_mem_overlap :: "boot_mem_range \<Rightarrow> boot_mem_range \<Rightarrow> bool" where
  "boot_mem_overlap l r \<longleftrightarrow>
     (rg_begin l \<le> rg_begin r \<and> rg_begin r \<le> rg_end l) \<or>
     (rg_begin l \<le> rg_end r \<and> rg_end r \<le> rg_end l)"

subsection \<open>Arrays of ranges\<close>

function shift_down :: "boot_mem_range list \<Rightarrow> nat \<Rightarrow> nat \<Rightarrow> boot_mem_range list" where
  "shift_down rs sz i =
     (if i + 1 < sz then shift_down (rs[i := rs ! (i + 1)]) sz (i + 1) else rs)"
  by pat_completeness auto
termination
  by (relation "measure (\<lambda>(rs, sz, i). sz - i)") auto

definition boot_mem_remove :: "boot_mem_type \<Rightarrow> nat \<Rightarrow> boot_mem_type" where
  "boot_mem_remove type i =
     type\<lparr>bm_ranges := shift_down (bm_ranges type) (bm_size type) i, bm_size := bm_size type - 1\<rparr>"

fun shift_up :: "boot_mem_range list \<Rightarrow> nat \<Rightarrow> nat \<Rightarrow> boot_mem_range list" where
  "shift_up rs j i = (if j > i then shift_up (rs[j := rs ! (j - 1)]) (j - 1) i else rs)"

definition boot_mem_insert ::
  "boot_mem_type \<Rightarrow> boot_mem_range \<Rightarrow> nat \<Rightarrow> int \<times> boot_mem_type" where
  "boot_mem_insert type rg i =
     (if bm_size type = bm_capacity type then (-1, type)
      else (0, type\<lparr>bm_ranges := (shift_up (bm_ranges type) (bm_size type) i)[i := rg],
                   bm_size := bm_size type + 1\<rparr>))"

text \<open>The first index whose range ends at or after \<open>begin\<close>, or the size.\<close>

function first_ending :: "boot_mem_type \<Rightarrow> u32 \<Rightarrow> nat \<Rightarrow> nat" where
  "first_ending type begin i =
     (if i < bm_size type then
        (if rg_end (bm_ranges type ! i) \<ge> begin then i else first_ending type begin (i + 1))
      else i)"
  by pat_completeness auto
termination
  by (relation "measure (\<lambda>(type, begin, i). bm_size type - i)") auto

definition boot_mem_add_range :: "boot_mem_type \<Rightarrow> u32 \<Rightarrow> u32 \<Rightarrow> int \<times> boot_mem_type" where
  "boot_mem_add_range type begin end =
     (if end \<le> begin then (0, type)
      else
        let rg = \<lparr>rg_begin = begin, rg_end = end\<rparr>;
            i = first_ending type begin 0;
            dst = bm_ranges type ! i
        in if i \<noteq> bm_size type \<and> boot_mem_overlap dst rg then
             let dst1 = boot_mem_merge dst rg;
                 type1 = type\<lparr>bm_ranges := (bm_ranges type)[i := dst1]\<rparr>
             in if i + 1 \<noteq> bm_size type \<and> boot_mem_overlap dst1 (bm_ranges type1 ! (i + 1)) then
                  let dst2 = boot_mem_merge dst1 (bm_ranges type1 ! (i + 1));
                      type2 = type1\<lparr>bm_ranges := (bm_ranges type1)[i := dst2]\<rparr>
                  in (0, boot_mem_remove type2 (i + 1))
                else (0, type1)
           else boot_mem_insert type rg i)"

subsection \<open>Searching\<close>

text \<open>The first reserved range from index \<open>j\<close> on that ends after \<open>begin\<close>, or the size.\<close>

function skip_reserved :: "boot_mem_type \<Rightarrow> u32 \<Rightarrow> nat \<Rightarrow> nat" where
  "skip_reserved res begin j =
     (if j < bm_size res then
        (if rg_end (bm_ranges res ! j) > begin then j else skip_reserved res begin (j + 1))
      else j)"
  by pat_completeness auto
termination
  by (relation "measure (\<lambda>(res, begin, j). bm_size res - j)") auto

text \<open>
  The \<open>while\<close> loop over one memory range, cut to \<open>[begin, end)\<close>. It yields the address to return, if
  one is found, and the index \<open>j\<close> reached in the reserved ranges.
\<close>

partial_function (option) find_in_range ::
  "boot_mem_type \<Rightarrow> u32 \<Rightarrow> u32 \<Rightarrow> u32 \<Rightarrow> nat \<Rightarrow> u32 \<Rightarrow> (u32 option \<times> nat) option" where
  "find_in_range res sz align end j begin =
     (if begin < end then
        let begin = align_up begin align
        in if begin + sz > end then Some (None, j)
           else
             let j = skip_reserved res begin j
             in if j = bm_size res \<or> rg_begin (bm_ranges res ! j) \<ge> begin + sz
                then Some (Some begin, j)
                else find_in_range res sz align end j (rg_end (bm_ranges res ! j))
      else Some (None, j))"

function find_from_range ::
  "boot_mem \<Rightarrow> u32 \<Rightarrow> u32 \<Rightarrow> u32 \<Rightarrow> u32 \<Rightarrow> nat \<Rightarrow> nat \<Rightarrow> u32 option" where
  "find_from_range bm sz align from to i j =
     (if i < bm_size (bm_memory bm) then
        let r = bm_ranges (bm_memory bm) ! i
        in if rg_end r \<le> from then find_from_range bm sz align from to (i + 1) j
           else if rg_begin r \<ge> to then Some to
           else
             let end = ucast (minu (ucast (rg_end r)) (ucast to));
                 begin = ucast (maxu (ucast (rg_begin r)) (ucast from))
             in case find_in_range (bm_reserved bm) sz align end j begin of
                  None \<Rightarrow> None
                | Some (Some addr, j') \<Rightarrow> Some addr
                | Some (None, j') \<Rightarrow> find_from_range bm sz align from to (i + 1) j'
      else Some to)"
  by pat_completeness auto
termination
  by (relation "measure (\<lambda>(bm, sz, align, from, to, i, j). bm_size (bm_memory bm) - i)") auto

definition boot_mem_find :: "boot_mem \<Rightarrow> u32 \<Rightarrow> u32 \<Rightarrow> u32 \<Rightarrow> u32 \<Rightarrow> u32 option" where
  "boot_mem_find bm sz align from to =
     (if from > to \<or> sz > to - from then Some to
      else if sz = 0 then Some from
      else find_from_range bm sz align from to 0 0)"

subsection \<open>The operations of the header\<close>

definition boot_mem_add :: "boot_mem \<Rightarrow> u32 \<Rightarrow> u32 \<Rightarrow> int \<times> boot_mem" where
  "boot_mem_add bm begin end =
     (let (rc, t) = boot_mem_add_range (bm_memory bm) begin end in (rc, bm\<lparr>bm_memory := t\<rparr>))"

definition boot_mem_reserve :: "boot_mem \<Rightarrow> u32 \<Rightarrow> u32 \<Rightarrow> int \<times> boot_mem" where
  "boot_mem_reserve bm begin end =
     (let (rc, t) = boot_mem_add_range (bm_reserved bm) begin end in (rc, bm\<lparr>bm_reserved := t\<rparr>))"

definition boot_mem_alloc ::
  "boot_mem \<Rightarrow> u32 \<Rightarrow> u32 \<Rightarrow> u32 \<Rightarrow> u32 \<Rightarrow> (u32 \<times> boot_mem) option" where
  "boot_mem_alloc bm sz align from to =
     (case boot_mem_find bm sz align from to of
        None \<Rightarrow> None
      | Some addr \<Rightarrow>
          if addr \<noteq> to then
            let (rc, bm') = boot_mem_reserve bm addr (addr + sz)
            in Some (if rc = 0 then (addr, bm') else (to, bm'))
          else Some (to, bm))"

definition boot_mem_is_free :: "boot_mem \<Rightarrow> u32 \<Rightarrow> u32 \<Rightarrow> bool option" where
  "boot_mem_is_free bm begin end =
     map_option (\<lambda>a. a \<noteq> 0) (boot_mem_find bm (end - begin) 1 begin end)"

declare find_in_range.simps [code]

declare shift_down.simps [simp del] shift_up.simps [simp del] first_ending.simps [simp del]
  skip_reserved.simps [simp del] find_from_range.simps [simp del]

subsection \<open>The live part of an array\<close>

definition live :: "boot_mem_type \<Rightarrow> boot_mem_range list" where
  "live type = take (bm_size type) (bm_ranges type)"

definition well_sized :: "boot_mem_type \<Rightarrow> bool" where
  "well_sized type \<longleftrightarrow> length (bm_ranges type) = bm_capacity type \<and> bm_size type \<le> bm_capacity type"

lemma live_simps:
  assumes "well_sized t"
  shows "length (live t) = bm_size t" and "i < bm_size t \<Longrightarrow> live t ! i = bm_ranges t ! i"
  using assms by (simp_all add: live_def well_sized_def)

lemma length_shift_down [simp]: "length (shift_down rs n i) = length rs"
  by (induction rs n i rule: shift_down.induct) (subst shift_down.simps, simp)

lemma nth_shift_down:
  "n \<le> length rs \<Longrightarrow> k < length rs \<Longrightarrow>
     shift_down rs n i ! k = (if i \<le> k \<and> k + 1 < n then rs ! (k + 1) else rs ! k)"
proof (induction rs n i rule: shift_down.induct)
  case (1 rs n i)
  show ?case
  proof (cases "i + 1 < n")
    case True
    have "shift_down rs n i ! k = shift_down (rs[i := rs ! (i + 1)]) n (i + 1) ! k"
      using True by (subst shift_down.simps) simp
    also have "\<dots> = (if i + 1 \<le> k \<and> k + 1 < n then rs[i := rs ! (i + 1)] ! (k + 1)
        else rs[i := rs ! (i + 1)] ! k)"
      using "1.IH" [OF True] "1.prems" by simp
    finally show ?thesis using True "1.prems" by (auto simp: nth_list_update)
  next
    case False
    then show ?thesis by (subst shift_down.simps) auto
  qed
qed

lemma length_shift_up [simp]: "length (shift_up rs j i) = length rs"
  by (induction rs j i rule: shift_up.induct) (subst shift_up.simps, simp)

lemma nth_shift_up:
  "j < length rs \<Longrightarrow> k < length rs \<Longrightarrow>
     shift_up rs j i ! k = (if i < k \<and> k \<le> j then rs ! (k - 1) else rs ! k)"
proof (induction rs j i rule: shift_up.induct)
  case (1 rs j i)
  show ?case
  proof (cases "i < j")
    case True
    have "shift_up rs j i ! k = shift_up (rs[j := rs ! (j - 1)]) (j - 1) i ! k"
      using True by (subst shift_up.simps) simp
    also have "\<dots> = (if i < k \<and> k \<le> j - 1 then rs[j := rs ! (j - 1)] ! (k - 1)
        else rs[j := rs ! (j - 1)] ! k)"
      using "1.IH" [OF True] "1.prems" by simp
    finally show ?thesis using True "1.prems" by (auto simp: nth_list_update)
  next
    case False
    then show ?thesis by (subst shift_up.simps) auto
  qed
qed

lemma well_sized_remove: "well_sized t \<Longrightarrow> well_sized (boot_mem_remove t i)"
  by (auto simp: well_sized_def boot_mem_remove_def)

lemma live_remove:
  assumes "well_sized t" and "i < bm_size t"
  shows "live (boot_mem_remove t i) = take i (live t) @ drop (Suc i) (live t)"
proof (rule nth_equalityI)
  have ls: "length (bm_ranges t) = bm_capacity t" "bm_size t \<le> length (bm_ranges t)"
    using assms(1) by (auto simp: well_sized_def)
  show "length (live (boot_mem_remove t i)) = length (take i (live t) @ drop (Suc i) (live t))"
    using ls assms(2) by (simp add: live_def boot_mem_remove_def)
  fix k assume "k < length (live (boot_mem_remove t i))"
  then have "k < bm_size t - 1" using ls by (simp add: live_def boot_mem_remove_def)
  then show "live (boot_mem_remove t i) ! k = (take i (live t) @ drop (Suc i) (live t)) ! k"
    using ls assms(2) nth_shift_down [of "bm_size t" "bm_ranges t" k i]
    by (auto simp: live_def boot_mem_remove_def nth_append)
qed

lemma live_insert:
  assumes "well_sized t" and "i \<le> bm_size t" and "bm_size t \<noteq> bm_capacity t"
    and "boot_mem_insert t r i = (rc, t')"
  shows "rc = 0" and "well_sized t'" and "live t' = take i (live t) @ r # drop i (live t)"
proof -
  have ls: "length (bm_ranges t) = bm_capacity t" "bm_size t < length (bm_ranges t)"
    using assms(1,3) by (auto simp: well_sized_def)
  from assms(3,4) have t': "t' = t\<lparr>bm_ranges := (shift_up (bm_ranges t) (bm_size t) i)[i := r],
      bm_size := bm_size t + 1\<rparr>" and "rc = 0" by (auto simp: boot_mem_insert_def)
  then show "rc = 0" by simp
  show "well_sized t'" using ls t' by (simp add: well_sized_def)
  show "live t' = take i (live t) @ r # drop i (live t)"
  proof (rule nth_equalityI)
    show "length (live t') = length (take i (live t) @ r # drop i (live t))"
      using ls assms(2) t' by (simp add: live_def)
    fix k assume "k < length (live t')"
    then have k: "k < bm_size t + 1" using ls t' by (simp add: live_def)
    show "live t' ! k = (take i (live t) @ r # drop i (live t)) ! k"
      using ls assms(2) t' k nth_shift_up [of "bm_size t" "bm_ranges t" k i]
      by (auto simp: live_def nth_append nth_list_update nth_Cons')
  qed
qed

lemma live_update:
  "well_sized t \<Longrightarrow> well_sized (t\<lparr>bm_ranges := (bm_ranges t)[i := r]\<rparr>)"
  "live (t\<lparr>bm_ranges := (bm_ranges t)[i := r]\<rparr>) = (live t)[i := r]"
  by (auto simp: well_sized_def live_def take_update_swap)

subsection \<open>Adding a range, on lists\<close>

text \<open>
  What \<open>boot_mem_add_range\<close> does to the live ranges, as a function on lists: the ranges that end
  before \<open>b\<close> stay; the first of the others is merged with the new range if the two touch, and with
  its successor if that then touches too; otherwise the new range goes in front of it.
\<close>

fun add_touching :: "boot_mem_range \<Rightarrow> boot_mem_range list \<Rightarrow> boot_mem_range list" where
  "add_touching rg [] = [rg]"
| "add_touching rg [d] =
     (if boot_mem_overlap d rg then [boot_mem_merge d rg] else [rg, d])"
| "add_touching rg (d # d2 # post) =
     (if boot_mem_overlap d rg then
        (let m = boot_mem_merge d rg
         in if boot_mem_overlap m d2 then boot_mem_merge m d2 # post else m # d2 # post)
      else rg # d # d2 # post)"

definition add_ranges :: "u32 \<Rightarrow> u32 \<Rightarrow> boot_mem_range list \<Rightarrow> boot_mem_range list" where
  "add_ranges b e rs =
     takeWhile (\<lambda>r. rg_end r < b) rs @
     add_touching \<lparr>rg_begin = b, rg_end = e\<rparr> (dropWhile (\<lambda>r. rg_end r < b) rs)"

definition merges_with :: "u32 \<Rightarrow> u32 \<Rightarrow> boot_mem_range list \<Rightarrow> bool" where
  "merges_with b e rs =
     (case dropWhile (\<lambda>r. rg_end r < b) rs of
        [] \<Rightarrow> False
      | d # _ \<Rightarrow> boot_mem_overlap d \<lparr>rg_begin = b, rg_end = e\<rparr>)"

lemma first_ending_takeWhile:
  assumes "well_sized t" and "i \<le> bm_size t"
  shows "first_ending t b i = i + length (takeWhile (\<lambda>r. rg_end r < b) (drop i (live t)))"
  using assms
proof (induction t b i rule: first_ending.induct)
  case (1 t b i)
  show ?case
  proof (cases "i < bm_size t")
    case True
    then have d: "drop i (live t) = bm_ranges t ! i # drop (Suc i) (live t)"
      using "1.prems"(1) by (simp add: live_simps Cons_nth_drop_Suc [symmetric])
    show ?thesis
    proof (cases "b \<le> rg_end (bm_ranges t ! i)")
      case le: True
      with True show ?thesis by (subst first_ending.simps) (simp add: d)
    next
      case False
      with "1.IH" [OF True False] True "1.prems" show ?thesis
        by (subst first_ending.simps) (simp add: d)
    qed
  next
    case False
    with "1.prems" show ?thesis by (subst first_ending.simps) (simp add: live_simps)
  qed
qed

lemma nth_takeWhile_length:
  "dropWhile P xs = y # ys \<Longrightarrow> xs ! length (takeWhile P xs) = y"
  by (metis nth_append_length takeWhile_dropWhile_id)

lemma live_split:
  "dropWhile P (live t) = ys \<Longrightarrow> live t = takeWhile P (live t) @ ys"
  by (metis takeWhile_dropWhile_id)

lemma boot_mem_add_range_refines:
  assumes ws: "well_sized t" and "b < e"
  shows "case boot_mem_add_range t b e of (rc, t') \<Rightarrow>
    if bm_size t = bm_capacity t \<and> \<not> merges_with b e (live t) then rc = -1 \<and> t' = t
    else rc = 0 \<and> well_sized t' \<and> live t' = add_ranges b e (live t)"
proof -
  let ?P = "\<lambda>r. rg_end r < b" and ?rg = "\<lparr>rg_begin = b, rg_end = e\<rparr>"
  let ?pre = "takeWhile ?P (live t)" and ?i = "length (takeWhile ?P (live t))"
  have nle: "\<not> e \<le> b" using \<open>b < e\<close> by simp
  have i: "first_ending t b 0 = ?i" using first_ending_takeWhile [OF ws, of 0 b] by simp
  have len: "length (live t) = bm_size t" by (rule live_simps(1) [OF ws])
  have ile: "?i \<le> bm_size t" using length_takeWhile_le [of ?P "live t"] len by simp
  have ins: "case boot_mem_insert t ?rg ?i of (rc, t') \<Rightarrow>
      if bm_size t = bm_capacity t then rc = -1 \<and> t' = t
      else rc = 0 \<and> well_sized t' \<and> live t' = ?pre @ ?rg # dropWhile ?P (live t)"
  proof (cases "bm_size t = bm_capacity t")
    case True
    then show ?thesis by (simp add: boot_mem_insert_def)
  next
    case False
    have "take ?i (live t) = ?pre" "drop ?i (live t) = dropWhile ?P (live t)"
      by (rule takeWhile_eq_take [symmetric], rule dropWhile_eq_drop [symmetric])
    with live_insert [OF ws ile False] False show ?thesis by (auto split: prod.splits)
  qed
  show ?thesis
  proof (cases "dropWhile ?P (live t)")
    case Nil
    then have "?i = bm_size t" using len live_split [OF Nil] by simp
    then have "boot_mem_add_range t b e = boot_mem_insert t ?rg ?i"
      using nle by (simp add: boot_mem_add_range_def i Let_def)
    moreover have "\<not> merges_with b e (live t)" and "add_ranges b e (live t) = ?pre @ [?rg]"
      unfolding merges_with_def add_ranges_def Nil by simp_all
    ultimately show ?thesis using ins [unfolded Nil] by (auto split: prod.splits)
  next
    case (Cons d post)
    note sp = live_split [OF Cons]
    have lt: "?i < bm_size t" using len arg_cong [OF sp, of length] by simp
    have d: "bm_ranges t ! ?i = d"
      using nth_takeWhile_length [OF Cons] live_simps(2) [OF ws lt] by simp
    have sub: "(live t)[?i := x] = ?pre @ x # post" for x
      by (subst (1) sp) simp
    show ?thesis
    proof (cases "boot_mem_overlap d ?rg")
      case False
      have "add_touching ?rg (d # post) = ?rg # d # post" using False by (cases post) auto
      moreover have "boot_mem_add_range t b e = boot_mem_insert t ?rg ?i"
        using nle False d by (simp add: boot_mem_add_range_def i Let_def)
      ultimately show ?thesis using ins [unfolded Cons] Cons False
        by (auto simp: merges_with_def add_ranges_def split: prod.splits)
    next
      case True
      let ?m = "boot_mem_merge d ?rg"
      let ?t1 = "t\<lparr>bm_ranges := (bm_ranges t)[?i := ?m]\<rparr>"
      have ws1: "well_sized ?t1" and l1: "live ?t1 = ?pre @ ?m # post"
        using live_update(1) [OF ws, of ?i ?m] by (simp_all add: live_update(2) sub)
      show ?thesis
      proof (cases post)
        case Nil
        then have "Suc ?i = bm_size t" using len arg_cong [OF sp, of length] by simp
        then show ?thesis using ws1 l1 True Cons Nil nle lt
          by (simp add: boot_mem_add_range_def i d Let_def merges_with_def add_ranges_def)
      next
        case post: (Cons d2 rest)
        have lt1: "Suc ?i < bm_size t" using len arg_cong [OF sp, of length] post by simp
        have d2: "bm_ranges ?t1 ! Suc ?i = d2"
          using live_simps(2) [OF ws1, of "Suc ?i"] lt1 l1 post by (simp add: nth_append)
        let ?m2 = "boot_mem_merge ?m d2"
        let ?t2 = "?t1\<lparr>bm_ranges := (bm_ranges ?t1)[?i := ?m2]\<rparr>"
        have ws2: "well_sized ?t2" by (rule live_update(1) [OF ws1])
        have l2: "live ?t2 = ?pre @ ?m2 # d2 # rest"
          unfolding live_update(2) [of ?t1] l1 post by simp
        have "live (boot_mem_remove ?t2 (Suc ?i)) = ?pre @ ?m2 # rest"
          using live_remove [OF ws2, of "Suc ?i"] lt1 l2 by simp
        then show ?thesis using ws1 l1 True Cons post lt lt1 d2 nle well_sized_remove [OF ws2]
          by (auto simp: boot_mem_add_range_def i d Let_def merges_with_def add_ranges_def)
      qed
    qed
  qed
qed

subsection \<open>What the ranges cover\<close>

definition range_addrs :: "boot_mem_range \<Rightarrow> u32 set" where
  "range_addrs r = {rg_begin r ..< rg_end r}"

definition covers :: "boot_mem_range list \<Rightarrow> u32 set" where
  "covers rs = (\<Union>r\<in>set rs. range_addrs r)"

definition nonempty :: "boot_mem_range list \<Rightarrow> bool" where
  "nonempty rs \<longleftrightarrow> (\<forall>r\<in>set rs. rg_begin r < rg_end r)"

definition by_begin :: "boot_mem_range list \<Rightarrow> bool" where
  "by_begin rs \<longleftrightarrow> sorted_wrt (\<lambda>r s. rg_begin r \<le> rg_begin s) rs"

definition separated :: "boot_mem_range list \<Rightarrow> bool" where
  "separated rs \<longleftrightarrow> sorted_wrt (\<lambda>r s. rg_end r \<le> rg_begin s) rs"

lemma merge_fields [simp]:
  "rg_begin (boot_mem_merge d s) = min (rg_begin s) (rg_begin d)"
  "rg_end (boot_mem_merge d s) = max (rg_end s) (rg_end d)"
  by (simp_all add: boot_mem_merge_def)

lemma span_merge:
  assumes "boot_mem_overlap l r" and "rg_begin l < rg_end l" and "rg_begin r < rg_end r"
  shows "range_addrs (boot_mem_merge l r) = range_addrs l \<union> range_addrs r"
  using assms by (auto simp: range_addrs_def boot_mem_overlap_def min_def max_def)

lemma nonempty_Cons [simp]:
  "nonempty [] " "nonempty (r # rs) \<longleftrightarrow> rg_begin r < rg_end r \<and> nonempty rs"
  by (auto simp: nonempty_def)

lemma nonempty_append [simp]: "nonempty (rs @ ss) \<longleftrightarrow> nonempty rs \<and> nonempty ss"
  by (auto simp: nonempty_def)

lemma covers_Cons [simp]:
  "covers [] = {}" "covers (r # rs) = range_addrs r \<union> covers rs"
  by (auto simp: covers_def)

lemma covers_append [simp]: "covers (rs @ ss) = covers rs \<union> covers ss"
  by (auto simp: covers_def)

lemma nonempty_merge:
  "rg_begin l < rg_end l \<Longrightarrow> rg_begin r < rg_end r \<Longrightarrow>
     rg_begin (boot_mem_merge l r) < rg_end (boot_mem_merge l r)"
  by (auto simp: min_def max_def)

lemma add_touching_covers:
  assumes "rg_begin rg < rg_end rg" and "nonempty rs"
  shows "covers (add_touching rg rs) = range_addrs rg \<union> covers rs" and "nonempty (add_touching rg rs)"
proof -
  have "covers (add_touching rg rs) = range_addrs rg \<union> covers rs \<and> nonempty (add_touching rg rs)"
    using assms
    by (induction rg rs rule: add_touching.induct)
      (auto simp: Let_def span_merge nonempty_merge simp del: merge_fields)
  then show "covers (add_touching rg rs) = range_addrs rg \<union> covers rs" "nonempty (add_touching rg rs)"
    by auto
qed

lemma add_ranges_covers:
  assumes "b < e" and "nonempty rs"
  shows "covers (add_ranges b e rs) = covers rs \<union> {b..<e}" and "nonempty (add_ranges b e rs)"
proof -
  let ?P = "\<lambda>r. rg_end r < b"
  have n: "nonempty (takeWhile ?P rs)" "nonempty (dropWhile ?P rs)"
    using assms(2) nonempty_append [of "takeWhile ?P rs" "dropWhile ?P rs"] by simp_all
  have "covers rs = covers (takeWhile ?P rs) \<union> covers (dropWhile ?P rs)"
    using covers_append [of "takeWhile ?P rs" "dropWhile ?P rs"] by simp
  then show "covers (add_ranges b e rs) = covers rs \<union> {b..<e}" "nonempty (add_ranges b e rs)"
    using n add_touching_covers [of "\<lparr>rg_begin = b, rg_end = e\<rparr>" "dropWhile ?P rs"] assms(1)
    by (auto simp: add_ranges_def range_addrs_def)
qed

text \<open>The order by first address is kept by every addition.\<close>

lemma add_touching_lower:
  assumes "\<And>r. r \<in> set (rg # rs) \<Longrightarrow> l \<le> rg_begin r" and "x \<in> set (add_touching rg rs)"
  shows "l \<le> rg_begin x"
  using assms
  by (cases "(rg, rs)" rule: add_touching.cases) (auto simp: Let_def split: if_splits)

lemma by_begin_Cons:
  "by_begin [] " "by_begin (r # rs) \<longleftrightarrow> (\<forall>s\<in>set rs. rg_begin r \<le> rg_begin s) \<and> by_begin rs"
  by (simp_all add: by_begin_def)

lemma by_begin_append:
  "by_begin (rs @ ss) \<longleftrightarrow>
     by_begin rs \<and> by_begin ss \<and> (\<forall>r\<in>set rs. \<forall>s\<in>set ss. rg_begin r \<le> rg_begin s)"
  by (simp add: by_begin_def sorted_wrt_append)

lemma overlap_begin:
  "boot_mem_overlap d rg \<Longrightarrow> rg_begin d \<le> rg_begin s \<Longrightarrow>
     rg_begin (boot_mem_merge d rg) \<le> rg_begin s"
  by (simp add: min_le_iff_disj)

lemma add_touching_by_begin:
  assumes "rs \<noteq> [] \<Longrightarrow> rg_begin rg \<le> rg_end (hd rs)" and "by_begin rs"
  shows "by_begin (add_touching rg rs)"
proof (cases rs)
  case Nil
  then show ?thesis by (simp add: by_begin_Cons)
next
  case (Cons d post)
  have post: "by_begin post" and d: "\<And>s. s \<in> set post \<Longrightarrow> rg_begin d \<le> rg_begin s"
    using assms(2) Cons by (auto simp: by_begin_Cons)
  show ?thesis
  proof (cases "boot_mem_overlap d rg")
    case False
    then have "rg_begin rg < rg_begin d"
      using assms(1) Cons by (auto simp: boot_mem_overlap_def not_le)
    then have "\<And>s. s \<in> set post \<Longrightarrow> rg_begin rg \<le> rg_begin s"
      using d by (meson less_imp_le order_trans)
    moreover have "add_touching rg rs = rg # d # post" using False Cons by (cases post) auto
    ultimately show ?thesis
      using d post \<open>rg_begin rg < rg_begin d\<close> by (auto simp: by_begin_Cons)
  next
    case True
    then show ?thesis
      using Cons d post
      by (cases post) (auto simp: by_begin_Cons Let_def min_le_iff_disj)
  qed
qed

lemma add_ranges_by_begin:
  assumes "nonempty rs" and "by_begin rs"
  shows "by_begin (add_ranges b e rs)"
proof -
  let ?P = "\<lambda>r. rg_end r < b" and ?rg = "\<lparr>rg_begin = b, rg_end = e\<rparr>"
  have s: "by_begin (takeWhile ?P rs @ dropWhile ?P rs)" using assms(2) by simp
  then have d: "by_begin (dropWhile ?P rs)" unfolding by_begin_append by blast
  have h: "rg_begin ?rg \<le> rg_end (hd (dropWhile ?P rs))" if "dropWhile ?P rs \<noteq> []"
    using hd_dropWhile [OF that] by simp
  have "rg_begin r \<le> rg_begin x"
    if r: "r \<in> set (takeWhile ?P rs)" and x: "x \<in> set (add_touching ?rg (dropWhile ?P rs))" for r x
  proof (rule add_touching_lower [OF _ x])
    have "rg_end r < b" "rg_begin r < rg_end r"
      using set_takeWhileD [OF r] assms(1) by (auto simp: nonempty_def)
    then have "rg_begin r < b" by (rule less_trans [rotated])
    then show "rg_begin r \<le> rg_begin q" if "q \<in> set (?rg # dropWhile ?P rs)" for q
      using s r that unfolding by_begin_append by auto
  qed
  then show ?thesis
    using s add_touching_by_begin [OF h d] unfolding add_ranges_def by_begin_append by blast
qed

text \<open>
  Disjointness is kept when the new range is disjoint from what is there (touching is allowed).
\<close>

lemma disjoint_spans:
  "rg_begin l < rg_end l \<Longrightarrow> rg_begin r < rg_end r \<Longrightarrow>
     range_addrs l \<inter> range_addrs r = {} \<longleftrightarrow> rg_end l \<le> rg_begin r \<or> rg_end r \<le> rg_begin l"
proof
  assume ne: "rg_begin l < rg_end l" "rg_begin r < rg_end r" and d: "range_addrs l \<inter> range_addrs r = {}"
  show "rg_end l \<le> rg_begin r \<or> rg_end r \<le> rg_begin l"
  proof (rule ccontr)
    assume "\<not> ?thesis"
    then have "max (rg_begin l) (rg_begin r) \<in> range_addrs l \<inter> range_addrs r"
      using ne by (auto simp: range_addrs_def not_le max_def)
    with d show False by blast
  qed
next
  assume "rg_end l \<le> rg_begin r \<or> rg_end r \<le> rg_begin l"
  then show "range_addrs l \<inter> range_addrs r = {}" by (auto simp: range_addrs_def)
qed

lemma separated_Cons:
  "separated []" "separated (r # rs) \<longleftrightarrow> (\<forall>s\<in>set rs. rg_end r \<le> rg_begin s) \<and> separated rs"
  by (simp_all add: separated_def)

lemma separated_append:
  "separated (rs @ ss) \<longleftrightarrow>
     separated rs \<and> separated ss \<and> (\<forall>r\<in>set rs. \<forall>s\<in>set ss. rg_end r \<le> rg_begin s)"
  by (simp add: separated_def sorted_wrt_append)

lemma separated_imp_by_begin: "nonempty rs \<Longrightarrow> separated rs \<Longrightarrow> by_begin rs"
  by (induction rs) (auto simp: separated_Cons by_begin_Cons intro: order_trans [OF less_imp_le])

lemma add_touching_separated:
  assumes rg: "rg_begin rg < rg_end rg" and h: "rs \<noteq> [] \<Longrightarrow> rg_begin rg \<le> rg_end (hd rs)"
    and "nonempty rs" and "separated rs" and "range_addrs rg \<inter> covers rs = {}"
  shows "separated (add_touching rg rs)"
proof (cases rs)
  case Nil
  then show ?thesis by (simp add: separated_Cons)
next
  case (Cons d post)
  have ne: "rg_begin d < rg_end d" "nonempty post" and post: "separated post"
    and d: "\<And>s. s \<in> set post \<Longrightarrow> rg_end d \<le> rg_begin s"
    using assms(3,4) Cons by (auto simp: separated_Cons)
  have "rg_end rg \<le> rg_begin d \<or> rg_end d \<le> rg_begin rg"
    using disjoint_spans [OF rg ne(1)] assms(5) Cons by auto
  then consider (before) "rg_end rg \<le> rg_begin d" | (after) "rg_begin rg = rg_end d"
    using h Cons by fastforce
  then show ?thesis
  proof cases
    case before
    have post_rg: "rg_end rg \<le> rg_begin s" if "s \<in> set post" for s
      using before ne(1) d [OF that] by (meson less_imp_le order_trans)
    show ?thesis
    proof (cases "boot_mem_overlap d rg")
      case False
      then have "add_touching rg rs = rg # d # post" using Cons by (cases post) auto
      with before post_rg d post show ?thesis by (simp add: separated_Cons)
    next
      case True
      then have "rg_end rg = rg_begin d" using before rg by (auto simp: boot_mem_overlap_def)
      with True show ?thesis using Cons d post post_rg ne
        by (cases post) (auto simp: separated_Cons Let_def max_def nonempty_def)
    qed
  next
    case after
    have ov: "boot_mem_overlap d rg" using after ne(1) by (simp add: boot_mem_overlap_def less_imp_le)
    have "rg_end rg \<le> rg_begin s" if s: "s \<in> set post" for s
    proof -
      have s': "rg_begin s < rg_end s" using ne(2) s by (auto simp: nonempty_def)
      have "range_addrs rg \<inter> range_addrs s = {}" using assms(5) Cons s by (auto simp: covers_def)
      then have "rg_end rg \<le> rg_begin s \<or> rg_end s \<le> rg_begin rg"
        using disjoint_spans [OF rg s'] by simp
      then show ?thesis using after d [OF s] s' by auto
    qed
    with ov show ?thesis using Cons d post ne after rg
      by (cases post) (auto simp: separated_Cons Let_def max_def nonempty_def)
  qed
qed

lemma add_ranges_separated:
  assumes "b < e" and "nonempty rs" and "separated rs" and "covers rs \<inter> {b..<e} = {}"
  shows "separated (add_ranges b e rs)"
proof -
  let ?P = "\<lambda>r. rg_end r < b" and ?rg = "\<lparr>rg_begin = b, rg_end = e\<rparr>"
  have s: "separated (takeWhile ?P rs @ dropWhile ?P rs)" using assms(3) by simp
  have n: "nonempty (takeWhile ?P rs @ dropWhile ?P rs)" using assms(2) by simp
  have c: "covers (takeWhile ?P rs @ dropWhile ?P rs) \<inter> {b..<e} = {}" using assms(4) by simp
  have h: "rg_begin ?rg \<le> rg_end (hd (dropWhile ?P rs))" if "dropWhile ?P rs \<noteq> []"
    using hd_dropWhile [OF that] by simp
  have new: "separated (add_touching ?rg (dropWhile ?P rs))"
  proof (rule add_touching_separated [OF _ h])
    show "rg_begin ?rg < rg_end ?rg" using assms(1) by simp
    show "nonempty (dropWhile ?P rs)" using n unfolding nonempty_append by blast
    show "separated (dropWhile ?P rs)" using s unfolding separated_append by blast
    show "range_addrs ?rg \<inter> covers (dropWhile ?P rs) = {}" using c unfolding covers_append by (auto simp: range_addrs_def)
  qed
  have "rg_end r \<le> rg_begin x"
    if r: "r \<in> set (takeWhile ?P rs)" and x: "x \<in> set (add_touching ?rg (dropWhile ?P rs))" for r x
  proof (rule add_touching_lower [OF _ x])
    have "rg_end r < b" using set_takeWhileD [OF r] by auto
    then show "rg_end r \<le> rg_begin q" if "q \<in> set (?rg # dropWhile ?P rs)" for q
      using s r that unfolding separated_append by auto
  qed
  then show ?thesis using s new unfolding add_ranges_def separated_append by blast
qed

subsection \<open>What a search finds\<close>

text \<open>
  \<open>clear res c n\<close>: the \<open>n\<close> addresses from \<open>c\<close> on touch no reserved range. Addresses are compared
  as natural numbers, so nothing wraps here.
\<close>

definition clear :: "boot_mem_range list \<Rightarrow> nat \<Rightarrow> nat \<Rightarrow> bool" where
  "clear rs c n \<longleftrightarrow> (\<forall>r\<in>set rs. unat (rg_end r) \<le> c \<or> c + n \<le> unat (rg_begin r))"

lemma skip_reserved_spec:
  assumes "well_sized res" and "j \<le> bm_size res" and "skip_reserved res b j = k"
  shows "j \<le> k" and "k \<le> bm_size res"
    and "\<And>m. j \<le> m \<Longrightarrow> m < k \<Longrightarrow> rg_end (live res ! m) \<le> b"
    and "k < bm_size res \<Longrightarrow> b < rg_end (live res ! k)"
proof -
  have "j \<le> k \<and> k \<le> bm_size res \<and> (\<forall>m. j \<le> m \<longrightarrow> m < k \<longrightarrow> rg_end (live res ! m) \<le> b) \<and>
      (k < bm_size res \<longrightarrow> b < rg_end (live res ! k))"
    using assms
  proof (induction res b j rule: skip_reserved.induct)
    case (1 res b j)
    show ?case
    proof (cases "j < bm_size res \<and> rg_end (bm_ranges res ! j) \<le> b")
      case True
      then have "skip_reserved res b (Suc j) = k"
        using "1.prems"(3) by (subst (asm) skip_reserved.simps) (auto split: if_splits)
      then have "Suc j \<le> k \<and> k \<le> bm_size res \<and>
          (\<forall>m. Suc j \<le> m \<longrightarrow> m < k \<longrightarrow> rg_end (live res ! m) \<le> b) \<and>
          (k < bm_size res \<longrightarrow> b < rg_end (live res ! k))"
        using "1.IH" True "1.prems"(1) by (simp add: not_less)
      moreover have "rg_end (live res ! j) \<le> b"
        using True by (simp add: live_simps(2) [OF "1.prems"(1)])
      moreover have "m = j \<or> Suc j \<le> m" if "j \<le> m" for m using that by auto
      ultimately show ?thesis by (blast intro: Suc_leD)
    next
      case False
      then have "k = j" using "1.prems"(3) by (subst (asm) skip_reserved.simps) (auto split: if_splits)
      with False "1.prems" show ?thesis by (auto simp: live_simps(2) not_le)
    qed
  qed
  then show "j \<le> k" "k \<le> bm_size res"
    "\<And>m. j \<le> m \<Longrightarrow> m < k \<Longrightarrow> rg_end (live res ! m) \<le> b"
    "k < bm_size res \<Longrightarrow> b < rg_end (live res ! k)"
    by blast+
qed

text \<open>
  The outcome of a search for \<open>n\<close> bytes from \<open>b\<close> on and below \<open>e\<close>: the lowest aligned place that
  is clear, or the fact that there is none.
\<close>

definition search_ok ::
  "boot_mem_range list \<Rightarrow> nat \<Rightarrow> nat \<Rightarrow> nat \<Rightarrow> nat \<Rightarrow> u32 option \<Rightarrow> bool" where
  "search_ok rs align n e b r \<longleftrightarrow>
     (case r of
        Some a \<Rightarrow> b \<le> unat a \<and> align dvd unat a \<and> unat a + n \<le> e \<and> clear rs (unat a) n \<and>
          (\<forall>c. align dvd c \<longrightarrow> b \<le> c \<longrightarrow> clear rs c n \<longrightarrow> unat a \<le> c)
      | None \<Rightarrow> (\<forall>c. align dvd c \<longrightarrow> b \<le> c \<longrightarrow> c + n \<le> e \<longrightarrow> \<not> clear rs c n))"

lemma search_ok_advance:
  assumes "search_ok rs align n e b' r" and "b \<le> b'"
    and "\<And>c. align dvd c \<Longrightarrow> b \<le> c \<Longrightarrow> clear rs c n \<Longrightarrow> b' \<le> c"
  shows "search_ok rs align n e b r"
proof (cases r)
  case None
  with assms show ?thesis unfolding search_ok_def by simp blast
next
  case (Some a)
  with assms(1) have "b' \<le> unat a" by (simp add: search_ok_def)
  with assms Some show ?thesis unfolding search_ok_def by simp
qed

text \<open>
  The loop over one memory range returns, with enough headroom that no address computation wraps.
\<close>

lemma find_in_range_correct:
  assumes res: "well_sized res" "by_begin (live res)"
    and al: "is_pow2 align" and sz: "0 < sz"
    and room: "unat end + unat align + unat sz \<le> 2 ^ 32"
    and "j \<le> bm_size res" and "\<And>m. m < j \<Longrightarrow> rg_end (live res ! m) \<le> b"
    and "\<And>m. m < j \<Longrightarrow> rg_end (live res ! m) \<le> end"
  shows "\<exists>r j'. find_in_range res sz align end j b = Some (r, j') \<and> j' \<le> bm_size res \<and>
    (\<forall>m<j'. rg_end (live res ! m) \<le> end) \<and>
    search_ok (live res) (unat align) (unat sz) (unat end) (unat b) r"
  using assms(6-8)
proof (induction "unat end - unat b" arbitrary: j b rule: less_induct)
  case less
  note len = live_simps(1) [OF res(1)]
  have szp: "0 < unat sz" using sz by (simp add: word_less_nat_alt)
  show ?case
  proof (cases "b < end")
    case False
    then have "unat end \<le> unat b" by (simp add: word_le_nat_alt [symmetric])
    moreover have "find_in_range res sz align end j b = Some (None, j)"
      using False by (subst find_in_range.simps) simp
    ultimately show ?thesis using less.prems szp by (auto simp: search_ok_def)
  next
    case True
    define ab where "ab = align_up b align"
    have "unat b < unat end" using True by (simp add: word_less_nat_alt)
    then have "unat b + unat align \<le> 2 ^ 32" using room by linarith
    note up = align_up_props [OF al this, folded ab_def]
    have abz: "unat (ab + sz) = unat ab + unat sz"
      using up(3) \<open>unat b < unat end\<close> room by (intro unat_plus_no_wrap) simp
    have b_ab: "b \<le> ab" using up(2) by (simp add: word_le_nat_alt)
    have low: "unat ab \<le> c" if "unat align dvd c" "unat b \<le> c" for c using up(4) that by blast
    show ?thesis
    proof (cases "end < ab + sz")
      case toobig: True
      then have "find_in_range res sz align end j b = Some (None, j)"
        using True by (subst find_in_range.simps) (simp add: Let_def ab_def)
      moreover have "unat end < unat ab + unat sz"
        using toobig abz by (simp add: word_less_nat_alt)
      ultimately show ?thesis using less.prems low by (fastforce simp: search_ok_def)
    next
      case fits: False
      define k where "k = skip_reserved res ab j"
      note sk = skip_reserved_spec [OF res(1) less.prems(1) k_def [symmetric]]
      have before: "rg_end (live res ! m) \<le> ab" if "m < k" for m
        using sk(3) [of m] less.prems(2) [of m] that b_ab by (cases "m < j") auto
      have aend: "unat ab + unat sz \<le> unat end" using fits abz by (simp add: word_less_nat_alt)
      have step: "find_in_range res sz align end j b =
          (if k = bm_size res \<or> ab + sz \<le> rg_begin (live res ! k) then Some (Some ab, k)
           else find_in_range res sz align end k (rg_end (live res ! k)))"
      proof (cases "k = bm_size res")
        case False
        then have "bm_ranges res ! k = live res ! k" using sk(2) live_simps(2) [OF res(1)] by simp
        then show ?thesis using True fits
          by (subst find_in_range.simps) (simp add: Let_def ab_def [symmetric] k_def [symmetric])
      qed (use True fits in \<open>subst find_in_range.simps, simp add: Let_def ab_def [symmetric] k_def [symmetric]\<close>)
      show ?thesis
      proof (cases "k = bm_size res \<or> ab + sz \<le> rg_begin (live res ! k)")
        case found: True
        have "clear (live res) (unat ab) (unat sz)"
          unfolding clear_def all_set_conv_all_nth len
        proof (intro allI impI)
          fix m assume m: "m < bm_size res"
          show "unat (rg_end (live res ! m)) \<le> unat ab \<or>
              unat ab + unat sz \<le> unat (rg_begin (live res ! m))"
          proof (cases "m < k")
            case True
            then show ?thesis using before by (simp add: word_le_nat_alt)
          next
            case False
            with found m have "ab + sz \<le> rg_begin (live res ! k)" by auto
            also have "\<dots> \<le> rg_begin (live res ! m)"
              using False m res(2) len
              by (cases "m = k") (auto simp: by_begin_def sorted_wrt_iff_nth_less)
            finally show ?thesis using abz by (simp add: word_le_nat_alt)
          qed
        qed
        then have "search_ok (live res) (unat align) (unat sz) (unat end) (unat b) (Some ab)"
          using b_ab up(1) aend low by (auto simp: search_ok_def word_le_nat_alt)
        moreover have "ab \<le> end" using aend by (simp add: word_le_nat_alt)
        then have "\<forall>m<k. rg_end (live res ! m) \<le> end" using before by (blast intro: order_trans)
        ultimately show ?thesis using found step sk(2) by auto
      next
        case blocked: False
        define b' where "b' = rg_end (live res ! k)"
        have k: "k < bm_size res" using blocked sk(2) by simp
        have b': "ab < b'" using sk(4) [OF k] by (simp add: b'_def)
        have hit: "\<not> clear (live res) c (unat sz)" if "unat ab \<le> c" "c < unat b'" for c
        proof -
          have "unat (rg_begin (live res ! k)) < unat ab + unat sz"
            using blocked abz by (simp add: word_less_nat_alt not_le)
          then have "unat (rg_begin (live res ! k)) < c + unat sz" using that(1) by simp
          moreover have "live res ! k \<in> set (live res)" using k len by simp
          ultimately show ?thesis using that(2) by (force simp: clear_def b'_def)
        qed
        have "unat b < unat b'" using b_ab b' by (auto simp: word_less_nat_alt word_le_nat_alt)
        then have "unat end - unat b' < unat end - unat b" using \<open>unat b < unat end\<close> by linarith
        moreover have "rg_end (live res ! m) \<le> b'" if "m < k" for m
          using before [OF that] b' by simp
        moreover have "rg_end (live res ! m) \<le> end" if "m < k" for m
          using before [OF that] aend by (simp add: word_le_nat_alt)
        ultimately obtain r j' where IH: "find_in_range res sz align end k b' = Some (r, j')"
          "j' \<le> bm_size res" "\<forall>m<j'. rg_end (live res ! m) \<le> end"
          "search_ok (live res) (unat align) (unat sz) (unat end) (unat b') r"
          using less.hyps [OF _ sk(2), of b'] by blast
        have "search_ok (live res) (unat align) (unat sz) (unat end) (unat b) r"
        proof (rule search_ok_advance [OF IH(4)])
          show "unat b \<le> unat b'" using \<open>unat b < unat b'\<close> by simp
          show "unat b' \<le> c" if "unat align dvd c" "unat b \<le> c" "clear (live res) c (unat sz)" for c
            using hit [of c] low [OF that(1,2)] that(3) by (meson not_le)
        qed
        then show ?thesis using IH(1-3) step blocked by (auto simp: b'_def)
      qed
    qed
  qed
qed

text \<open>A place for \<open>n\<close> bytes: aligned, in the window, inside one memory range, and clear.\<close>

definition placed ::
  "boot_mem_range list \<Rightarrow> boot_mem_range list \<Rightarrow> nat \<Rightarrow> nat \<Rightarrow> nat \<Rightarrow> nat \<Rightarrow> nat \<Rightarrow> bool" where
  "placed mem res align n lo hi c \<longleftrightarrow>
     align dvd c \<and> lo \<le> c \<and> c + n \<le> hi \<and> clear res c n \<and>
     (\<exists>r\<in>set mem. unat (rg_begin r) \<le> c \<and> c + n \<le> unat (rg_end r))"

lemma unat_min_max: "unat (min a (b::u32)) = min (unat a) (unat b)" "unat (max a b) = max (unat a) (unat b)"
  by (simp_all add: min_def max_def word_le_nat_alt)

lemma placed_Cons:
  "placed (r # mem) res align n lo hi c \<longleftrightarrow>
     placed mem res align n lo hi c \<or>
     align dvd c \<and> max (unat (rg_begin r)) lo \<le> c \<and> c + n \<le> min (unat (rg_end r)) hi \<and> clear res c n"
  by (auto simp: placed_def)

lemma find_from_range_correct:
  assumes mem: "well_sized (bm_memory bm)" "nonempty (live (bm_memory bm))"
      "separated (live (bm_memory bm))"
    and res: "well_sized (bm_reserved bm)" "by_begin (live (bm_reserved bm))"
    and al: "is_pow2 align" and sz: "0 < sz"
    and room: "unat to + unat align + unat sz \<le> 2 ^ 32"
    and "j \<le> bm_size (bm_reserved bm)"
    and "\<And>m i'. m < j \<Longrightarrow> i \<le> i' \<Longrightarrow> i' < bm_size (bm_memory bm) \<Longrightarrow>
      rg_end (live (bm_reserved bm) ! m) \<le> rg_begin (live (bm_memory bm) ! i')"
  shows "\<exists>a. find_from_range bm sz align from to i j = Some a \<and>
    (let P = placed (drop i (live (bm_memory bm))) (live (bm_reserved bm)) (unat align) (unat sz)
               (unat from) (unat to)
     in if a = to then (\<forall>c. \<not> P c) else P (unat a) \<and> (\<forall>c. P c \<longrightarrow> unat a \<le> c))"
  using assms(9,10)
proof (induction "bm_size (bm_memory bm) - i" arbitrary: i j)
  case 0
  then show ?case
    by (subst find_from_range.simps) (simp add: Let_def placed_def live_simps mem)
next
  case (Suc d)
  let ?mem = "live (bm_memory bm)" and ?res = "live (bm_reserved bm)"
  let ?P = "\<lambda>i. placed (drop i ?mem) ?res (unat align) (unat sz) (unat from) (unat to)"
  have szp: "0 < unat sz" using sz by (simp add: word_less_nat_alt)
  have i: "i < bm_size (bm_memory bm)" and d: "d = bm_size (bm_memory bm) - Suc i" using Suc(2) by auto
  have len: "length ?mem = bm_size (bm_memory bm)" by (rule live_simps(1) [OF mem(1)])
  define r where "r = ?mem ! i"
  have r: "bm_ranges (bm_memory bm) ! i = r" using live_simps(2) [OF mem(1) i] by (simp add: r_def)
  have dr: "drop i ?mem = r # drop (Suc i) ?mem" using i len by (simp add: r_def Cons_nth_drop_Suc)
  have rin: "r \<in> set ?mem" using i len by (simp add: r_def)
  have later: "rg_end r \<le> rg_begin s" if "s \<in> set (drop (Suc i) ?mem)" for s
  proof -
    have "separated (r # drop (Suc i) ?mem)"
      using mem(3) unfolding dr [symmetric] separated_def by (rule sorted_wrt_drop)
    with that show ?thesis by (simp add: separated_Cons)
  qed
  have rne: "rg_begin r < rg_end r" using mem(2) rin by (auto simp: nonempty_def)
  note IH = Suc(1) [OF d]
  have next_j: "\<And>m i'. m < j \<Longrightarrow> Suc i \<le> i' \<Longrightarrow> i' < bm_size (bm_memory bm) \<Longrightarrow>
      rg_end (?res ! m) \<le> rg_begin (?mem ! i')" using Suc.prems(2) by simp
  show ?case
  proof (cases "rg_end r \<le> from")
    case True
    then have "find_from_range bm sz align from to i j = find_from_range bm sz align from to (i + 1) j"
      using i r by (subst find_from_range.simps) (simp add: Let_def)
    moreover have "?P i = ?P (Suc i)"
      using True szp unfolding dr by (auto simp: fun_eq_iff placed_Cons word_le_nat_alt)
    ultimately show ?thesis using IH [OF Suc.prems(1) next_j] by (simp only: Suc_eq_plus1)
  next
    case past: False
    show ?thesis
    proof (cases "to \<le> rg_begin r")
      case True
      then have "find_from_range bm sz align from to i j = Some to"
        using i r past by (subst find_from_range.simps) (simp add: Let_def)
      moreover have "\<not> ?P i c" for c
      proof -
        have "to \<le> rg_begin s" if "s \<in> set (drop i ?mem)" for s
          using that order_trans [OF True order_trans [OF less_imp_le [OF rne] later]] True
          unfolding dr by auto
        then show ?thesis using szp by (fastforce simp: placed_def word_le_nat_alt)
      qed
      ultimately show ?thesis by simp
    next
      case False
      let ?e = "min (rg_end r) to" and ?b = "max (rg_begin r) from"
      have "find_from_range bm sz align from to i j =
          (case find_in_range (bm_reserved bm) sz align ?e j ?b of None \<Rightarrow> None
           | Some (Some addr, j') \<Rightarrow> Some addr
           | Some (None, j') \<Rightarrow> find_from_range bm sz align from to (i + 1) j')"
        using i r past False by (subst find_from_range.simps) (simp add: Let_def)
      moreover have "\<exists>q j'. find_in_range (bm_reserved bm) sz align ?e j ?b = Some (q, j') \<and>
          j' \<le> bm_size (bm_reserved bm) \<and> (\<forall>m<j'. rg_end (?res ! m) \<le> ?e) \<and>
          search_ok ?res (unat align) (unat sz) (unat ?e) (unat ?b) q"
      proof (rule find_in_range_correct [OF res al sz _ Suc.prems(1)])
        show "unat ?e + unat align + unat sz \<le> 2 ^ 32" using room by (simp add: unat_min_max)
        have "rg_end (?res ! m) \<le> rg_begin r" if "m < j" for m
          using Suc.prems(2) [OF that _ i] by (simp add: r_def)
        then show "rg_end (?res ! m) \<le> ?b" "rg_end (?res ! m) \<le> ?e" if "m < j" for m
          using that rne False by (fastforce simp: le_max_iff_disj not_le)+
      qed
      ultimately obtain q j' where q: "j' \<le> bm_size (bm_reserved bm)"
          "\<forall>m<j'. rg_end (?res ! m) \<le> ?e"
          "search_ok ?res (unat align) (unat sz) (unat ?e) (unat ?b) q"
        and eq: "find_from_range bm sz align from to i j =
          (case q of None \<Rightarrow> find_from_range bm sz align from to (i + 1) j' | Some a \<Rightarrow> Some a)"
        by (auto split: option.splits)
      show ?thesis
      proof (cases q)
        case None
        have "?P i = ?P (Suc i)"
          using q(3) None unfolding dr search_ok_def
          by (auto simp: fun_eq_iff placed_Cons unat_min_max)
        moreover have "rg_end (?res ! m) \<le> rg_begin (?mem ! i')"
          if "m < j'" "Suc i \<le> i'" "i' < bm_size (bm_memory bm)" for m i'
        proof -
          have "?mem ! i' = drop (Suc i) ?mem ! (i' - Suc i)" using that by (simp add: len)
          also have "\<dots> \<in> set (drop (Suc i) ?mem)" by (rule nth_mem) (use that len in simp)
          finally have "?mem ! i' \<in> set (drop (Suc i) ?mem)" .
          from later [OF this] q(2) that(1) show ?thesis by (fastforce intro: order_trans)
        qed
        moreover have "find_from_range bm sz align from to i j =
            find_from_range bm sz align from to (Suc i) j'"
          using eq None by simp
        ultimately show ?thesis using IH [OF q(1)] by (simp only:)
      next
        case (Some a)
        have ok: "unat ?b \<le> unat a" "unat align dvd unat a" "unat a + unat sz \<le> unat ?e"
            "clear ?res (unat a) (unat sz)"
            "\<And>c. unat align dvd c \<Longrightarrow> unat ?b \<le> c \<Longrightarrow> clear ?res c (unat sz) \<Longrightarrow> unat a \<le> c"
          using q(3) Some by (auto simp: search_ok_def)
        have "unat a < unat to" using ok(3) szp by (simp add: unat_min_max)
        then have "a \<noteq> to" by auto
        moreover have "?P i (unat a)" using ok(1-4) unfolding dr placed_Cons by (simp add: unat_min_max)
        moreover have "unat a \<le> c" if "?P i c" for c
          using that unfolding dr placed_Cons
        proof
          assume "?P (Suc i) c"
          then obtain s where "s \<in> set (drop (Suc i) ?mem)" "unat (rg_begin s) \<le> c"
            by (auto simp: placed_def)
          with later [OF this(1)] ok(3) show ?thesis by (simp add: unat_min_max word_le_nat_alt)
        next
          assume "unat align dvd c \<and> max (unat (rg_begin r)) (unat from) \<le> c \<and>
            c + unat sz \<le> min (unat (rg_end r)) (unat to) \<and> clear ?res c (unat sz)"
          then show ?thesis using ok(5) [of c] by (simp add: unat_min_max)
        qed
        ultimately show ?thesis using eq Some by simp
      qed
    qed
  qed
qed

subsection \<open>The invariant of the allocator\<close>

text \<open>
  Both arrays are filled with non-empty ranges in the order of their first addresses. The memory
  ranges are also disjoint as long as nothing overlapping is added.
\<close>

definition ranges_inv :: "boot_mem_type \<Rightarrow> bool" where
  "ranges_inv t \<longleftrightarrow> well_sized t \<and> nonempty (live t) \<and> by_begin (live t)"

definition boot_mem_inv :: "boot_mem \<Rightarrow> bool" where
  "boot_mem_inv bm \<longleftrightarrow> ranges_inv (bm_memory bm) \<and> ranges_inv (bm_reserved bm)"

lemma boot_mem_inv_init: "boot_mem_inv boot_mem_init"
  by (simp add: boot_mem_inv_def ranges_inv_def boot_mem_init_def empty_type_def well_sized_def
      live_def by_begin_def)

lemma add_range_empty: "\<not> b < e \<Longrightarrow> boot_mem_add_range t b e = (0, t)"
  by (simp add: boot_mem_add_range_def not_less)

lemma add_range_inv:
  assumes "ranges_inv t" and "boot_mem_add_range t b e = (rc, t')"
  shows "ranges_inv t'"
    and "rc = 0 \<Longrightarrow> covers (live t') = covers (live t) \<union> {b..<e}"
    and "rc \<noteq> 0 \<Longrightarrow> rc = -1 \<and> t' = t \<and> bm_size t = bm_capacity t"
proof -
  have "ranges_inv t' \<and> (rc = 0 \<longrightarrow> covers (live t') = covers (live t) \<union> {b..<e}) \<and>
      (rc \<noteq> 0 \<longrightarrow> rc = -1 \<and> t' = t \<and> bm_size t = bm_capacity t)"
  proof (cases "b < e")
    case False
    then have "{b..<e} = {}" by simp
    with assms add_range_empty [OF False, of t] show ?thesis by auto
  next
    case True
    have inv: "well_sized t" "nonempty (live t)" "by_begin (live t)"
      using assms(1) by (auto simp: ranges_inv_def)
    from boot_mem_add_range_refines [OF inv(1) True] assms(2)
    have "if bm_size t = bm_capacity t \<and> \<not> merges_with b e (live t) then rc = -1 \<and> t' = t
        else rc = 0 \<and> well_sized t' \<and> live t' = add_ranges b e (live t)" by simp
    then show ?thesis
      using add_ranges_covers [OF True inv(2)] add_ranges_by_begin [OF inv(2,3)] assms(1)
      by (auto simp: ranges_inv_def split: if_splits)
  qed
  then show "ranges_inv t'" "rc = 0 \<Longrightarrow> covers (live t') = covers (live t) \<union> {b..<e}"
    "rc \<noteq> 0 \<Longrightarrow> rc = -1 \<and> t' = t \<and> bm_size t = bm_capacity t" by auto
qed

lemma add_range_separated:
  assumes "ranges_inv t" and "separated (live t)" and "covers (live t) \<inter> {b..<e} = {}"
    and "boot_mem_add_range t b e = (rc, t')"
  shows "separated (live t')"
proof (cases "b < e")
  case False
  with assms add_range_empty [OF False, of t] show ?thesis by auto
next
  case True
  have inv: "well_sized t" "nonempty (live t)" using assms(1) by (auto simp: ranges_inv_def)
  from boot_mem_add_range_refines [OF inv(1) True] assms(4)
  have "t' = t \<or> live t' = add_ranges b e (live t)" by (auto split: if_splits)
  with add_ranges_separated [OF True inv(2) assms(2,3)] assms(2) show ?thesis by auto
qed

lemma boot_mem_find_total:
  assumes "boot_mem_inv bm" and "separated (live (bm_memory bm))"
    and "is_pow2 align" and "0 < sz" and "unat to + unat align + unat sz \<le> 2 ^ 32"
  shows "\<exists>a. boot_mem_find bm sz align from to = Some a \<and>
    (let P = placed (live (bm_memory bm)) (live (bm_reserved bm)) (unat align) (unat sz)
               (unat from) (unat to)
     in if a = to then (\<forall>c. \<not> P c) else P (unat a) \<and> (\<forall>c. P c \<longrightarrow> unat a \<le> c))"
proof (cases "from > to \<or> sz > to - from")
  case True
  then have no: "\<not> (unat from \<le> c \<and> c + unat sz \<le> unat to)" for c
  proof (cases "from \<le> to")
    case le: True
    then have "unat (to - from) < unat sz" using True by (auto simp: word_less_nat_alt word_le_nat_alt)
    then show ?thesis using unat_minus_no_wrap [OF le] by linarith
  next
    case False
    then show ?thesis by (simp add: word_le_nat_alt)
  qed
  have "boot_mem_find bm sz align from to = Some to"
    using True unfolding boot_mem_find_def by presburger
  with no show ?thesis by (auto simp: placed_def Let_def)
next
  case False
  have "boot_mem_find bm sz align from to = find_from_range bm sz align from to 0 0"
    using False assms(4) unfolding boot_mem_find_def by auto
  then show ?thesis
    using find_from_range_correct [of bm align sz to 0 0 "from"] assms
    by (simp add: boot_mem_inv_def ranges_inv_def)
qed

lemma clear_disjoint:
  assumes "clear rs (unat a) (unat n)" and "unat a + unat n < 2 ^ 32"
  shows "covers rs \<inter> {a..<a + n} = {}"
proof -
  have n: "unat (a + n) = unat a + unat n" by (rule unat_plus_no_wrap) (use assms(2) in simp)
  have "range_addrs r \<inter> {a..<a + n} = {}" if "r \<in> set rs" for r
    using assms(1) that n by (fastforce simp: clear_def range_addrs_def word_le_nat_alt word_less_nat_alt)
  then show ?thesis by (auto simp: covers_def)
qed

lemma clear_iff:
  assumes "nonempty rs" and "0 < n" and "unat a + unat n < 2 ^ 32"
  shows "clear rs (unat a) (unat n) \<longleftrightarrow> covers rs \<inter> {a..<a + n} = {}"
proof
  assume "covers rs \<inter> {a..<a + n} = {}"
  then have d: "range_addrs r \<inter> {a..<a + n} = {}" if "r \<in> set rs" for r
    using that by (auto simp: covers_def)
  have n: "unat (a + n) = unat a + unat n" by (rule unat_plus_no_wrap) (use assms(3) in simp)
  have "unat (rg_end r) \<le> unat a \<or> unat a + unat n \<le> unat (rg_begin r)" if r: "r \<in> set rs" for r
  proof (rule ccontr)
    assume no: "\<not> ?thesis"
    have "rg_begin r < rg_end r" using assms(1) r by (simp add: nonempty_def)
    moreover have "a < a + n" using n assms(2) by (simp add: word_less_nat_alt)
    ultimately have "max (rg_begin r) a \<in> range_addrs r \<inter> {a..<a + n}"
      using no n by (auto simp: range_addrs_def word_less_nat_alt word_le_nat_alt max_def)
    with d [OF r] show False by simp
  qed
  then show "clear rs (unat a) (unat n)" by (simp add: clear_def)
qed (rule clear_disjoint [OF _ assms(3)])

lemma boot_mem_reserve_result:
  assumes "boot_mem_inv bm" and "boot_mem_reserve bm b e = (rc, bm')"
  shows "boot_mem_inv bm' \<and> bm_memory bm' = bm_memory bm \<and>
    (if rc = 0 then covers (live (bm_reserved bm')) = covers (live (bm_reserved bm)) \<union> {b..<e}
     else rc = -1 \<and> bm' = bm \<and> bm_size (bm_reserved bm) = bm_capacity (bm_reserved bm))"
proof -
  obtain t where t: "boot_mem_add_range (bm_reserved bm) b e = (rc, t)"
    and bm': "bm' = bm\<lparr>bm_reserved := t\<rparr>"
    using assms(2) by (auto simp: boot_mem_reserve_def split: prod.splits)
  have "ranges_inv (bm_reserved bm)" using assms(1) by (simp add: boot_mem_inv_def)
  from add_range_inv [OF this t] show ?thesis
    using assms(1) bm' by (cases "rc = 0") (auto simp: boot_mem_inv_def)
qed

subsection \<open>Properties\<close>

text \<open>A small instance for the witnesses: one megabyte of memory, its second page in use.\<close>

definition sample_bootmem :: boot_mem where
  "sample_bootmem =
     \<lparr>bm_memory = \<lparr>bm_ranges = [\<lparr>rg_begin = 0, rg_end = 0x100000\<rparr>, zero_range], bm_size = 1,
        bm_capacity = 2\<rparr>,
      bm_reserved = \<lparr>bm_ranges = [\<lparr>rg_begin = 0x1000, rg_end = 0x2000\<rparr>, zero_range], bm_size = 1,
        bm_capacity = 2\<rparr>\<rparr>"

lemma sample_bootmem_inv: "boot_mem_inv sample_bootmem" "separated (live (bm_memory sample_bootmem))"
  by (simp_all add: sample_bootmem_def boot_mem_inv_def ranges_inv_def well_sized_def live_def
      by_begin_def separated_def)

text \<open>
  C10: reserving \<open>[b, e)\<close> keeps both arrays well formed and changes only the reserved one. On success
  the reserved addresses are exactly the old ones and \<open>[b, e)\<close>, whatever was merged; the only
  failure is a full array, which returns -1 and changes nothing.
\<close>

theorem boot_mem_reserve_exact:
  assumes "boot_mem_inv bm" and "boot_mem_reserve bm b e = (rc, bm')"
  shows "boot_mem_inv bm' \<and> bm_memory bm' = bm_memory bm \<and>
    (if rc = 0 then covers (live (bm_reserved bm')) = covers (live (bm_reserved bm)) \<union> {b..<e}
     else rc = -1 \<and> bm' = bm \<and> bm_size (bm_reserved bm) = bm_capacity (bm_reserved bm))"
  by (rule boot_mem_reserve_result [OF assms])

theorem boot_mem_reserve_exact_witness:
  "\<exists>rc bm'. boot_mem_reserve sample_bootmem 0x5000 0x6000 = (rc, bm') \<and> boot_mem_inv bm' \<and>
     bm_memory bm' = bm_memory sample_bootmem"
proof -
  obtain rc bm' where "boot_mem_reserve sample_bootmem 0x5000 0x6000 = (rc, bm')" by fastforce
  with boot_mem_reserve_exact [OF sample_bootmem_inv(1) this] show ?thesis by blast
qed

text \<open>
  Adding memory that overlaps nothing added before keeps the memory ranges disjoint and ordered
  (adjacent ones are merged), so the searches below may rely on it.
\<close>

lemma boot_mem_add_keeps_disjoint:
  assumes "boot_mem_inv bm" and "separated (live (bm_memory bm))"
    and "covers (live (bm_memory bm)) \<inter> {b..<e} = {}" and "boot_mem_add bm b e = (rc, bm')"
  shows "boot_mem_inv bm' \<and> separated (live (bm_memory bm')) \<and> bm_reserved bm' = bm_reserved bm \<and>
    covers (live (bm_memory bm')) = covers (live (bm_memory bm)) \<union> (if rc = 0 then {b..<e} else {})"
proof -
  obtain t where t: "boot_mem_add_range (bm_memory bm) b e = (rc, t)"
    and bm': "bm' = bm\<lparr>bm_memory := t\<rparr>"
    using assms(4) by (auto simp: boot_mem_add_def split: prod.splits)
  have "ranges_inv (bm_memory bm)" using assms(1) by (simp add: boot_mem_inv_def)
  from add_range_inv [OF this t] add_range_separated [OF this assms(2,3) t] show ?thesis
    using assms(1) bm' by (auto simp: boot_mem_inv_def)
qed

lemma boot_mem_add_keeps_disjoint_witness:
  "\<exists>rc bm'. boot_mem_add sample_bootmem 0x100000 0x200000 = (rc, bm') \<and>
     separated (live (bm_memory bm'))"
proof -
  obtain rc bm' where add: "boot_mem_add sample_bootmem 0x100000 0x200000 = (rc, bm')" by fastforce
  have "covers (live (bm_memory sample_bootmem)) \<inter> {0x100000..<0x200000} = {}"
    by (auto simp: sample_bootmem_def live_def range_addrs_def)
  from boot_mem_add_keeps_disjoint [OF sample_bootmem_inv this add] add show ?thesis by blast
qed

text \<open>
  Adding a range that strictly contains the first range it reaches does not merge the two: the
  new range is put in front of the other, and the array holds overlapping ranges from then on.
\<close>

lemma boot_mem_add_swallow_overlaps:
  assumes "ranges_inv t" and "bm_size t < bm_capacity t"
    and "dropWhile (\<lambda>r. rg_end r < b) (live t) = d # post"
    and "b < rg_begin d" and "rg_end d < e" and "boot_mem_add_range t b e = (rc, t')"
  shows "rc = 0 \<and> \<not> separated (live t') \<and> d \<in> set (live t') \<and>
    \<lparr>rg_begin = b, rg_end = e\<rparr> \<in> set (live t')"
proof -
  let ?rg = "\<lparr>rg_begin = b, rg_end = e\<rparr>" and ?pre = "takeWhile (\<lambda>r. rg_end r < b) (live t)"
  have inv: "well_sized t" "nonempty (live t)" using assms(1) by (auto simp: ranges_inv_def)
  have dne: "rg_begin d < rg_end d"
    using inv(2) live_split [OF assms(3)] by (metis list.set_intros(1) nonempty_Cons(2) nonempty_append)
  have be: "b < e" using assms(4,5) dne by (meson less_trans)
  have no: "\<not> boot_mem_overlap d ?rg" using assms(4,5) by (auto simp: boot_mem_overlap_def)
  then have "add_ranges b e (live t) = ?pre @ ?rg # d # post"
    using assms(3) by (cases post) (auto simp: add_ranges_def)
  moreover have "rc = 0 \<and> live t' = add_ranges b e (live t)"
    using boot_mem_add_range_refines [OF inv(1) be] assms(2,6) by simp
  moreover have "\<not> e \<le> rg_begin d" using dne assms(5) by auto
  ultimately show ?thesis by (simp add: separated_append separated_Cons)
qed

lemma boot_mem_add_swallow_overlaps_witness:
  "\<exists>rc t'. boot_mem_add_range (bm_reserved sample_bootmem) 0x800 0x3000 = (rc, t') \<and>
     \<not> separated (live t')"
proof -
  obtain rc t' where add: "boot_mem_add_range (bm_reserved sample_bootmem) 0x800 0x3000 = (rc, t')"
    by fastforce
  have "ranges_inv (bm_reserved sample_bootmem)"
    using sample_bootmem_inv(1) by (simp add: boot_mem_inv_def)
  from boot_mem_add_swallow_overlaps [OF this _ _ _ _ add,
      of "\<lparr>rg_begin = 0x1000, rg_end = 0x2000\<rparr>" "[]"]
  have "\<not> separated (live t')" by (simp add: sample_bootmem_def live_def)
  with add show ?thesis by blast
qed

text \<open>
  C9: over disjoint memory ranges, and when no address computation can wrap, \<open>boot_mem_find\<close>
  returns; it yields the lowest aligned place in the window that lies in one memory range and
  touches nothing reserved, and \<open>to\<close> exactly when there is no such place.
\<close>

theorem boot_mem_find_first_fit:
  assumes "boot_mem_inv bm" and "separated (live (bm_memory bm))"
    and "is_pow2 align" and "0 < sz" and "unat to + unat align + unat sz \<le> 2 ^ 32"
  shows "\<exists>a. boot_mem_find bm sz align from to = Some a \<and>
    (let P = placed (live (bm_memory bm)) (live (bm_reserved bm)) (unat align) (unat sz)
               (unat from) (unat to)
     in if a = to then (\<forall>c. \<not> P c) else P (unat a) \<and> (\<forall>c. P c \<longrightarrow> unat a \<le> c))"
  by (rule boot_mem_find_total [OF assms])

lemma is_pow2_4096: "is_pow2 0x1000"
  unfolding is_pow2_def by (simp add: image_iff) (rule bexI [of _ 12], simp_all)

theorem boot_mem_find_first_fit_witness:
  "\<exists>a. boot_mem_find sample_bootmem 0x1000 0x1000 0x800 0x8000 = Some a"
  using boot_mem_find_first_fit [OF sample_bootmem_inv is_pow2_4096, of "0x1000" "0x8000" "0x800"] by auto

lemma boot_mem_alloc_total:
  assumes "boot_mem_inv bm" and "separated (live (bm_memory bm))"
    and "is_pow2 align" and "0 < sz" and "unat to + unat align + unat sz \<le> 2 ^ 32"
  shows "\<exists>a bm'. boot_mem_alloc bm sz align from to = Some (a, bm') \<and>
    boot_mem_inv bm' \<and> bm_memory bm' = bm_memory bm \<and>
    (if a = to then bm' = bm \<and> (bm_size (bm_reserved bm) = bm_capacity (bm_reserved bm) \<or>
       (\<forall>c. \<not> placed (live (bm_memory bm)) (live (bm_reserved bm)) (unat align) (unat sz)
         (unat from) (unat to) c))
     else placed (live (bm_memory bm)) (live (bm_reserved bm)) (unat align) (unat sz)
            (unat from) (unat to) (unat a) \<and>
          covers (live (bm_reserved bm')) = covers (live (bm_reserved bm)) \<union> {a..<a + sz})"
proof -
  obtain a where a: "boot_mem_find bm sz align from to = Some a" and
    p: "a \<noteq> to \<Longrightarrow> placed (live (bm_memory bm)) (live (bm_reserved bm)) (unat align) (unat sz)
      (unat from) (unat to) (unat a)" and
    no: "a = to \<Longrightarrow> \<forall>c. \<not> placed (live (bm_memory bm)) (live (bm_reserved bm)) (unat align) (unat sz)
      (unat from) (unat to) c"
    using boot_mem_find_total [OF assms, of "from"] unfolding Let_def by meson
  show ?thesis
  proof (cases "a = to")
    case True
    with a assms(1) no show ?thesis by (auto simp: boot_mem_alloc_def)
  next
    case False
    obtain rc bm' where r: "boot_mem_reserve bm a (a + sz) = (rc, bm')" by fastforce
    note ex = boot_mem_reserve_result [OF assms(1) r]
    show ?thesis
    proof (cases "rc = 0")
      case True
      then show ?thesis using a r ex False p [OF False] by (auto simp: boot_mem_alloc_def)
    next
      case rc: False
      then have "boot_mem_alloc bm sz align from to = Some (to, bm)"
        using a r ex False by (simp add: boot_mem_alloc_def)
      then show ?thesis using assms(1) ex rc by auto
    qed
  qed
qed

text \<open>
  C11: under the same conditions \<open>boot_mem_alloc\<close> returns \<open>to\<close> and changes nothing, which it does only
  when there is no such place or the array of reserved ranges is full, or returns an aligned block that lies in memory, inside the window, in nothing reserved, and reserves exactly
  that block; the invariant is kept.
\<close>

theorem boot_mem_alloc_reserves:
  assumes "boot_mem_inv bm" and "separated (live (bm_memory bm))"
    and "is_pow2 align" and "0 < sz" and "unat to + unat align + unat sz \<le> 2 ^ 32"
  shows "\<exists>a bm'. boot_mem_alloc bm sz align from to = Some (a, bm') \<and>
    boot_mem_inv bm' \<and> bm_memory bm' = bm_memory bm \<and>
    (if a = to then bm' = bm \<and> (bm_size (bm_reserved bm) = bm_capacity (bm_reserved bm) \<or>
       (\<forall>c. \<not> placed (live (bm_memory bm)) (live (bm_reserved bm)) (unat align) (unat sz)
         (unat from) (unat to) c))
     else placed (live (bm_memory bm)) (live (bm_reserved bm)) (unat align) (unat sz)
            (unat from) (unat to) (unat a) \<and>
          covers (live (bm_reserved bm')) = covers (live (bm_reserved bm)) \<union> {a..<a + sz})"
  by (rule boot_mem_alloc_total [OF assms])

theorem boot_mem_alloc_reserves_witness:
  "\<exists>a bm'. boot_mem_alloc sample_bootmem 0x1000 0x1000 0x800 0x8000 = Some (a, bm') \<and>
     boot_mem_inv bm'"
  using boot_mem_alloc_reserves [OF sample_bootmem_inv is_pow2_4096, of "0x1000" "0x8000" "0x800"]
  by auto

text \<open>
  Two blocks obtained one after the other never overlap, whatever their sizes, alignments and
  windows.
\<close>

lemma boot_mem_allocs_disjoint:
  assumes inv: "boot_mem_inv bm" "separated (live (bm_memory bm))"
    and one: "is_pow2 al" "0 < n" "unat to + unat al + unat n \<le> 2 ^ 32"
      "boot_mem_alloc bm n al from to = Some (a, bm1)" "a \<noteq> to"
    and two: "is_pow2 al'" "0 < n'" "unat to' + unat al' + unat n' \<le> 2 ^ 32"
      "boot_mem_alloc bm1 n' al' from' to' = Some (a', bm2)" "a' \<noteq> to'"
  shows "{a..<a + n} \<inter> {a'..<a' + n'} = {}"
proof -
  from boot_mem_alloc_total [OF inv one(1-3), of "from"] one(4,5)
  have b1: "boot_mem_inv bm1" "bm_memory bm1 = bm_memory bm" "{a..<a + n} \<subseteq> covers (live (bm_reserved bm1))"
    by auto
  have "separated (live (bm_memory bm1))" using inv(2) b1(2) by simp
  from boot_mem_alloc_total [OF b1(1) this two(1-3), of from'] two(4,5)
  have "clear (live (bm_reserved bm1)) (unat a') (unat n')" "unat a' + unat n' \<le> unat to'"
    by (auto simp: placed_def)
  moreover from this(2) have "unat a' + unat n' < 2 ^ 32"
    by (rule le_less_trans) simp
  ultimately have "covers (live (bm_reserved bm1)) \<inter> {a'..<a' + n'} = {}"
    by (intro clear_disjoint)
  with b1(3) show ?thesis by blast
qed

text \<open>
  \<open>boot_mem_is_free\<close> compares the address found with 0, where a failed search yields the end of
  the range. So it answers yes for every range that does not start at address 0, free or not.
\<close>

lemma boot_mem_is_free_always:
  assumes "boot_mem_inv bm" and "separated (live (bm_memory bm))"
    and "0 < b" and "b < e" and "unat e + 1 + unat (e - b) \<le> 2 ^ 32"
  shows "boot_mem_is_free bm b e = Some True"
proof -
  have sz: "0 < e - b" using assms(4) by (simp add: word_less_nat_alt unat_minus_no_wrap less_imp_le)
  obtain a where a: "boot_mem_find bm (e - b) 1 b e = Some a"
    "a \<noteq> e \<Longrightarrow> placed (live (bm_memory bm)) (live (bm_reserved bm)) (unat (1::u32)) (unat (e - b))
      (unat b) (unat e) (unat a)"
    using boot_mem_find_total [OF assms(1,2) is_pow2_1 sz, of e b] assms(5) unfolding Let_def
    by (metis unsigned_1)
  have "0 < unat b" "0 < unat e" using assms(3,4) by (auto simp: word_less_nat_alt)
  then have "a \<noteq> 0" using a(2) by (cases "a = e") (auto simp: placed_def)
  then show ?thesis using a(1) by (simp add: boot_mem_is_free_def)
qed

lemma boot_mem_is_free_always_witness:
  "boot_mem_is_free sample_bootmem 0x1000 0x2000 = Some True"
  using boot_mem_is_free_always [OF sample_bootmem_inv, of "0x1000" "0x2000"] by simp

end
