(* ===== verification/Bootmem_History.thy ===== *)
theory Bootmem_History
  imports Bootmem
begin

text \<open>
  Any sequence of calls of the boot allocator: a view of it by sets of addresses and a list of blocks,
  the steps of its clients on both, and the representation of the view by the arrays, which every step
  keeps.
\<close>

subsection \<open>Calls and what a client knows\<close>

text \<open>
  What a client knows of the allocator: the addresses it added and reserved, and the blocks it got. A
  call of \<open>boot_mem_add\<close> brings new memory, a call of \<open>boot_mem_alloc\<close> has an alignment that is a power
  of two and a window that does not reach the end of the address space.
\<close>

record boot_view =
  bv_memory :: "u32 set"
  bv_reserved :: "u32 set"
  bv_blocks :: "(u32 \<times> u32) list"

datatype boot_call = Add_memory u32 u32 | Reserve u32 u32 | Alloc u32 u32 u32 u32

fun boot_legal :: "boot_view \<Rightarrow> boot_call \<Rightarrow> bool" where
  "boot_legal v (Add_memory b e) \<longleftrightarrow> bv_memory v \<inter> {b..<e} = {}"
| "boot_legal v (Reserve b e) \<longleftrightarrow> True"
| "boot_legal v (Alloc n al from to) \<longleftrightarrow> is_pow2 al \<and> 0 < n \<and> unat to + unat al + unat n \<le> 2 ^ 32"

inductive boot_step :: "boot_mem \<times> boot_view \<Rightarrow> boot_call \<Rightarrow> boot_mem \<times> boot_view \<Rightarrow> bool" where
  "boot_mem_add bm b e = (0, bm') \<Longrightarrow>
    boot_step (bm, v) (Add_memory b e) (bm', v\<lparr>bv_memory := bv_memory v \<union> {b..<e}\<rparr>)"
| "boot_mem_add bm b e = (rc, bm') \<Longrightarrow> rc \<noteq> 0 \<Longrightarrow> boot_step (bm, v) (Add_memory b e) (bm', v)"
| "boot_mem_reserve bm b e = (0, bm') \<Longrightarrow>
    boot_step (bm, v) (Reserve b e) (bm', v\<lparr>bv_reserved := bv_reserved v \<union> {b..<e}\<rparr>)"
| "boot_mem_reserve bm b e = (rc, bm') \<Longrightarrow> rc \<noteq> 0 \<Longrightarrow> boot_step (bm, v) (Reserve b e) (bm', v)"
| "boot_mem_alloc bm n al from to = Some (a, bm') \<Longrightarrow> a \<noteq> to \<Longrightarrow>
    boot_step (bm, v) (Alloc n al from to)
      (bm', v\<lparr>bv_reserved := bv_reserved v \<union> {a..<a + n}, bv_blocks := (a, n) # bv_blocks v\<rparr>)"
| "boot_mem_alloc bm n al from to = Some (to, bm') \<Longrightarrow> boot_step (bm, v) (Alloc n al from to) (bm', v)"

inductive_cases boot_stepE: "boot_step (bm, v) c (bm', v')"

inductive boot_runs :: "boot_mem \<times> boot_view \<Rightarrow> boot_call list \<Rightarrow> boot_mem \<times> boot_view \<Rightarrow> bool" where
  boot_runs_Nil: "boot_runs s [] s"
| boot_runs_Cons: "boot_legal (snd s) c \<Longrightarrow> boot_step s c s1 \<Longrightarrow> boot_runs s1 cs s2 \<Longrightarrow> boot_runs s (c # cs) s2"

definition boot_start :: "boot_mem \<times> boot_view" where
  "boot_start = (boot_mem_init, \<lparr>bv_memory = {}, bv_reserved = {}, bv_blocks = []\<rparr>)"

definition block_addrs :: "u32 \<times> u32 \<Rightarrow> u32 set" where
  "block_addrs b = {fst b ..< fst b + snd b}"

subsection \<open>The arrays stand for the view\<close>

text \<open>The arrays stand for the view, and its blocks are apart and in use.\<close>

definition boot_repr :: "boot_mem \<times> boot_view \<Rightarrow> bool" where
  "boot_repr = (\<lambda>(bm, v). boot_mem_inv bm \<and> separated (live (bm_memory bm)) \<and>
     covers (live (bm_memory bm)) = bv_memory v \<and> covers (live (bm_reserved bm)) = bv_reserved v \<and>
     (\<forall>b \<in> set (bv_blocks v). block_addrs b \<subseteq> bv_memory v \<inter> bv_reserved v) \<and>
     sorted_wrt (\<lambda>b b'. block_addrs b \<inter> block_addrs b' = {}) (bv_blocks v))"

lemma boot_repr_start: "boot_repr boot_start"
  using boot_mem_inv_init
  by (simp add: boot_repr_def boot_start_def boot_mem_init_def empty_type_def live_def separated_def covers_def)

lemma placed_block:
  assumes "placed mem res al (unat n) lo hi (unat a)" and "hi < 2 ^ 32"
  shows "block_addrs (a, n) \<subseteq> covers mem" and "block_addrs (a, n) \<inter> covers res = {}"
proof -
  from assms obtain r where r: "r \<in> set mem" "unat (rg_begin r) \<le> unat a" "unat a + unat n \<le> unat (rg_end r)"
    and cl: "clear res (unat a) (unat n)" and hi: "unat a + unat n < 2 ^ 32" by (auto simp: placed_def)
  have "unat (a + n) = unat a + unat n" by (rule unat_plus_no_wrap) (use hi in simp)
  then have "{a ..< a + n} \<subseteq> range_addrs r" using r(2,3)
    by (auto simp: range_addrs_def word_le_nat_alt word_less_nat_alt)
  with r(1) show "block_addrs (a, n) \<subseteq> covers mem" by (auto simp: block_addrs_def covers_def)
  show "block_addrs (a, n) \<inter> covers res = {}" using clear_disjoint [OF cl hi] by (auto simp: block_addrs_def)
qed

lemma boot_step_repr:
  assumes "boot_step (bm, v) c (bm', v')" and "boot_legal v c" and "boot_repr (bm, v)"
  shows "boot_repr (bm', v')"
proof -
  have r: "boot_mem_inv bm" "separated (live (bm_memory bm))" "covers (live (bm_memory bm)) = bv_memory v"
    "covers (live (bm_reserved bm)) = bv_reserved v"
    "\<forall>b \<in> set (bv_blocks v). block_addrs b \<subseteq> bv_memory v \<inter> bv_reserved v"
    "sorted_wrt (\<lambda>b b'. block_addrs b \<inter> block_addrs b' = {}) (bv_blocks v)"
    using assms(3) by (simp_all add: boot_repr_def)
  show ?thesis using assms(1)
  proof (rule boot_stepE)
    fix b e assume "c = Add_memory b e" "boot_mem_add bm b e = (0, bm')" "v' = v\<lparr>bv_memory := bv_memory v \<union> {b..<e}\<rparr>"
    with boot_mem_add_keeps_disjoint [OF r(1,2), of b e 0 bm'] assms(2) r show ?thesis by (auto simp: boot_repr_def)
  next
    fix b e rc assume "c = Add_memory b e" "v' = v" "boot_mem_add bm b e = (rc, bm')" "rc \<noteq> 0"
    with boot_mem_add_keeps_disjoint [OF r(1,2), of b e rc bm'] assms(2) r show ?thesis by (auto simp: boot_repr_def)
  next
    fix b e assume "boot_mem_reserve bm b e = (0, bm')" "v' = v\<lparr>bv_reserved := bv_reserved v \<union> {b..<e}\<rparr>"
    with boot_mem_reserve_result [OF r(1), of b e 0 bm'] r show ?thesis by (auto simp: boot_repr_def)
  next
    fix b e rc assume "v' = v" "boot_mem_reserve bm b e = (rc, bm')" "rc \<noteq> 0"
    with boot_mem_reserve_result [OF r(1), of b e rc bm'] r show ?thesis by (auto simp: boot_repr_def)
  next
    fix n al "from" to a
    assume c: "c = Alloc n al from to" "boot_mem_alloc bm n al from to = Some (a, bm')" "a \<noteq> to"
      and v': "v' = v\<lparr>bv_reserved := bv_reserved v \<union> {a..<a + n}, bv_blocks := (a, n) # bv_blocks v\<rparr>"
    from assms(2) c(1) have legal: "is_pow2 al" "0 < n" "unat to + unat al + unat n \<le> 2 ^ 32" by simp_all
    from boot_mem_alloc_total [OF r(1,2) legal, of "from"] c(2,3)
    have p: "boot_mem_inv bm'" "bm_memory bm' = bm_memory bm"
      "placed (live (bm_memory bm)) (live (bm_reserved bm)) (unat al) (unat n) (unat from) (unat to) (unat a)"
      "covers (live (bm_reserved bm')) = covers (live (bm_reserved bm)) \<union> {a..<a + n}" by auto
    have "unat to < 2 ^ 32" by simp
    note blk = placed_block [OF p(3) this]
    have "block_addrs (a, n) = {a..<a + n}" by (simp add: block_addrs_def)
    moreover have "block_addrs (a, n) \<inter> block_addrs b = {}" if "b \<in> set (bv_blocks v)" for b
      using blk(2) r(4,5) that by blast
    ultimately show ?thesis using blk r p(1,2,4) v' by (auto simp: boot_repr_def)
  next
    fix n al "from" to
    assume c: "c = Alloc n al from to" "v' = v" "boot_mem_alloc bm n al from to = Some (to, bm')"
    from assms(2) c(1) have legal: "is_pow2 al" "0 < n" "unat to + unat al + unat n \<le> 2 ^ 32" by simp_all
    from boot_mem_alloc_total [OF r(1,2) legal, of "from"] c(3) have "bm' = bm" by auto
    with c(2) assms(3) show ?thesis by simp
  qed
qed

lemma boot_runs_repr: "\<lbrakk>boot_runs s cs s'; boot_repr s\<rbrakk> \<Longrightarrow> boot_repr s'"
proof (induction rule: boot_runs.induct)
  case (boot_runs_Cons s c s1 cs s2)
  then show ?case using boot_step_repr [of "fst s" "snd s" c "fst s1" "snd s1"] by simp
qed

lemma boot_step_exists:
  assumes "boot_repr (bm, v)" and "boot_legal v c"
  shows "\<exists>s'. boot_step (bm, v) c s'"
proof (cases c)
  case (Add_memory b e)
  obtain rc bm' where "boot_mem_add bm b e = (rc, bm')" by fastforce
  with Add_memory show ?thesis by (cases "rc = 0") (auto intro: boot_step.intros)
next
  case (Reserve b e)
  obtain rc bm' where "boot_mem_reserve bm b e = (rc, bm')" by fastforce
  with Reserve show ?thesis by (cases "rc = 0") (auto intro: boot_step.intros)
next
  case (Alloc n al "from" to)
  with assms have "\<exists>a bm'. boot_mem_alloc bm n al from to = Some (a, bm')"
    using boot_mem_alloc_total [of bm al n to "from"] by (auto simp: boot_repr_def)
  then obtain a bm' where "boot_mem_alloc bm n al from to = Some (a, bm')" by blast
  with Alloc show ?thesis by (cases "a = to") (auto intro: boot_step.intros)
qed

subsection \<open>Properties\<close>

text \<open>
  C12: over any sequence of legal calls from the static data on, the arrays stay well formed and in
  order, they stand for exactly the memory that was added and the addresses that were reserved or
  handed out, and the blocks handed out are apart from each other and lie in that memory. No legal
  call fails to return.
\<close>

theorem boot_mem_history:
  assumes "boot_runs boot_start cs (bm, v)"
  shows "boot_mem_inv bm \<and> separated (live (bm_memory bm)) \<and>
    covers (live (bm_memory bm)) = bv_memory v \<and> covers (live (bm_reserved bm)) = bv_reserved v \<and>
    (\<forall>b \<in> set (bv_blocks v). block_addrs b \<subseteq> bv_memory v \<inter> bv_reserved v) \<and>
    sorted_wrt (\<lambda>b b'. block_addrs b \<inter> block_addrs b' = {}) (bv_blocks v) \<and>
    (\<forall>c. boot_legal v c \<longrightarrow> (\<exists>s. boot_step (bm, v) c s))"
  using boot_runs_repr [OF assms boot_repr_start] boot_step_exists [of bm v] by (simp add: boot_repr_def)

theorem boot_mem_history_witness:
  "\<exists>bm v. boot_runs boot_start [Add_memory 0 0x100000, Alloc 0x1000 0x1000 0x1000 0x8000] (bm, v) \<and>
    boot_mem_inv bm \<and> (\<forall>b \<in> set (bv_blocks v). block_addrs b \<subseteq> bv_memory v)"
proof -
  obtain bm0 v0 where s0: "boot_start = (bm0, v0)" by fastforce
  have l1: "boot_legal v0 (Add_memory 0 0x100000)" using s0 by (auto simp: boot_start_def)
  obtain bm1 v1 where s1: "boot_step (bm0, v0) (Add_memory 0 0x100000) (bm1, v1)"
    using boot_step_exists [OF boot_repr_start [unfolded s0] l1] by auto
  have l2: "boot_legal v1 (Alloc 0x1000 0x1000 0x1000 0x8000)" using is_pow2_4096 by simp
  obtain bm v where s2: "boot_step (bm1, v1) (Alloc 0x1000 0x1000 0x1000 0x8000) (bm, v)"
    using boot_step_exists [OF boot_step_repr [OF s1 l1 boot_repr_start [unfolded s0]] l2] by auto
  have "boot_runs boot_start [Add_memory 0 0x100000, Alloc 0x1000 0x1000 0x1000 0x8000] (bm, v)"
    unfolding s0 using s1 s2 l1 l2
    by (intro boot_runs_Cons [OF _ s1] boot_runs_Cons [OF _ s2] boot_runs_Nil) simp_all
  with boot_mem_history [OF this] show ?thesis by blast
qed

end
