(* ===== verification/Page_Blocks.thy ===== *)
theory Page_Blocks
  imports Kernel
begin

text \<open>
  The block structure behind \<open>kernel/page_alloc.c\<close>: a block is the number of its first page frame
  and its order, it holds \<open>2 ^ order\<close> frames and starts at a multiple of that. \<open>buddy_pfn\<close> is the
  code's; the rest is the vocabulary of the allocator's invariant. A zone is tiled by its blocks,
  and a tiling stays one when two buddies are merged or a block is split into buddies.
\<close>

definition MAX_ORDER :: nat where
  "MAX_ORDER = 11"

definition buddy_pfn :: "u32 \<Rightarrow> nat \<Rightarrow> u32" where
  "buddy_pfn pfn order = pfn XOR push_bit order 1"

subsection \<open>Buddies\<close>

definition aligned :: "u32 \<Rightarrow> nat \<Rightarrow> bool" where
  "aligned p k \<longleftrightarrow> 2 ^ k dvd unat p"

lemma buddy_pfn_flip: "buddy_pfn p k = flip_bit k p"
  by (simp add: buddy_pfn_def flip_bit_eq_xor)

lemma buddy_pfn_invol [simp]: "buddy_pfn (buddy_pfn p k) k = p"
  by (simp add: buddy_pfn_def xor.assoc)

lemma bit_iff_odd_div: "bit (p :: u32) k \<longleftrightarrow> odd (unat p div 2 ^ k)"
proof -
  have "bit p k \<longleftrightarrow> bit (unat p) k"
    by (auto simp: bit_unsigned_iff dest: bit_imp_le_length)
  then show ?thesis by (simp only: bit_iff_odd [of "unat p"])
qed

lemma unat_2p: "k < 32 \<Longrightarrow> unat (2 ^ k :: u32) = 2 ^ k"
  using unsigned_push_bit_eq [of k "1 :: u32", where 'a = nat]
  by (simp add: take_bit_nat_eq_self_iff)

lemma unat_buddy:
  assumes "aligned p k" and "k < 32"
  shows "unat (buddy_pfn p k) =
    (if odd (unat p div 2 ^ k) then unat p - 2 ^ k else unat p + 2 ^ k)"
proof (cases "odd (unat p div 2 ^ k)")
  case True
  then have "bit p k" by (simp add: bit_iff_odd_div)
  then have b: "buddy_pfn p k = p - 2 ^ k"
    by (simp add: buddy_pfn_flip flip_bit_eq_if unset_bit_eq)
  have "2 ^ k \<le> unat p" using True by (metis div_less even_zero not_less)
  then have "2 ^ k \<le> p" using assms(2) by (simp add: word_le_nat_alt unat_2p)
  with b True assms(2) show ?thesis by (simp add: unat_minus_no_wrap unat_2p)
next
  case False
  then have "\<not> bit p k" by (simp add: bit_iff_odd_div)
  then have b: "buddy_pfn p k = p + 2 ^ k"
    by (simp add: buddy_pfn_flip flip_bit_eq_if set_bit_eq)
  obtain q where q: "unat p = 2 ^ k * q" using assms(1) by (auto simp: aligned_def)
  then have ev: "even q" using False by simp
  have two: "(2::nat) ^ 32 = 2 ^ k * 2 ^ (32 - k)" using assms(2) by (simp flip: power_add)
  have "2 ^ k * q < 2 ^ k * 2 ^ (32 - k)" using q two unat_lt_2p32 [of p] by simp
  then have "q < 2 ^ (32 - k)" by simp
  moreover have "even ((2::nat) ^ (32 - k))" using assms(2) by simp
  ultimately have "q + 1 < 2 ^ (32 - k)" using ev by (metis Suc_eq_plus1 Suc_lessI even_Suc)
  then have "2 ^ k * (q + 1) < 2 ^ k * 2 ^ (32 - k)" by (rule mult_strict_left_mono) simp
  then have "unat p + 2 ^ k < 2 ^ 32" using q two by (simp add: algebra_simps)
  with b False assms(2) show ?thesis by (simp add: unat_plus_no_wrap unat_2p)
qed

lemma aligned_buddy:
  assumes "aligned p k" and "k < 32"
  shows "aligned (buddy_pfn p k) k"
proof -
  have "2 ^ k dvd unat p" using assms(1) by (simp add: aligned_def)
  then have "2 ^ k dvd unat p - 2 ^ k" "2 ^ k dvd unat p + 2 ^ k" by simp_all
  then show ?thesis unfolding aligned_def unat_buddy [OF assms] by simp
qed

lemma buddy_neq:
  assumes "k < 32"
  shows "buddy_pfn p k \<noteq> p"
proof
  assume "buddy_pfn p k = p"
  then have "bit (flip_bit k p) k = bit p k" by (simp add: buddy_pfn_flip)
  with assms show False by (simp add: bit_flip_bit_iff possible_bit_word)
qed

subsection \<open>Frames of a block\<close>

definition span :: "u32 \<times> nat \<Rightarrow> nat set" where
  "span b = {unat (fst b) ..< unat (fst b) + 2 ^ snd b}"

lemma span_head [simp]: "unat p \<in> span (p, k)"
  by (simp add: span_def)

lemma span_0 [simp]: "span (p, 0) = {unat p}"
  by (auto simp: span_def)

lemma span_div:
  assumes "aligned p k"
  shows "x \<in> span (p, k) \<longleftrightarrow> x div 2 ^ k = unat p div 2 ^ k"
proof -
  obtain q where q: "unat p = q * 2 ^ k" using assms by (auto simp: aligned_def mult.commute)
  have "x div 2 ^ k = q \<longleftrightarrow> q * 2 ^ k \<le> x \<and> x < Suc q * 2 ^ k"
    by (metis div_nat_eqI div_times_less_eq_dividend dividend_less_div_times mult.commute mult_Suc
        zero_less_numeral zero_less_power add.commute)
  then show ?thesis by (auto simp: span_def q)
qed

lemma div_pow2_coarser:
  assumes "j \<le> k" and "x div 2 ^ j = y div (2::nat) ^ j"
  shows "x div 2 ^ k = y div 2 ^ k"
proof -
  have "x div 2 ^ k = x div 2 ^ j div 2 ^ (k - j)" for x :: nat
    using assms(1) by (simp flip: div_mult2_eq power_add)
  with assms(2) show ?thesis by simp
qed

text \<open>Two aligned blocks that meet are nested.\<close>

lemma span_nested:
  assumes "aligned p j" and "aligned q k" and "j \<le> k" and "span (p, j) \<inter> span (q, k) \<noteq> {}"
  shows "span (p, j) \<subseteq> span (q, k)"
proof
  fix y assume "y \<in> span (p, j)"
  from assms(4) obtain x where "x \<in> span (p, j)" "x \<in> span (q, k)" by blast
  with \<open>y \<in> _\<close> have "y div 2 ^ j = x div 2 ^ j" "x div 2 ^ k = unat q div 2 ^ k"
    using assms(1,2) by (simp_all add: span_div)
  with div_pow2_coarser [OF assms(3), of y x] show "y \<in> span (q, k)"
    using assms(2) by (simp add: span_div)
qed

lemma aligned_coarser: "aligned p k \<Longrightarrow> j \<le> k \<Longrightarrow> aligned p j"
  unfolding aligned_def by (meson dvd_trans le_imp_power_dvd)

lemma aligned_heads_eq:
  assumes "aligned p k" and "aligned q k" and "span (p, k) \<inter> span (q, k) \<noteq> {}"
  shows "p = q"
proof -
  have "unat p div 2 ^ k = unat q div 2 ^ k" using assms by (auto simp: span_div)
  moreover have "unat p div 2 ^ k * 2 ^ k = unat p" "unat q div 2 ^ k * 2 ^ k = unat q"
    using assms(1,2) by (simp_all add: aligned_def)
  ultimately show ?thesis by (metis word_unat_eq_iff)
qed

text \<open>The halves of a block are buddies, and two buddies are the halves of a block.\<close>

lemma span_halves:
  assumes "aligned p (Suc k)" and "k < 32"
  shows "span (p, Suc k) = span (p, k) \<union> span (buddy_pfn p k, k)"
    and "unat (buddy_pfn p k) = unat p + 2 ^ k"
    and "span (p, k) \<inter> span (buddy_pfn p k, k) = {}"
proof -
  have a: "aligned p k" using assms(1) by (rule aligned_coarser) simp
  obtain q where "unat p = 2 ^ Suc k * q" using assms(1) by (auto simp: aligned_def)
  then have "unat p div 2 ^ k = 2 * q" by simp
  then show b: "unat (buddy_pfn p k) = unat p + 2 ^ k"
    using unat_buddy [OF a assms(2)] by simp
  show "span (p, Suc k) = span (p, k) \<union> span (buddy_pfn p k, k)"
    by (auto simp: span_def b)
  show "span (p, k) \<inter> span (buddy_pfn p k, k) = {}"
    by (auto simp: span_def b)
qed

lemma aligned_pair:
  assumes "aligned p k" and "Suc k < 32"
  shows "aligned (min p (buddy_pfn p k)) (Suc k)"
    and "buddy_pfn (min p (buddy_pfn p k)) k = max p (buddy_pfn p k)"
proof -
  let ?b = "buddy_pfn p k"
  obtain q where q: "unat p = 2 ^ k * q" using assms(1) by (auto simp: aligned_def)
  have u: "unat ?b = (if odd q then unat p - 2 ^ k else unat p + 2 ^ k)"
    using unat_buddy [OF assms(1)] assms(2) q by simp
  show "aligned (min p ?b) (Suc k)"
  proof (cases "odd q")
    case True
    then have "2 ^ k \<le> unat p" using q by (cases q) auto
    with True u have "?b \<le> p" "unat ?b = 2 ^ k * (q - 1)"
      using q by (simp_all add: word_le_nat_alt algebra_simps)
    moreover have "even (q - 1)" using True by simp
    ultimately show ?thesis by (auto simp: aligned_def min_def elim!: evenE)
  next
    case False
    with u have "p \<le> ?b" by (simp add: word_le_nat_alt)
    with False q show ?thesis by (auto simp: aligned_def min_def elim!: evenE)
  qed
  show "buddy_pfn (min p ?b) k = max p ?b" by (auto simp: min_def max_def)
qed

subsection \<open>Tilings\<close>

definition blocks_ok :: "(u32 \<times> nat) set \<Rightarrow> bool" where
  "blocks_ok T \<longleftrightarrow> (\<forall>(p, k) \<in> T. aligned p k \<and> k < MAX_ORDER) \<and>
     (\<forall>b\<in>T. \<forall>b'\<in>T. b \<noteq> b' \<longrightarrow> span b \<inter> span b' = {})"

definition tiling :: "nat set \<Rightarrow> (u32 \<times> nat) set \<Rightarrow> bool" where
  "tiling U T \<longleftrightarrow> blocks_ok T \<and> \<Union>(span ` T) = U"

lemma max_order_32: "k < MAX_ORDER \<Longrightarrow> k < 31"
  by (simp add: MAX_ORDER_def)

lemma blocks_okD:
  assumes "blocks_ok T" and "(p, k) \<in> T"
  shows "aligned p k" and "k < MAX_ORDER" and "k < 31"
  using assms max_order_32 [of k] by (auto simp: blocks_ok_def)

lemma blocks_ok_disjoint:
  "blocks_ok T \<Longrightarrow> b \<in> T \<Longrightarrow> b' \<in> T \<Longrightarrow> span b \<inter> span b' \<noteq> {} \<Longrightarrow> b = b'"
  unfolding blocks_ok_def by blast

lemma blocks_ok_head:
  assumes "blocks_ok T" and "(p, j) \<in> T" and "(p, k) \<in> T"
  shows "j = k"
proof -
  have "span (p, j) \<inter> span (p, k) \<noteq> {}" using span_head [of p j] span_head [of p k] by blast
  from blocks_ok_disjoint [OF assms this] show ?thesis by simp
qed

lemma blocks_ok_subset: "blocks_ok T \<Longrightarrow> S \<subseteq> T \<Longrightarrow> blocks_ok S"
  unfolding blocks_ok_def by blast

text \<open>Exchanging some blocks for others that hold the same frames keeps a tiling.\<close>

lemma tiling_exchange:
  assumes "tiling U (A \<union> R)" and "blocks_ok B" and "A \<inter> R = {}"
    and "\<Union>(span ` B) = \<Union>(span ` R)"
  shows "tiling U (A \<union> B)"
proof -
  have ok: "blocks_ok (A \<union> R)" and U: "\<Union>(span ` (A \<union> R)) = U" using assms(1) by (simp_all add: tiling_def)
  have sep: "span a \<inter> span b = {}" if "a \<in> A" "b \<in> B" for a b
  proof -
    have "span a \<inter> span r = {}" if "r \<in> R" for r
      using blocks_ok_disjoint [OF ok, of a r] \<open>a \<in> A\<close> that assms(3) by blast
    moreover have "span b \<subseteq> \<Union>(span ` R)" using assms(4) that(2) by blast
    ultimately show ?thesis by blast
  qed
  have "blocks_ok (A \<union> B)"
    unfolding blocks_ok_def
  proof (intro conjI ballI impI)
    show "case x of (p, k) \<Rightarrow> aligned p k \<and> k < MAX_ORDER" if "x \<in> A \<union> B" for x
      using that ok assms(2) unfolding blocks_ok_def by blast
    show "span b \<inter> span b' = {}" if "b \<in> A \<union> B" "b' \<in> A \<union> B" "b \<noteq> b'" for b b'
      using that sep [of b b'] sep [of b' b] blocks_ok_disjoint [OF ok, of b b']
        blocks_ok_disjoint [OF assms(2), of b b'] by blast
  qed
  moreover have "\<Union>(span ` (A \<union> B)) = U" using U assms(4) by (simp add: image_Un)
  ultimately show ?thesis by (simp add: tiling_def)
qed

lemma blocks_ok_one: "aligned p k \<Longrightarrow> k < MAX_ORDER \<Longrightarrow> blocks_ok {(p, k)}"
  by (simp add: blocks_ok_def)

lemma blocks_ok_halves:
  assumes "aligned p (Suc k)" and "k < MAX_ORDER"
  shows "blocks_ok {(p, k), (buddy_pfn p k, k)}"
proof -
  have k: "k < 32" using max_order_32 [OF assms(2)] by simp
  have a: "aligned p k" using assms(1) by (rule aligned_coarser) simp
  show ?thesis
    using a aligned_buddy [OF a k] assms(2) span_halves(3) [OF assms(1) k]
    by (auto simp: blocks_ok_def)
qed

lemma tiling_split:
  assumes "tiling U (insert (p, Suc k) T)" and "(p, Suc k) \<notin> T"
  shows "tiling U (insert (p, k) (insert (buddy_pfn p k, k) T))"
proof -
  have a: "aligned p (Suc k)" "Suc k < MAX_ORDER"
    using assms(1) blocks_okD [of _ p "Suc k"] unfolding tiling_def by auto
  then have k: "k < MAX_ORDER" "k < 32" using max_order_32 [of "Suc k"] by simp_all
  have "tiling U (T \<union> {(p, k), (buddy_pfn p k, k)})"
    by (rule tiling_exchange [where R = "{(p, Suc k)}"])
      (use assms blocks_ok_halves [OF a(1) k(1)] span_halves [OF a(1) k(2)] in \<open>auto simp: insert_commute\<close>)
  then show ?thesis by (simp add: insert_commute Un_commute)
qed

lemma tiling_merge:
  assumes "tiling U (insert (p, k) (insert (buddy_pfn p k, k) T))" and "Suc k < MAX_ORDER"
    and "(p, k) \<notin> T" and "(buddy_pfn p k, k) \<notin> T"
  shows "tiling U (insert (min p (buddy_pfn p k), Suc k) T)"
proof -
  let ?b = "buddy_pfn p k" and ?m = "min p (buddy_pfn p k)"
  have k: "Suc k < 32" using max_order_32 [OF assms(2)] by simp
  have "aligned p k" using assms(1) blocks_okD [of _ p k] unfolding tiling_def by auto
  from aligned_pair [OF this k] have m: "aligned ?m (Suc k)" "buddy_pfn ?m k = max p ?b" by simp_all
  have two: "{(?m, k), (max p ?b, k)} = {(p, k), (?b, k)}" by (auto simp: min_def max_def)
  have "span (?m, Suc k) = \<Union>(span ` {(?m, k), (max p ?b, k)})"
    using span_halves(1) [OF m(1)] k by (simp add: m(2))
  then have un: "\<Union>(span ` {(?m, Suc k)}) = \<Union>(span ` {(p, k), (?b, k)})" unfolding two by simp
  have "insert (p, k) (insert (?b, k) T) = T \<union> {(p, k), (?b, k)}" by blast
  then have t: "tiling U (T \<union> {(p, k), (?b, k)})" using assms(1) by simp
  have "T \<inter> {(p, k), (?b, k)} = {}" using assms(3,4) by blast
  from tiling_exchange [OF t blocks_ok_one [OF m(1) assms(2)] this un] show ?thesis by simp
qed

text \<open>The buddy of a block's head inside the tiled frames is the head of a block no larger.\<close>

lemma buddy_is_head:
  assumes "tiling U T" and "(p, k) \<in> T" and "unat (buddy_pfn p k) \<in> U" and "Suc k < MAX_ORDER"
  obtains j where "j \<le> k" and "(buddy_pfn p k, j) \<in> T"
proof -
  let ?b = "buddy_pfn p k"
  have ok: "blocks_ok T" and U: "\<Union>(span ` T) = U" using assms(1) by (simp_all add: tiling_def)
  have k: "Suc k < 32" using max_order_32 [OF assms(4)] by simp
  have p: "aligned p k" using blocks_okD [OF ok assms(2)] by simp
  from assms(3) U obtain q j where q: "(q, j) \<in> T" "unat ?b \<in> span (q, j)" by auto
  have qa: "aligned q j" using blocks_okD [OF ok q(1)] by simp
  have ab: "aligned ?b k" using aligned_buddy [OF p] k by simp
  have "j \<le> k"
  proof (rule ccontr)
    assume "\<not> j \<le> k"
    then have "Suc k \<le> j" by simp
    have m: "aligned (min p ?b) (Suc k)" "buddy_pfn (min p ?b) k = max p ?b"
      by (rule aligned_pair [OF p k])+
    have sp: "span (min p ?b, Suc k) = span (p, k) \<union> span (?b, k)"
      using span_halves(1) [OF m(1)] k unfolding m(2) by (auto simp: min_def max_def)
    then have "unat ?b \<in> span (min p ?b, Suc k)" by simp
    then have "span (min p ?b, Suc k) \<inter> span (q, j) \<noteq> {}" using q(2) by blast
    then have "span (min p ?b, Suc k) \<subseteq> span (q, j)"
      using span_nested [OF m(1) qa \<open>Suc k \<le> j\<close>] by simp
    with sp have "unat p \<in> span (q, j)" by auto
    then have "span (p, k) \<inter> span (q, j) \<noteq> {}" using span_head by blast
    from blocks_ok_disjoint [OF ok assms(2) q(1) this] \<open>\<not> j \<le> k\<close> show False by simp
  qed
  moreover have "?b = q"
    by (rule aligned_heads_eq [OF aligned_coarser [OF ab \<open>j \<le> k\<close>] qa])
      (use q(2) span_head [of ?b j] in blast)
  ultimately show thesis using that q(1) by simp
qed

subsection \<open>Coalesced blocks\<close>

definition coalesced :: "(u32 \<times> nat) set \<Rightarrow> bool" where
  "coalesced B \<longleftrightarrow> (\<forall>(p, k) \<in> B. Suc k < MAX_ORDER \<longrightarrow> (buddy_pfn p k, k) \<notin> B)"

text \<open>When no two buddies are left, every aligned run of the blocks' frames lies in one block.\<close>

lemma run_in_block:
  assumes ok: "blocks_ok B" and c: "coalesced B"
  shows "aligned r k \<Longrightarrow> k < MAX_ORDER \<Longrightarrow> span (r, k) \<subseteq> \<Union>(span ` B) \<Longrightarrow>
    \<exists>p j. (p, j) \<in> B \<and> k \<le> j \<and> span (r, k) \<subseteq> span (p, j)"
proof (induction k arbitrary: r)
  case 0
  then show ?case by auto
next
  case (Suc k)
  let ?b = "buddy_pfn r k"
  have k: "k < 32" "k < MAX_ORDER" using max_order_32 [OF Suc.prems(2)] Suc.prems(2) by simp_all
  have r: "aligned r k" using Suc.prems(1) by (rule aligned_coarser) simp
  have b: "aligned ?b k" by (rule aligned_buddy [OF r k(1)])
  note halves = span_halves(1) [OF Suc.prems(1) k(1)]
  have big: ?case if "(q, j) \<in> B" "Suc k \<le> j" "span (q, j) \<inter> span (r, Suc k) \<noteq> {}" for q j
    using that span_nested [OF Suc.prems(1) _ that(2), of q] blocks_okD(1) [OF ok that(1)] by blast
  from Suc.IH [OF r k(2)] Suc.prems(3) halves obtain p1 j1
    where p1: "(p1, j1) \<in> B" "k \<le> j1" "span (r, k) \<subseteq> span (p1, j1)" by auto
  from Suc.IH [OF b k(2)] Suc.prems(3) halves obtain p2 j2
    where p2: "(p2, j2) \<in> B" "k \<le> j2" "span (?b, k) \<subseteq> span (p2, j2)" by auto
  have m1: "unat r \<in> span (p1, j1)" "unat r \<in> span (r, Suc k)" using p1(3) span_head by blast+
  have m2: "unat ?b \<in> span (p2, j2)" "unat ?b \<in> span (r, Suc k)" using p2(3) halves span_head by blast+
  show ?case
  proof (cases "Suc k \<le> j1 \<or> Suc k \<le> j2")
    case True
    with big [OF p1(1)] big [OF p2(1)] m1 m2 show ?thesis by blast
  next
    case False
    then have j: "j1 = k" "j2 = k" using p1(2) p2(2) by simp_all
    have "p1 = r"
      by (rule aligned_heads_eq [of _ k]) (use m1 p1 blocks_okD(1) [OF ok p1(1)] r j span_head in blast)+
    moreover have "p2 = ?b"
      by (rule aligned_heads_eq [of _ k]) (use m2 p2 blocks_okD(1) [OF ok p2(1)] b j span_head in blast)+
    ultimately show ?thesis using c p1(1) p2(1) j Suc.prems(2) unfolding coalesced_def by auto
  qed
qed

text \<open>So a coalesced set of blocks is determined by its frames.\<close>

lemma coalesced_unique:
  assumes "blocks_ok B" "coalesced B" "blocks_ok C" "coalesced C"
    and "\<Union>(span ` B) = \<Union>(span ` C)"
  shows "B \<subseteq> C"
proof
  fix x assume x: "x \<in> B"
  obtain p k where pk: "x = (p, k)" by force
  note a = blocks_okD [OF assms(1) x [unfolded pk]]
  from run_in_block [OF assms(3,4) a(1,2)] assms(5) x pk obtain q j
    where q: "(q, j) \<in> C" "k \<le> j" "span (p, k) \<subseteq> span (q, j)" by blast
  note b = blocks_okD [OF assms(3) q(1)]
  from run_in_block [OF assms(1,2) b(1,2)] assms(5) q(1) obtain r i
    where r: "(r, i) \<in> B" "j \<le> i" "span (q, j) \<subseteq> span (r, i)" by blast
  have "unat p \<in> span (p, k) \<inter> span (r, i)" using q(3) r(3) span_head [of p k] by blast
  then have "(p, k) = (r, i)" using blocks_ok_disjoint [OF assms(1) x [unfolded pk] r(1)] by blast
  then have j: "j = k" using q(2) r(2) by simp
  have "unat p \<in> span (p, k) \<inter> span (q, k)" using q(3) span_head [of p k] j by blast
  then have "p = q" using aligned_heads_eq [OF a(1)] b(1) j by blast
  with q(1) j pk show "x \<in> C" by simp
qed

end
