(* ===== verification/Linked_List.thy ===== *)
theory Linked_List
  imports Prelude
begin

text \<open>
  \<open>kernel/list.c\<close> and \<open>kernel/include/kernel/list.h\<close>: intrusive circular doubly linked lists.
  A \<open>struct list_head\<close> is a node, and nodes are named by a type \<open>'n\<close> that each client chooses
  (the \<open>chain\<close> of a page, a free-list head, the \<open>link\<close> of a slab, a task or a console). The two
  pointer fields of all nodes are two functions, one per field; the operations are the assignments
  of the C code in their order. \<open>list_rep h head xs\<close> says that the circle through \<open>head\<close> holds
  exactly the nodes \<open>xs\<close>, in both directions. The locale \<open>intrusive_list\<close> is the interface every
  client uses; it is interpreted on the operations of the code.
\<close>

subsection \<open>State and operations\<close>

record 'n list_heap =
  lh_next :: "'n \<Rightarrow> 'n"
  lh_prev :: "'n \<Rightarrow> 'n"

definition list_init_head :: "'n \<Rightarrow> 'n list_heap \<Rightarrow> 'n list_heap" where
  "list_init_head head h =
     (let h1 = h\<lparr>lh_next := (lh_next h)(head := head)\<rparr>
      in h1\<lparr>lh_prev := (lh_prev h1)(head := head)\<rparr>)"

definition list_insert_between :: "'n \<Rightarrow> 'n \<Rightarrow> 'n \<Rightarrow> 'n list_heap \<Rightarrow> 'n list_heap" where
  "list_insert_between prev nxt node h =
     (let h1 = h\<lparr>lh_next := (lh_next h)(prev := node)\<rparr>;
          h2 = h1\<lparr>lh_prev := (lh_prev h1)(nxt := node)\<rparr>;
          h3 = h2\<lparr>lh_next := (lh_next h2)(node := nxt)\<rparr>
      in h3\<lparr>lh_prev := (lh_prev h3)(node := prev)\<rparr>)"

definition list_insert_after :: "'n \<Rightarrow> 'n \<Rightarrow> 'n list_heap \<Rightarrow> 'n list_heap" where
  "list_insert_after pos node h = list_insert_between pos (lh_next h pos) node h"

definition list_insert_before :: "'n \<Rightarrow> 'n \<Rightarrow> 'n list_heap \<Rightarrow> 'n list_heap" where
  "list_insert_before pos node h = list_insert_between (lh_prev h pos) pos node h"

definition list_remove_between :: "'n \<Rightarrow> 'n \<Rightarrow> 'n list_heap \<Rightarrow> 'n list_heap" where
  "list_remove_between prev nxt h =
     (let h1 = h\<lparr>lh_next := (lh_next h)(prev := nxt)\<rparr>
      in h1\<lparr>lh_prev := (lh_prev h1)(nxt := prev)\<rparr>)"

definition list_remove :: "'n \<Rightarrow> 'n list_heap \<Rightarrow> 'n list_heap" where
  "list_remove node h = list_remove_between (lh_prev h node) (lh_next h node) h"

definition list_empty :: "'n \<Rightarrow> 'n list_heap \<Rightarrow> bool" where
  "list_empty head h \<longleftrightarrow> lh_next h head = head"

definition list_first :: "'n \<Rightarrow> 'n list_heap \<Rightarrow> 'n" where
  "list_first head h = lh_next h head"

lemmas list_ops_defs =
  list_init_head_def list_insert_between_def list_insert_after_def list_insert_before_def
  list_remove_between_def list_remove_def list_empty_def list_first_def Let_def

declare list_ops_defs [kernel_defs]

subsection \<open>What a circle of nodes represents\<close>

text \<open>The segment from \<open>p\<close> through \<open>xs\<close> to \<open>q\<close>: both pointers of every step.\<close>

fun dlseg :: "'n list_heap \<Rightarrow> 'n \<Rightarrow> 'n list \<Rightarrow> 'n \<Rightarrow> bool" where
  "dlseg h p [] q \<longleftrightarrow> lh_next h p = q \<and> lh_prev h q = p"
| "dlseg h p (x # xs) q \<longleftrightarrow> lh_next h p = x \<and> lh_prev h x = p \<and> dlseg h x xs q"

definition list_rep :: "'n list_heap \<Rightarrow> 'n \<Rightarrow> 'n list \<Rightarrow> bool" where
  "list_rep h head xs \<longleftrightarrow> distinct (head # xs) \<and> dlseg h head xs head"

lemma dlseg_append:
  "dlseg h p (xs @ y # ys) q \<longleftrightarrow> dlseg h p xs y \<and> dlseg h y ys q"
  by (induction xs arbitrary: p) auto

lemma dlseg_frame:
  assumes "dlseg h p xs q"
    and "\<And>n. n \<in> set (p # xs) \<Longrightarrow> lh_next h' n = lh_next h n"
    and "\<And>n. n \<in> set (xs @ [q]) \<Longrightarrow> lh_prev h' n = lh_prev h n"
  shows "dlseg h' p xs q"
  using assms by (induction xs arbitrary: p) auto

lemma dlseg_next: "dlseg h p xs q \<Longrightarrow> lh_next h p = hd (xs @ [q])"
  by (cases xs) auto

lemma dlseg_prev: "dlseg h p xs q \<Longrightarrow> lh_prev h q = last (p # xs)"
  by (induction xs arbitrary: p) auto

text \<open>Redirecting the far end of a segment to another node, and its near end from another node.\<close>

lemma dlseg_retarget:
  assumes "dlseg h p xs q" and "distinct (p # xs)"
    and "\<And>m. m \<in> set (p # xs) \<Longrightarrow> m \<noteq> last (p # xs) \<Longrightarrow> lh_next h' m = lh_next h m"
    and "lh_next h' (last (p # xs)) = z" and "lh_prev h' z = last (p # xs)"
    and "\<And>m. m \<in> set xs \<Longrightarrow> lh_prev h' m = lh_prev h m"
  shows "dlseg h' p xs z"
  using assms
proof (induction xs arbitrary: p)
  case Nil
  then show ?case by simp
next
  case (Cons x xs)
  have x: "lh_next h p = x" "lh_prev h x = p" "dlseg h x xs q"
    using Cons.prems(1) by simp_all
  have "p \<noteq> last (p # x # xs)" using Cons.prems(2) by (auto dest: last_in_set)
  then have "lh_next h' p = x" using Cons.prems(3) [of p] x by simp
  moreover have "lh_prev h' x = p" using Cons.prems(6) [of x] x by simp
  moreover have "dlseg h' x xs z"
    by (rule Cons.IH [OF x(3)]) (use Cons.prems in auto)
  ultimately show ?case by simp
qed

lemma dlseg_resource:
  assumes "dlseg h p xs q" and "distinct (xs @ [q])"
    and "lh_next h' z = hd (xs @ [q])" and "lh_prev h' (hd (xs @ [q])) = z"
    and "\<And>m. m \<in> set xs \<Longrightarrow> lh_next h' m = lh_next h m"
    and "\<And>m. m \<in> set (xs @ [q]) \<Longrightarrow> m \<noteq> hd (xs @ [q]) \<Longrightarrow> lh_prev h' m = lh_prev h m"
  shows "dlseg h' z xs q"
proof (cases xs)
  case Nil
  with assms(3,4) show ?thesis by simp
next
  case (Cons x ys)
  with assms(1) have "dlseg h x ys q" by simp
  then have "dlseg h' x ys q"
    by (rule dlseg_frame) (use assms(2,5,6) Cons in auto)
  with Cons assms(3,4) show ?thesis by simp
qed

subsection \<open>Each operation on one list\<close>

lemma list_rep_distinct: "list_rep h head xs \<Longrightarrow> distinct (head # xs)"
  by (simp add: list_rep_def)

lemma list_rep_init: "list_rep (list_init_head head h) head []"
  by (simp add: list_rep_def list_ops_defs)

lemma list_rep_frame:
  assumes "list_rep h g ys"
    and "\<And>n. n \<in> set (g # ys) \<Longrightarrow> lh_next h' n = lh_next h n"
    and "\<And>n. n \<in> set (g # ys) \<Longrightarrow> lh_prev h' n = lh_prev h n"
  shows "list_rep h' g ys"
  using assms by (auto simp: list_rep_def intro!: dlseg_frame [of h])

lemma list_empty_iff: "list_rep h head xs \<Longrightarrow> list_empty head h \<longleftrightarrow> xs = []"
  by (cases xs) (auto simp: list_rep_def list_empty_def)

lemma list_first_hd: "list_rep h head xs \<Longrightarrow> xs \<noteq> [] \<Longrightarrow> list_first head h = hd xs"
  by (cases xs) (auto simp: list_rep_def list_first_def)

text \<open>The fields after each operation.\<close>

lemma list_insert_between_fields [link_simps]:
  "lh_next (list_insert_between p q n h) = (lh_next h)(p := n, n := q)"
  "lh_prev (list_insert_between p q n h) = (lh_prev h)(q := n, n := p)"
  by (simp_all add: list_insert_between_def Let_def)

lemma list_remove_between_fields [link_simps]:
  "lh_next (list_remove_between p q h) = (lh_next h)(p := q)"
  "lh_prev (list_remove_between p q h) = (lh_prev h)(q := p)"
  by (simp_all add: list_remove_between_def Let_def)

lemma list_init_head_fields [link_simps]:
  "lh_next (list_init_head n h) = (lh_next h)(n := n)"
  "lh_prev (list_init_head n h) = (lh_prev h)(n := n)"
  by (simp_all add: list_init_head_def Let_def)

text \<open>
  The nodes around a position of the list: \<open>last (head # xs)\<close> before it and
  \<open>hd (ys @ [head])\<close> after it. Both insertions put the node between the two.
\<close>

lemma list_rep_insert_between:
  assumes "list_rep h head (xs @ ys)" and n: "n \<notin> set (head # xs @ ys)"
  shows "list_rep (list_insert_between (last (head # xs)) (hd (ys @ [head])) n h) head (xs @ n # ys)"
    (is "list_rep ?h _ _")
proof -
  from assms have d: "distinct (head # xs @ ys)" and s: "dlseg h head (xs @ ys) head"
    by (simp_all add: list_rep_def)
  have segs: "dlseg h head xs (hd (ys @ [head]))" "dlseg h (last (head # xs)) ys head"
    using s by (cases ys; cases xs rule: rev_cases; simp add: dlseg_append)+
  have l: "last (head # xs) \<in> set (head # xs)" by (rule last_in_set) simp
  have r: "hd (ys @ [head]) \<in> set (ys @ [head])" by (rule hd_in_set) simp
  have "dlseg ?h head xs n"
    by (rule dlseg_retarget [OF segs(1)]) (use d n l r in \<open>auto simp: link_simps\<close>)
  moreover have "dlseg ?h n ys head"
    by (rule dlseg_resource [OF segs(2)]) (use d n l r in \<open>auto simp: link_simps\<close>)
  ultimately show ?thesis using d n by (auto simp: list_rep_def dlseg_append)
qed

lemma list_rep_insert_before:
  assumes "list_rep h head xs" and "n \<notin> set (head # xs)"
  shows "list_rep (list_insert_before head n h) head (xs @ [n])"
proof -
  have "lh_prev h head = last (head # xs)"
    using assms(1) by (intro dlseg_prev) (simp add: list_rep_def)
  then show ?thesis
    using list_rep_insert_between [of h head xs "[]" n] assms by (simp add: list_insert_before_def)
qed

lemma list_rep_insert_after:
  assumes "list_rep h head xs" and "n \<notin> set (head # xs)"
  shows "list_rep (list_insert_after head n h) head (n # xs)"
proof -
  have "lh_next h head = hd (xs @ [head])"
    using assms(1) by (intro dlseg_next) (simp add: list_rep_def)
  then show ?thesis
    using list_rep_insert_between [of h head "[]" xs n] assms by (simp add: list_insert_after_def)
qed

lemma list_rep_remove:
  assumes "list_rep h head (xs @ n # ys)"
  shows "list_rep (list_remove n h) head (xs @ ys)"
proof -
  let ?h = "list_remove n h" and ?p = "last (head # xs)" and ?q = "hd (ys @ [head])"
  from assms have s1: "dlseg h head xs n" and s2: "dlseg h n ys head"
    and d: "distinct (head # xs @ n # ys)"
    by (simp_all add: list_rep_def dlseg_append)
  have h: "lh_next ?h = (lh_next h)(?p := ?q)" "lh_prev ?h = (lh_prev h)(?q := ?p)"
    using dlseg_prev [OF s1] dlseg_next [OF s2] by (simp_all add: list_remove_def link_simps)
  have l: "?p \<in> set (head # xs)" by (rule last_in_set) simp
  have r: "?q \<in> set (ys @ [head])" by (rule hd_in_set) simp
  have first: "dlseg ?h head xs ?q"
    by (rule dlseg_retarget [OF s1]) (use d l r in \<open>auto simp: h\<close>)
  have "dlseg ?h head (xs @ ys) head"
  proof (cases ys)
    case Nil
    with first show ?thesis by simp
  next
    case (Cons v vs)
    with s2 have "dlseg h v vs head" by simp
    then have "dlseg ?h v vs head"
      by (rule dlseg_frame) (use d l Cons in \<open>auto simp: h\<close>)
    with Cons first show ?thesis by (simp add: dlseg_append)
  qed
  with d show ?thesis by (simp add: list_rep_def)
qed

subsection \<open>Frames: other lists stay as they are\<close>

lemma list_rep_ends:
  assumes "list_rep h head xs"
  shows "lh_prev h head \<in> set (head # xs)" and "lh_next h head \<in> set (head # xs)"
proof -
  from assms have s: "dlseg h head xs head" by (simp add: list_rep_def)
  show "lh_prev h head \<in> set (head # xs)"
    unfolding dlseg_prev [OF s] by (rule last_in_set) simp
  have "hd (xs @ [head]) \<in> set (xs @ [head])" by (rule hd_in_set) simp
  then show "lh_next h head \<in> set (head # xs)"
    unfolding dlseg_next [OF s] by auto
qed

lemma list_rep_inner_ends:
  assumes "list_rep h head xs" and "n \<in> set xs"
  shows "lh_prev h n \<in> set (head # xs)" and "lh_next h n \<in> set (head # xs)"
proof -
  from split_list [OF assms(2)] obtain us vs where xs: "xs = us @ n # vs" by blast
  with assms(1) have s: "dlseg h head us n" "dlseg h n vs head"
    by (simp_all add: list_rep_def dlseg_append)
  have "last (head # us) \<in> set (head # us)" by (rule last_in_set) simp
  then show "lh_prev h n \<in> set (head # xs)" unfolding dlseg_prev [OF s(1)] xs by auto
  have "hd (vs @ [head]) \<in> set (vs @ [head])" by (rule hd_in_set) simp
  then show "lh_next h n \<in> set (head # xs)" unfolding dlseg_next [OF s(2)] xs by auto
qed

lemma list_insert_before_frame:
  assumes "list_rep h g ys" and "list_rep h head xs"
    and "set (g # ys) \<inter> set (head # xs) = {}" and "n \<notin> set (g # ys)"
  shows "list_rep (list_insert_before head n h) g ys"
  by (rule list_rep_frame [OF assms(1)])
    (use list_rep_ends [OF assms(2)] assms(3,4) in \<open>auto simp: list_insert_before_def link_simps\<close>)

lemma list_insert_after_frame:
  assumes "list_rep h g ys" and "list_rep h head xs"
    and "set (g # ys) \<inter> set (head # xs) = {}" and "n \<notin> set (g # ys)"
  shows "list_rep (list_insert_after head n h) g ys"
  by (rule list_rep_frame [OF assms(1)])
    (use list_rep_ends [OF assms(2)] assms(3,4) in \<open>auto simp: list_insert_after_def link_simps\<close>)

lemma list_remove_frame:
  assumes "list_rep h g ys" and "list_rep h head xs" and "n \<in> set xs"
    and "set (g # ys) \<inter> set (head # xs) = {}"
  shows "list_rep (list_remove n h) g ys"
  by (rule list_rep_frame [OF assms(1)])
    (use list_rep_inner_ends [OF assms(2,3)] assms(4) in \<open>auto simp: list_remove_def link_simps\<close>)

lemma list_init_head_frame:
  assumes "list_rep h g ys" and "n \<notin> set (g # ys)"
  shows "list_rep (list_init_head n h) g ys"
  by (rule list_rep_frame [OF assms(1)]) (use assms(2) in \<open>auto simp: link_simps\<close>)

subsection \<open>The interface: families of disjoint lists in one store\<close>

text \<open>
  Most clients keep several lists in one store (the free areas of a zone, the partial and full
  lists of a slab cache). \<open>list_family rep h H L\<close>: the list of every head \<open>g\<close> in \<open>H\<close> is \<open>L g\<close>, and
  no node is in two of them.
\<close>

definition disjoint_lists :: "'n set \<Rightarrow> ('n \<Rightarrow> 'n list) \<Rightarrow> bool" where
  "disjoint_lists H L \<longleftrightarrow>
     (\<forall>g\<in>H. \<forall>g'\<in>H. g \<noteq> g' \<longrightarrow> set (g # L g) \<inter> set (g' # L g') = {})"

definition list_family ::
  "('h \<Rightarrow> 'n \<Rightarrow> 'n list \<Rightarrow> bool) \<Rightarrow> 'h \<Rightarrow> 'n set \<Rightarrow> ('n \<Rightarrow> 'n list) \<Rightarrow> bool" where
  "list_family rep h H L \<longleftrightarrow> (\<forall>g\<in>H. rep h g (L g)) \<and> disjoint_lists H L"

definition family_nodes :: "'n set \<Rightarrow> ('n \<Rightarrow> 'n list) \<Rightarrow> 'n set" where
  "family_nodes H L = (\<Union>g\<in>H. set (g # L g))"

lemma family_nodes_iff: "n \<in> family_nodes H L \<longleftrightarrow> (\<exists>g\<in>H. n = g \<or> n \<in> set (L g))"
  by (auto simp: family_nodes_def)

lemma disjoint_lists_sub:
  assumes "disjoint_lists H L" and "set xs \<subseteq> set (L g)"
  shows "disjoint_lists H (L(g := xs))"
  unfolding disjoint_lists_def
proof (intro ballI impI)
  fix a b assume ab: "a \<in> H" "b \<in> H" "a \<noteq> b"
  with assms(1) have "set (a # L a) \<inter> set (b # L b) = {}"
    unfolding disjoint_lists_def by blast
  moreover have "set (c # (L(g := xs)) c) \<subseteq> set (c # L c)" for c using assms(2) by auto
  ultimately show "set (a # (L(g := xs)) a) \<inter> set (b # (L(g := xs)) b) = {}" by blast
qed

lemma disjoint_insert_one:
  "A \<inter> B = {} \<Longrightarrow> n \<notin> A \<Longrightarrow> n \<notin> B \<Longrightarrow> A' \<subseteq> insert n A \<Longrightarrow> B' \<subseteq> insert n B \<Longrightarrow>
     A' = A \<or> B' = B \<Longrightarrow> A' \<inter> B' = {}"
  by blast

lemma disjoint_lists_add:
  assumes "disjoint_lists H L" and "set xs \<subseteq> insert n (set (L g))"
    and "n \<notin> family_nodes H L"
  shows "disjoint_lists H (L(g := xs))"
  unfolding disjoint_lists_def
proof (intro ballI impI)
  fix a b assume ab: "a \<in> H" "b \<in> H" "a \<noteq> b"
  with assms(1) have "set (a # L a) \<inter> set (b # L b) = {}"
    unfolding disjoint_lists_def by blast
  moreover have "n \<notin> set (a # L a)" "n \<notin> set (b # L b)"
    using ab assms(3) by (auto simp: family_nodes_iff)
  moreover have "set (a # (L(g := xs)) a) \<subseteq> insert n (set (a # L a))"
    "set (b # (L(g := xs)) b) \<subseteq> insert n (set (b # L b))"
    using assms(2) by auto
  moreover have "set (a # (L(g := xs)) a) = set (a # L a) \<or> set (b # (L(g := xs)) b) = set (b # L b)"
    using ab(3) by auto
  ultimately show "set (a # (L(g := xs)) a) \<inter> set (b # (L(g := xs)) b) = {}"
    by (rule disjoint_insert_one)
qed

locale intrusive_list =
  fixes init :: "'n \<Rightarrow> 'h \<Rightarrow> 'h"
    and ins_before :: "'n \<Rightarrow> 'n \<Rightarrow> 'h \<Rightarrow> 'h"
    and ins_after :: "'n \<Rightarrow> 'n \<Rightarrow> 'h \<Rightarrow> 'h"
    and remove :: "'n \<Rightarrow> 'h \<Rightarrow> 'h"
    and empty :: "'n \<Rightarrow> 'h \<Rightarrow> bool"
    and front :: "'n \<Rightarrow> 'h \<Rightarrow> 'n"
    and rep :: "'h \<Rightarrow> 'n \<Rightarrow> 'n list \<Rightarrow> bool"
  assumes rep_distinct: "rep h g xs \<Longrightarrow> distinct (g # xs)"
    and rep_init: "rep (init g h) g []"
    and init_frame: "rep h g ys \<Longrightarrow> n \<notin> set (g # ys) \<Longrightarrow> rep (init n h) g ys"
    and rep_ins_before: "rep h g xs \<Longrightarrow> n \<notin> set (g # xs) \<Longrightarrow> rep (ins_before g n h) g (xs @ [n])"
    and rep_ins_after: "rep h g xs \<Longrightarrow> n \<notin> set (g # xs) \<Longrightarrow> rep (ins_after g n h) g (n # xs)"
    and rep_remove: "rep h g (xs @ n # ys) \<Longrightarrow> rep (remove n h) g (xs @ ys)"
    and ins_before_frame: "rep h g ys \<Longrightarrow> rep h g' xs \<Longrightarrow> set (g # ys) \<inter> set (g' # xs) = {} \<Longrightarrow>
      n \<notin> set (g # ys) \<Longrightarrow> rep (ins_before g' n h) g ys"
    and ins_after_frame: "rep h g ys \<Longrightarrow> rep h g' xs \<Longrightarrow> set (g # ys) \<inter> set (g' # xs) = {} \<Longrightarrow>
      n \<notin> set (g # ys) \<Longrightarrow> rep (ins_after g' n h) g ys"
    and remove_frame: "rep h g ys \<Longrightarrow> rep h g' xs \<Longrightarrow> n \<in> set xs \<Longrightarrow>
      set (g # ys) \<inter> set (g' # xs) = {} \<Longrightarrow> rep (remove n h) g ys"
    and empty_iff: "rep h g xs \<Longrightarrow> empty g h \<longleftrightarrow> xs = []"
    and front_hd: "rep h g xs \<Longrightarrow> xs \<noteq> [] \<Longrightarrow> front g h = hd xs"
begin

lemma rep_remove1:
  assumes "rep h g xs" and "n \<in> set xs"
  shows "rep (remove n h) g (remove1 n xs)"
proof -
  have "distinct xs" using rep_distinct [OF assms(1)] by simp
  from distinct_split_remove1 [OF this assms(2)] obtain us vs
    where "xs = us @ n # vs" "remove1 n xs = us @ vs" by blast
  with assms(1) show ?thesis by (simp add: rep_remove)
qed

lemma rep_pop:
  assumes "rep h g (x # xs)"
  shows "front g h = x" and "rep (remove x h) g xs"
  using front_hd [OF assms] rep_remove [of h g "[]" x xs] assms by simp_all

text \<open>Taking the first node off and queueing another one at the end: one round of a FIFO.\<close>

lemma rep_rotate:
  assumes "rep h g (x # xs)" and "n \<notin> set (g # xs)"
  shows "rep (ins_before g n (remove (front g h) h)) g (xs @ [n])"
  using rep_pop [OF assms(1)] assms(2) by (simp add: rep_ins_before)

lemma family_rep: "list_family rep h H L \<Longrightarrow> g \<in> H \<Longrightarrow> rep h g (L g)"
  by (simp add: list_family_def)

lemma family_distinct: "list_family rep h H L \<Longrightarrow> g \<in> H \<Longrightarrow> distinct (g # L g)"
  by (rule rep_distinct [OF family_rep])

lemma family_separate:
  "list_family rep h H L \<Longrightarrow> g \<in> H \<Longrightarrow> g' \<in> H \<Longrightarrow> g \<noteq> g' \<Longrightarrow>
     set (g # L g) \<inter> set (g' # L g') = {}"
  unfolding list_family_def disjoint_lists_def by blast

lemma family_init:
  assumes "list_family rep h H L" and "n \<notin> family_nodes H L"
  shows "list_family rep (init n h) (insert n H) (L(n := []))"
  using assms rep_init [of n h] init_frame [of h _ _ n]
  by (auto simp: list_family_def disjoint_lists_def family_nodes_iff)

lemma family_init_outside:
  assumes "list_family rep h H L" and "n \<notin> family_nodes H L"
  shows "list_family rep (init n h) H L"
  using assms init_frame [of h _ _ n]
  by (auto simp: list_family_def family_nodes_iff)

lemma family_ins_before:
  assumes fam: "list_family rep h H L" and "g \<in> H" and "n \<notin> family_nodes H L"
  shows "list_family rep (ins_before g n h) H (L(g := L g @ [n]))"
proof -
  have n: "\<And>g'. g' \<in> H \<Longrightarrow> n \<notin> set (g' # L g')" using assms(3) by (auto simp: family_nodes_iff)
  have "rep (ins_before g n h) g' ((L(g := L g @ [n])) g')" if "g' \<in> H" for g'
    using rep_ins_before [OF family_rep [OF fam assms(2)] n [OF assms(2)]]
      ins_before_frame [OF family_rep [OF fam that] family_rep [OF fam assms(2)]]
      family_separate [OF fam that assms(2)] n [OF that] by simp
  moreover have "disjoint_lists H (L(g := L g @ [n]))"
    using fam by (auto simp: list_family_def intro: disjoint_lists_add [OF _ _ assms(3)])
  ultimately show ?thesis by (simp add: list_family_def)
qed

lemma family_ins_after:
  assumes fam: "list_family rep h H L" and "g \<in> H" and "n \<notin> family_nodes H L"
  shows "list_family rep (ins_after g n h) H (L(g := n # L g))"
proof -
  have n: "\<And>g'. g' \<in> H \<Longrightarrow> n \<notin> set (g' # L g')" using assms(3) by (auto simp: family_nodes_iff)
  have "rep (ins_after g n h) g' ((L(g := n # L g)) g')" if "g' \<in> H" for g'
    using rep_ins_after [OF family_rep [OF fam assms(2)] n [OF assms(2)]]
      ins_after_frame [OF family_rep [OF fam that] family_rep [OF fam assms(2)]]
      family_separate [OF fam that assms(2)] n [OF that] by simp
  moreover have "disjoint_lists H (L(g := n # L g))"
    using fam by (auto simp: list_family_def intro: disjoint_lists_add [OF _ _ assms(3)])
  ultimately show ?thesis by (simp add: list_family_def)
qed

lemma family_remove:
  assumes fam: "list_family rep h H L" and "g \<in> H" and "n \<in> set (L g)"
  shows "list_family rep (remove n h) H (L(g := remove1 n (L g)))"
proof -
  have "rep (remove n h) g' ((L(g := remove1 n (L g))) g')" if "g' \<in> H" for g'
    using rep_remove1 [OF family_rep [OF fam assms(2)] assms(3)]
      remove_frame [OF family_rep [OF fam that] family_rep [OF fam assms(2)] assms(3)]
      family_separate [OF fam that assms(2)] by simp
  moreover have "disjoint_lists H (L(g := remove1 n (L g)))"
    using fam by (intro disjoint_lists_sub set_remove1_subset) (simp add: list_family_def)
  ultimately show ?thesis by (simp add: list_family_def)
qed

lemma family_pop:
  assumes fam: "list_family rep h H L" and "g \<in> H" and "L g = x # xs"
  shows "front g h = x" and "list_family rep (remove (front g h) h) H (L(g := xs))"
proof -
  have "rep h g (x # xs)" using family_rep [OF fam assms(2)] assms(3) by simp
  from rep_pop(1) [OF this] show f: "front g h = x" .
  show "list_family rep (remove (front g h) h) H (L(g := xs))"
    using family_remove [OF fam assms(2), of x] assms(3) f by simp
qed

lemma family_empty_iff: "list_family rep h H L \<Longrightarrow> g \<in> H \<Longrightarrow> empty g h \<longleftrightarrow> L g = []"
  by (rule empty_iff [OF family_rep])

lemma removed_outside:
  assumes fam: "list_family rep h H L" and "g \<in> H" and "n \<in> set (L g)"
  shows "n \<notin> family_nodes H (L(g := remove1 n (L g)))"
proof -
  have d: "n \<notin> set (remove1 n (L g))" "n \<noteq> g"
    using family_distinct [OF fam assms(2)] assms(3) by auto
  have "n \<notin> set (g' # L g')" if "g' \<in> H" "g' \<noteq> g" for g'
    using family_separate [OF fam that(1) assms(2) that(2)] assms(3) by auto
  with d show ?thesis by (auto simp: family_nodes_iff)
qed

text \<open>Moving a node of one list to the front or to the end of another list.\<close>

lemma family_move_before:
  assumes "list_family rep h H L" and "g \<in> H" and "g' \<in> H" and "g \<noteq> g'" and "n \<in> set (L g)"
  shows "list_family rep (ins_before g' n (remove n h)) H
    (L(g := remove1 n (L g), g' := L g' @ [n]))"
  using family_ins_before [OF family_remove [OF assms(1,2,5)] assms(3)
      removed_outside [OF assms(1,2,5)]] assms(4) by simp

lemma family_move_after:
  assumes "list_family rep h H L" and "g \<in> H" and "g' \<in> H" and "g \<noteq> g'" and "n \<in> set (L g)"
  shows "list_family rep (ins_after g' n (remove n h)) H
    (L(g := remove1 n (L g), g' := n # L g'))"
  using family_ins_after [OF family_remove [OF assms(1,2,5)] assms(3)
      removed_outside [OF assms(1,2,5)]] assms(4) by simp

end

text \<open>The operations of \<open>list.c\<close> keep the contract.\<close>

interpretation lists: intrusive_list
  list_init_head list_insert_before list_insert_after list_remove list_empty list_first list_rep
  by unfold_locales
    (fact list_rep_distinct list_rep_init list_init_head_frame list_rep_insert_before
      list_rep_insert_after list_rep_remove list_insert_before_frame list_insert_after_frame
      list_remove_frame list_empty_iff list_first_hd)+

end
