(* ===== verification/Page_Alloc.thy ===== *)
theory Page_Alloc
  imports Page_Blocks Linked_List
begin

text \<open>
  \<open>kernel/page_alloc.c\<close> and \<open>kernel/include/kernel/page_alloc.h\<close>: the buddy page allocator. A
  \<open>struct page *\<close> is its index in \<open>nodes[0].pages\<close>, a \<open>struct zone *\<close> the index of the zone in
  \<open>nodes[0].zones\<close> (there is one node), the null pointer is \<open>None\<close>. The nodes of the intrusive
  lists are the \<open>chain\<close> of every page and the \<open>free_area\<close> heads of the zones. An order is a \<open>nat\<close>
  as an argument and an \<open>int\<close> in the field \<open>order\<close>, where the code keeps \<open>- order - 1\<close> for a block
  that is handed out.
\<close>

subsection \<open>State\<close>

datatype zone_type = ZONE_NORMAL | ZONE_HIGH

instantiation zone_type :: linorder
begin

fun zone_index :: "zone_type \<Rightarrow> nat" where
  "zone_index ZONE_NORMAL = 0"
| "zone_index ZONE_HIGH = 1"

definition less_eq_zone_type :: "zone_type \<Rightarrow> zone_type \<Rightarrow> bool" where
  "less_eq_zone_type a b \<longleftrightarrow> zone_index a \<le> zone_index b"

definition less_zone_type :: "zone_type \<Rightarrow> zone_type \<Rightarrow> bool" where
  "less_zone_type a b \<longleftrightarrow> zone_index a < zone_index b"

instance
proof
  fix x y z :: zone_type
  show "x \<le> y \<Longrightarrow> y \<le> x \<Longrightarrow> x = y"
    by (cases x; cases y) (simp_all add: less_eq_zone_type_def)
qed (auto simp: less_eq_zone_type_def less_zone_type_def)

end

datatype page_node = Chain u32 | Free_area zone_type nat

record zone =
  z_start_pfn :: u32
  z_end_pfn :: u32

record page_state =
  pg_links :: "page_node list_heap"
  pg_order :: "u32 \<Rightarrow> int"
  pg_zone :: "u32 \<Rightarrow> zone_type"
  pg_slab :: "u32 \<Rightarrow> u32"
  nd_zones :: "zone_type \<Rightarrow> zone"
  nd_start_pfn :: u32
  nd_end_pfn :: u32
  nd_pages :: u32

definition ALLOC_HIGH :: u32 where "ALLOC_HIGH = BITUL 1"
definition ALLOC_NORMAL :: u32 where "ALLOC_NORMAL = BITUL 2"

definition page_to_pfn :: "u32 \<Rightarrow> page_state \<Rightarrow> u32" where
  "page_to_pfn page st = nd_start_pfn st + page"

definition pfn_to_page :: "u32 \<Rightarrow> page_state \<Rightarrow> u32" where
  "pfn_to_page pfn st = pfn - nd_start_pfn st"

definition page_zone :: "u32 \<Rightarrow> page_state \<Rightarrow> zone_type" where
  "page_zone page st = pg_zone st page"

definition page_physical_address :: "u32 \<Rightarrow> page_state \<Rightarrow> u32" where
  "page_physical_address page st = push_bit PAGE_SHIFT (page_to_pfn page st)"

definition page_virtual_address :: "u32 \<Rightarrow> page_state \<Rightarrow> u32" where
  "page_virtual_address page st = virt_addr (page_physical_address page st)"

subsection \<open>Freeing\<close>

definition set_order :: "u32 \<Rightarrow> int \<Rightarrow> page_state \<Rightarrow> page_state" where
  "set_order page n st = st\<lparr>pg_order := (pg_order st)(page := n)\<rparr>"

definition links_map :: "(page_node list_heap \<Rightarrow> page_node list_heap) \<Rightarrow> page_state \<Rightarrow> page_state" where
  "links_map f st = st\<lparr>pg_links := f (pg_links st)\<rparr>"

function free_pages_loop ::
  "zone_type \<Rightarrow> u32 \<Rightarrow> u32 \<Rightarrow> nat \<Rightarrow> page_state \<Rightarrow> u32 \<times> nat \<times> page_state" where
  "free_pages_loop z pages pfn order st =
     (if order < MAX_ORDER - 1 then
        (let bpfn = buddy_pfn pfn order
         in if bpfn \<ge> z_end_pfn (nd_zones st z) \<or> bpfn < z_start_pfn (nd_zones st z)
            then (pages, order, st)
            else
              (let buddy = pfn_to_page bpfn st
               in if int order \<noteq> pg_order st buddy then (pages, order, st)
                  else
                    (let st1 = links_map (list_remove (Chain buddy)) st
                     in if bpfn < pfn then free_pages_loop z buddy bpfn (order + 1) st1
                        else free_pages_loop z pages pfn (order + 1) st1)))
      else (pages, order, st))"
  by pat_completeness auto
termination
  by (relation "measure (\<lambda>(z, pages, pfn, order, st). MAX_ORDER - order)") (auto simp: MAX_ORDER_def)

definition free_pages_node :: "u32 \<Rightarrow> nat \<Rightarrow> zone_type \<Rightarrow> page_state \<Rightarrow> page_state" where
  "free_pages_node pages order z st =
     (let pfn = page_to_pfn pages st;
          (pages', order', st1) = free_pages_loop z pages pfn order st;
          st2 = set_order pages' (int order') st1
      in links_map (list_insert_before (Free_area z order') (Chain pages')) st2)"

definition free_pages :: "u32 \<Rightarrow> nat \<Rightarrow> page_state \<Rightarrow> page_state outcome" where
  "free_pages pages order st =
     bind_outcome
       (assert_that (pg_order st pages < 0 \<and> nat (- pg_order st pages - 1) = order)
          ''Freeing pages with wrong order'')
       (\<lambda>_. Inr (free_pages_node pages order (page_zone pages st) st))"

subsection \<open>Allocating\<close>

function find_order :: "zone_type \<Rightarrow> nat \<Rightarrow> page_state \<Rightarrow> nat" where
  "find_order z corder st =
     (if corder < MAX_ORDER then
        (if \<not> list_empty (Free_area z corder) (pg_links st) then corder
         else find_order z (corder + 1) st)
      else corder)"
  by pat_completeness auto
termination
  by (relation "measure (\<lambda>(z, corder, st). MAX_ORDER - corder)") auto

function split_loop :: "zone_type \<Rightarrow> u32 \<Rightarrow> nat \<Rightarrow> nat \<Rightarrow> page_state \<Rightarrow> page_state" where
  "split_loop z page order corder st =
     (if corder > order then
        (let pfn = page_to_pfn page st;
             corder' = corder - 1;
             bpfn = buddy_pfn pfn corder';
             buddy = pfn_to_page bpfn st;
             st1 = set_order buddy (int corder') st;
             st2 = links_map (list_insert_before (Free_area z corder') (Chain buddy)) st1
         in split_loop z page order corder' st2)
      else st)"
  by pat_completeness auto
termination
  by (relation "measure (\<lambda>(z, page, order, corder, st). corder)") auto

definition alloc_pages_node :: "nat \<Rightarrow> zone_type \<Rightarrow> page_state \<Rightarrow> (u32 option \<times> page_state) outcome" where
  "alloc_pages_node order z st =
     (let corder = find_order z order st
      in if corder \<ge> MAX_ORDER then Inr (None, st)
         else case lh_next (pg_links st) (Free_area z corder) of
           Free_area _ _ \<Rightarrow> Inl Wild
         | Chain page \<Rightarrow>
             (let st1 = links_map (list_remove (Chain page)) st;
                  st2 = split_loop z page order corder st1
              in Inr (Some page, set_order page (- int order - 1) st2)))"

definition alloc_pages :: "nat \<Rightarrow> u32 \<Rightarrow> page_state \<Rightarrow> (u32 option \<times> page_state) outcome" where
  "alloc_pages order flags st =
     bind_outcome (assert_that (order < MAX_ORDER) ''Too large allocation size'')
       (\<lambda>_. bind_outcome
          (assert_that (flags AND ALLOC_NORMAL \<noteq> 0) ''Only ZONE_NORMAL allocations are supported'')
          (\<lambda>_. alloc_pages_node order ZONE_NORMAL st))"

declare free_pages_loop.simps [simp del] find_order.simps [simp del] split_loop.simps [simp del]

subsection \<open>The invariant on blocks\<close>

definition frames :: "zone_type \<Rightarrow> page_state \<Rightarrow> nat set" where
  "frames z st = {unat (z_start_pfn (nd_zones st z)) ..< unat (z_end_pfn (nd_zones st z))}"

definition all_frames :: "zone_type set \<Rightarrow> page_state \<Rightarrow> nat set" where
  "all_frames Z st = (\<Union>z\<in>Z. frames z st)"

definition zones_ok :: "zone_type set \<Rightarrow> page_state \<Rightarrow> bool" where
  "zones_ok Z st \<longleftrightarrow> nd_start_pfn st = 0 \<and>
     (\<forall>z\<in>Z. \<forall>z'\<in>Z. z \<noteq> z' \<longrightarrow> frames z st \<inter> frames z' st = {}) \<and>
     (\<forall>z\<in>Z. \<forall>p. unat p \<in> frames z st \<longrightarrow> pg_zone st p = z)"

text \<open>
  \<open>block_inv st Z B A E\<close>: the initialised zones \<open>Z\<close> are tiled by the free blocks \<open>B z\<close> of each
  zone, the blocks \<open>A\<close> that are handed out and the blocks \<open>E\<close> that an operation has in its hands.
  The field \<open>order\<close> of a head says which it is, and no two free buddies are left unmerged.
\<close>

definition block_inv :: "page_state \<Rightarrow> zone_type set \<Rightarrow> (zone_type \<Rightarrow> (u32 \<times> nat) set) \<Rightarrow>
    (u32 \<times> nat) set \<Rightarrow> (u32 \<times> nat) set \<Rightarrow> bool" where
  "block_inv st Z B A E \<longleftrightarrow> zones_ok Z st \<and>
     tiling (all_frames Z st) (\<Union>(B ` Z) \<union> A \<union> E) \<and> E \<inter> (\<Union>(B ` Z) \<union> A) = {} \<and>
     (\<forall>z\<in>Z. \<forall>(p, k) \<in> B z. span (p, k) \<subseteq> frames z st \<and> pg_order st p = int k) \<and>
     (\<forall>(p, k) \<in> A. pg_order st p = - int k - 1) \<and>
     (\<forall>b \<in> A \<union> E. \<exists>z\<in>Z. span b \<subseteq> frames z st) \<and>
     (\<forall>z\<in>Z. coalesced (B z))"

lemma block_invD:
  assumes "block_inv st Z B A E"
  shows "zones_ok Z st" and "tiling (all_frames Z st) (\<Union>(B ` Z) \<union> A \<union> E)"
    and "blocks_ok (\<Union>(B ` Z) \<union> A \<union> E)" and "E \<inter> (\<Union>(B ` Z) \<union> A) = {}"
    and "\<And>z p k. z \<in> Z \<Longrightarrow> (p, k) \<in> B z \<Longrightarrow> span (p, k) \<subseteq> frames z st"
    and "\<And>z p k. z \<in> Z \<Longrightarrow> (p, k) \<in> B z \<Longrightarrow> pg_order st p = int k"
    and "\<And>p k. (p, k) \<in> A \<Longrightarrow> pg_order st p = - int k - 1"
    and "\<And>b. b \<in> A \<union> E \<Longrightarrow> \<exists>z\<in>Z. span b \<subseteq> frames z st"
    and "\<And>z. z \<in> Z \<Longrightarrow> coalesced (B z)"
  using assms unfolding block_inv_def tiling_def by blast+

lemma state_fields [simp]:
  "pg_order (links_map f st) = pg_order st" "pg_zone (links_map f st) = pg_zone st"
  "nd_zones (links_map f st) = nd_zones st" "nd_start_pfn (links_map f st) = nd_start_pfn st"
  "pg_links (links_map f st) = f (pg_links st)" "pg_slab (links_map f st) = pg_slab st"
  "pg_order (set_order p n st) = (pg_order st)(p := n)" "pg_zone (set_order p n st) = pg_zone st"
  "nd_zones (set_order p n st) = nd_zones st" "nd_start_pfn (set_order p n st) = nd_start_pfn st"
  "pg_links (set_order p n st) = pg_links st" "pg_slab (set_order p n st) = pg_slab st"
  "nd_pages (links_map f st) = nd_pages st" "nd_pages (set_order p n st) = nd_pages st"
  by (simp_all add: links_map_def set_order_def)

lemma frames_fields [simp]:
  "frames z (links_map f st) = frames z st" "frames z (set_order p n st) = frames z st"
  "all_frames Z (links_map f st) = all_frames Z st" "all_frames Z (set_order p n st) = all_frames Z st"
  "zones_ok Z (links_map f st) = zones_ok Z st" "zones_ok Z (set_order p n st) = zones_ok Z st"
  by (simp_all add: frames_def all_frames_def zones_ok_def)

lemma block_inv_links [simp]: "block_inv (links_map f st) Z B A E = block_inv st Z B A E"
  by (simp add: block_inv_def)

lemma zone_of_frame: "zones_ok Z st \<Longrightarrow> z \<in> Z \<Longrightarrow> unat p \<in> frames z st \<Longrightarrow> pg_zone st p = z"
  by (simp add: zones_ok_def)

lemma frames_zone_unique:
  "zones_ok Z st \<Longrightarrow> z \<in> Z \<Longrightarrow> z' \<in> Z \<Longrightarrow> x \<in> frames z st \<Longrightarrow> x \<in> frames z' st \<Longrightarrow> z = z'"
  unfolding zones_ok_def by blast

lemma block_zone:
  assumes "block_inv st Z B A E" and "z \<in> Z" and "z' \<in> Z" and "(p, k) \<in> B z" and "(p, k) \<in> B z'"
  shows "z = z'"
proof -
  note inv = block_invD [OF assms(1)]
  have "unat p \<in> frames z st" "unat p \<in> frames z' st"
    using inv(5) [OF assms(2,4)] inv(5) [OF assms(3,5)] span_head by blast+
  with frames_zone_unique [OF inv(1) assms(2,3)] show ?thesis by blast
qed

lemma coalesced_subset: "coalesced B \<Longrightarrow> S \<subseteq> B \<Longrightarrow> coalesced S"
  unfolding coalesced_def by blast

lemma tile_order_free:
  assumes "block_inv st Z B A E" and "(p, k) \<in> \<Union>(B ` Z) \<union> A \<union> E" and "(p, k) \<notin> E" and "0 \<le> pg_order st p"
  shows "\<exists>z\<in>Z. (p, k) \<in> B z"
proof (rule ccontr)
  assume "\<not> (\<exists>z\<in>Z. (p, k) \<in> B z)"
  with assms(2,3) have "(p, k) \<in> A" by blast
  from block_invD(7) [OF assms(1) this] assms(4) show False by simp
qed

subsection \<open>The steps of the operations on blocks\<close>

lemma block_take:
  assumes "block_inv st Z B A E" and "z \<in> Z" and "b \<in> B z"
  shows "block_inv st Z (B(z := B z - {b})) A (insert b E)"
proof -
  note inv = block_invD [OF assms(1)]
  obtain p k where b: "b = (p, k)" by force
  have other: "b \<notin> B z'" if "z' \<in> Z" "z' \<noteq> z" for z'
    using block_zone [OF assms(1) that(1) assms(2)] assms(3) that b by blast
  then have "\<Union>((B(z := B z - {b})) ` Z) = \<Union>(B ` Z) - {b}" using assms(2) by auto
  moreover from this have "\<Union>((B(z := B z - {b})) ` Z) \<union> A \<union> insert b E = \<Union>(B ` Z) \<union> A \<union> E"
    using assms(2,3) by auto
  moreover have "b \<notin> A"
    using inv(6) [OF assms(2)] inv(7) assms(3) b by force
  moreover have "coalesced ((B(z := B z - {b})) z')" if "z' \<in> Z" for z'
    using inv(9) [OF that] by (auto intro: coalesced_subset)
  moreover have "\<exists>z\<in>Z. span b \<subseteq> frames z st" using inv(5) [OF assms(2)] assms(2,3) b by blast
  ultimately show ?thesis
    using assms(1) unfolding block_inv_def by (auto split: if_splits)
qed

lemma head_unique_floating:
  assumes "block_inv st Z B A (insert (p, k) E)"
  shows "\<And>z q j. z \<in> Z \<Longrightarrow> (q, j) \<in> B z \<Longrightarrow> q \<noteq> p" and "\<And>q j. (q, j) \<in> A \<Longrightarrow> q \<noteq> p"
proof -
  note inv = block_invD [OF assms]
  have "q \<noteq> p" if "(q, j) \<in> \<Union>(B ` Z) \<union> A" for q j
  proof
    assume "q = p"
    have "j = k" by (rule blocks_ok_head [OF inv(3), of p]) (use that \<open>q = p\<close> in blast)+
    with inv(4) that \<open>q = p\<close> show False by blast
  qed
  then show "\<And>z q j. z \<in> Z \<Longrightarrow> (q, j) \<in> B z \<Longrightarrow> q \<noteq> p" and "\<And>q j. (q, j) \<in> A \<Longrightarrow> q \<noteq> p"
    by blast+
qed

lemma block_put:
  assumes "block_inv st Z B A (insert (p, k) E)" and "(p, k) \<notin> E" and "z \<in> Z"
    and "unat p \<in> frames z st" and "Suc k < MAX_ORDER \<Longrightarrow> (buddy_pfn p k, k) \<notin> B z"
  shows "block_inv (set_order p (int k) st) Z (B(z := insert (p, k) (B z))) A E"
proof -
  note inv = block_invD [OF assms(1)]
  note new = head_unique_floating [OF assms(1)]
  let ?B = "B(z := insert (p, k) (B z))"
  have un: "\<Union>(?B ` Z) = insert (p, k) (\<Union>(B ` Z))" using assms(3) by auto
  have k: "k < 32" using blocks_okD(3) [OF inv(3), of p k] by simp
  obtain z' where z': "z' \<in> Z" "span (p, k) \<subseteq> frames z' st" using inv(8) [of "(p, k)"] by auto
  then have "z' = z"
    using frames_zone_unique [OF inv(1) z'(1) assms(3) _ assms(4)] span_head by blast
  with z' have sp: "span (p, k) \<subseteq> frames z st" by simp
  have "coalesced (insert (p, k) (B z))"
    using inv(9) [OF assms(3)] assms(5) buddy_neq [OF k, of p]
    unfolding coalesced_def by (auto dest!: bspec)
  then have c: "\<forall>z'\<in>Z. coalesced (?B z')" using inv(9) by simp
  have t: "tiling (all_frames Z st) (\<Union>(?B ` Z) \<union> A \<union> E)" using inv(2) unfolding un by simp
  have d: "E \<inter> (\<Union>(?B ` Z) \<union> A) = {}" using inv(4) assms(2) un by auto
  have fb: "\<forall>z'\<in>Z. \<forall>(q, j) \<in> ?B z'. span (q, j) \<subseteq> frames z' st \<and> pg_order (set_order p (int k) st) q = int j"
  proof (intro ballI, clarify)
    fix z' q j assume "z' \<in> Z" "(q, j) \<in> ?B z'"
    then consider "(q, j) = (p, k)" "z' = z" | "(q, j) \<in> B z'" "q \<noteq> p"
      using new(1) [of z' q j] by (auto split: if_splits)
    then show "span (q, j) \<subseteq> frames z' st \<and> pg_order (set_order p (int k) st) q = int j"
      using sp inv(5,6) [OF \<open>z' \<in> Z\<close>] by cases auto
  qed
  have ao: "\<forall>(q, j) \<in> A. pg_order (set_order p (int k) st) q = - int j - 1"
    using inv(7) new(2) by fastforce
  have za: "\<forall>b \<in> A \<union> E. \<exists>z\<in>Z. span b \<subseteq> frames z st" using inv(8) by blast
  show ?thesis using inv(1) t d fb ao za c by (simp add: block_inv_def)
qed

lemma block_own:
  assumes "block_inv st Z B A (insert (p, k) E)" and "(p, k) \<notin> E"
  shows "block_inv (set_order p (- int k - 1) st) Z B (insert (p, k) A) E"
proof -
  note inv = block_invD [OF assms(1)]
  note new = head_unique_floating [OF assms(1)]
  let ?st = "set_order p (- int k - 1) st"
  have t: "tiling (all_frames Z st) (\<Union>(B ` Z) \<union> insert (p, k) A \<union> E)" using inv(2) by simp
  have d: "E \<inter> (\<Union>(B ` Z) \<union> insert (p, k) A) = {}" using inv(4) assms(2) by auto
  have fb: "\<forall>z\<in>Z. \<forall>(q, j) \<in> B z. span (q, j) \<subseteq> frames z st \<and> pg_order ?st q = int j"
    using inv(5,6) new(1) by fastforce
  have ao: "\<forall>(q, j) \<in> insert (p, k) A. pg_order ?st q = - int j - 1"
    using inv(7) new(2) by fastforce
  have za: "\<forall>b \<in> insert (p, k) A \<union> E. \<exists>z\<in>Z. span b \<subseteq> frames z st" using inv(8) by blast
  show ?thesis using inv(1,9) t d fb ao za by (simp add: block_inv_def)
qed

lemma block_disown:
  assumes "block_inv st Z B A E" and "(p, k) \<in> A"
  shows "block_inv st Z B (A - {(p, k)}) (insert (p, k) E)"
proof -
  note inv = block_invD [OF assms(1)]
  have nf: "(p, k) \<notin> \<Union>(B ` Z)" using inv(6) inv(7) [OF assms(2)] by force
  have "\<Union>(B ` Z) \<union> (A - {(p, k)}) \<union> insert (p, k) E = \<Union>(B ` Z) \<union> A \<union> E" using assms(2) by blast
  then have t: "tiling (all_frames Z st) (\<Union>(B ` Z) \<union> (A - {(p, k)}) \<union> insert (p, k) E)" using inv(2) by simp
  have d: "insert (p, k) E \<inter> (\<Union>(B ` Z) \<union> (A - {(p, k)})) = {}" using inv(4) nf by blast
  have fb: "\<forall>z\<in>Z. \<forall>(q, j) \<in> B z. span (q, j) \<subseteq> frames z st \<and> pg_order st q = int j"
    using inv(5,6) by blast
  have ao: "\<forall>(q, j) \<in> A - {(p, k)}. pg_order st q = - int j - 1" using inv(7) by blast
  have za: "\<forall>b \<in> (A - {(p, k)}) \<union> insert (p, k) E. \<exists>z\<in>Z. span b \<subseteq> frames z st"
    using inv(8) assms(2) by blast
  show ?thesis using inv(1,9) t d fb ao za by (simp add: block_inv_def)
qed

text \<open>Replacing the blocks in hand: by one merged block, or by two halves.\<close>

lemma block_floating:
  assumes "block_inv st Z B A E" and "tiling (all_frames Z st) (\<Union>(B ` Z) \<union> A \<union> E')"
    and "E' \<inter> (\<Union>(B ` Z) \<union> A) = {}" and "\<And>b. b \<in> E' \<Longrightarrow> \<exists>z\<in>Z. span b \<subseteq> frames z st"
  shows "block_inv st Z B A E'"
  using assms(1) unfolding block_inv_def using assms(2-4) by blast

lemma block_merge:
  assumes "block_inv st Z B A (insert (p, k) (insert (buddy_pfn p k, k) E))"
    and "(p, k) \<notin> E" and "(buddy_pfn p k, k) \<notin> E" and "Suc k < MAX_ORDER"
    and "z \<in> Z" and "unat p \<in> frames z st" and "unat (buddy_pfn p k) \<in> frames z st"
  shows "block_inv st Z B A (insert (min p (buddy_pfn p k), Suc k) E)"
    and "(min p (buddy_pfn p k), Suc k) \<notin> E"
proof -
  note inv = block_invD [OF assms(1)]
  let ?b = "buddy_pfn p k" and ?m = "min p (buddy_pfn p k)" and ?O = "\<Union>(B ` Z) \<union> A"
  have k: "Suc k < 32" using assms(4) max_order_32 [of "Suc k"] by simp
  have t: "tiling (all_frames Z st) (insert (p, k) (insert (?b, k) (?O \<union> E)))" using inv(2) by simp
  have ns: "(p, k) \<notin> ?O \<union> E" "(?b, k) \<notin> ?O \<union> E" using inv(4) assms(2,3) by blast+
  have new: "(?m, Suc k) \<notin> ?O \<union> E"
  proof
    assume "(?m, Suc k) \<in> ?O \<union> E"
    then have "(?m, Suc k) \<in> ?O \<union> insert (p, k) (insert (?b, k) E)" by blast
    moreover have "(?m, k) \<in> ?O \<union> insert (p, k) (insert (?b, k) E)" by (simp add: min_def)
    ultimately have "Suc k = k" by (rule blocks_ok_head [OF inv(3)])
    then show False by simp
  qed
  then show "(?m, Suc k) \<notin> E" by simp
  have t': "tiling (all_frames Z st) (?O \<union> insert (?m, Suc k) E)"
    using tiling_merge [OF t assms(4) ns] by simp
  have p: "aligned p k" using blocks_okD(1) [OF inv(3), of p k] by simp
  have in_z: "span (q, j) \<subseteq> frames z st" if "(q, j) = (p, k) \<or> (q, j) = (?b, k)" for q j
  proof -
    have "(q, j) \<in> A \<union> insert (p, k) (insert (?b, k) E)" using that by auto
    from inv(8) [OF this] obtain z' where z': "z' \<in> Z" "span (q, j) \<subseteq> frames z' st" by blast
    moreover have "unat q \<in> frames z st" using that assms(6,7) by blast
    ultimately show ?thesis
      using frames_zone_unique [OF inv(1) z'(1) assms(5), of "unat q"] span_head by blast
  qed
  note mk = aligned_pair [OF p k]
  have "span (?m, Suc k) = span (?m, k) \<union> span (max p ?b, k)"
    using span_halves(1) [OF mk(1)] k unfolding mk(2) by simp
  also have "\<dots> = span (p, k) \<union> span (?b, k)" by (auto simp: min_def max_def)
  finally have "span (?m, Suc k) \<subseteq> frames z st" using in_z by blast
  then have "\<exists>z\<in>Z. span b \<subseteq> frames z st" if "b \<in> insert (?m, Suc k) E" for b
    using that assms(5) inv(8) [of b] by blast
  moreover have "insert (?m, Suc k) E \<inter> ?O = {}" using new inv(4) by blast
  ultimately show "block_inv st Z B A (insert (?m, Suc k) E)"
    using block_floating [OF assms(1) t'] by simp
qed

lemma block_split:
  assumes "block_inv st Z B A (insert (p, Suc k) E)" and "(p, Suc k) \<notin> E"
  shows "block_inv st Z B A (insert (p, k) (insert (buddy_pfn p k, k) E))"
    and "(p, k) \<notin> insert (buddy_pfn p k, k) E" and "(buddy_pfn p k, k) \<notin> E"
    and "\<And>z. z \<in> Z \<Longrightarrow> (buddy_pfn p k, k) \<notin> B z" and "\<And>z. z \<in> Z \<Longrightarrow> (p, k) \<notin> B z"
    and "\<And>z. z \<in> Z \<Longrightarrow> unat p \<in> frames z st \<Longrightarrow> unat (buddy_pfn p k) \<in> frames z st"
proof -
  note inv = block_invD [OF assms(1)]
  let ?b = "buddy_pfn p k" and ?O = "\<Union>(B ` Z) \<union> A"
  have p: "aligned p (Suc k)" "k < 32" using blocks_okD [OF inv(3), of p "Suc k"] by simp_all
  have t: "tiling (all_frames Z st) (insert (p, Suc k) (?O \<union> E))" using inv(2) by simp
  have ns: "(p, Suc k) \<notin> ?O \<union> E" using inv(4) assms(2) by blast
  have t': "tiling (all_frames Z st) (?O \<union> insert (p, k) (insert (?b, k) E))"
    using tiling_split [OF t ns] by simp
  note sp = span_halves(1) [OF p]
  have none: "(q, k) \<notin> ?O \<union> E" if "q = p \<or> q = ?b" for q
  proof
    assume "(q, k) \<in> ?O \<union> E"
    moreover have "span (q, k) \<inter> span (p, Suc k) \<noteq> {}" using that sp span_head [of q k] by blast
    ultimately show False using blocks_ok_disjoint [OF inv(3), of "(q, k)" "(p, Suc k)"] by simp
  qed
  show "(p, k) \<notin> insert (?b, k) E" using none [of p] buddy_neq [OF p(2), of p] by auto
  show "(?b, k) \<notin> E" using none [of ?b] by simp
  show "(?b, k) \<notin> B z" "(p, k) \<notin> B z" if "z \<in> Z" for z using none that by blast+
  obtain z where z: "z \<in> Z" "span (p, Suc k) \<subseteq> frames z st" using inv(8) [of "(p, Suc k)"] by blast
  show "unat ?b \<in> frames z' st" if "z' \<in> Z" "unat p \<in> frames z' st" for z'
  proof -
    have "z' = z" using frames_zone_unique [OF inv(1) that(1) z(1) that(2)] z(2) span_head by blast
    then show ?thesis using z(2) sp span_head [of ?b k] by blast
  qed
  have d: "insert (p, k) (insert (?b, k) E) \<inter> ?O = {}"
    using none [of p] none [of ?b] inv(4) by blast
  have "span (p, k) \<subseteq> frames z st" "span (?b, k) \<subseteq> frames z st" using z(2) unfolding sp by simp_all
  then have "\<exists>z\<in>Z. span b \<subseteq> frames z st" if "b \<in> insert (p, k) (insert (?b, k) E)" for b
    using that z(1) inv(8) [of b] by blast
  from block_floating [OF assms(1) t' d this]
  show "block_inv st Z B A (insert (p, k) (insert (?b, k) E))" .
qed

subsection \<open>The invariant on the state\<close>

definition areas :: "zone_type set \<Rightarrow> page_node set" where
  "areas Z = {Free_area z k | z k. z \<in> Z \<and> k < MAX_ORDER}"

fun area_lists :: "(zone_type \<Rightarrow> nat \<Rightarrow> u32 list) \<Rightarrow> page_node \<Rightarrow> page_node list" where
  "area_lists F (Free_area z k) = map Chain (F z k)"
| "area_lists F (Chain p) = []"

definition zone_blocks :: "(zone_type \<Rightarrow> nat \<Rightarrow> u32 list) \<Rightarrow> zone_type \<Rightarrow> (u32 \<times> nat) set" where
  "zone_blocks F z = {(p, k). k < MAX_ORDER \<and> p \<in> set (F z k)}"

definition page_inv :: "page_state \<Rightarrow> zone_type set \<Rightarrow> (zone_type \<Rightarrow> nat \<Rightarrow> u32 list) \<Rightarrow>
    (u32 \<times> nat) set \<Rightarrow> (u32 \<times> nat) set \<Rightarrow> bool" where
  "page_inv st Z F A E \<longleftrightarrow>
     list_family list_rep (pg_links st) (areas Z) (area_lists F) \<and>
     block_inv st Z (zone_blocks F) A E"

lemma area_lists_upd:
  "area_lists (F(z := (F z)(k := xs))) = (area_lists F)(Free_area z k := map Chain xs)"
  by (rule ext, rename_tac n, case_tac n) auto

lemma remove1_map_Chain: "remove1 (Chain p) (map Chain xs) = map Chain (remove1 p xs)"
  by (induction xs) auto

lemma areas_iff [simp]: "Free_area z k \<in> areas Z \<longleftrightarrow> z \<in> Z \<and> k < MAX_ORDER" "Chain p \<notin> areas Z"
  by (auto simp: areas_def)

lemma chain_in_family:
  "Chain p \<in> family_nodes (areas Z) (area_lists F) \<longleftrightarrow> (\<exists>z\<in>Z. \<exists>k. (p, k) \<in> zone_blocks F z)"
proof -
  have "Chain p \<in> family_nodes (areas Z) (area_lists F) \<longleftrightarrow>
      (\<exists>z k. z \<in> Z \<and> k < MAX_ORDER \<and> Chain p \<in> set (area_lists F (Free_area z k)))"
    unfolding family_nodes_iff areas_def by blast
  then show ?thesis by (auto simp: zone_blocks_def)
qed

lemma page_inv_distinct:
  assumes "page_inv st Z F A E" and "z \<in> Z" and "k < MAX_ORDER"
  shows "distinct (F z k)"
proof -
  have "distinct (map Chain (F z k))"
    using lists.family_distinct [of "pg_links st" "areas Z" "area_lists F" "Free_area z k"] assms
    by (simp add: page_inv_def)
  then show ?thesis by (simp add: distinct_map)
qed

lemma page_take:
  assumes "page_inv st Z F A E" and "z \<in> Z" and "k < MAX_ORDER" and "p \<in> set (F z k)"
  shows "page_inv (links_map (list_remove (Chain p)) st) Z (F(z := (F z)(k := remove1 p (F z k)))) A
    (insert (p, k) E)"
proof -
  let ?F = "F(z := (F z)(k := remove1 p (F z k)))"
  have fam: "list_family list_rep (pg_links st) (areas Z) (area_lists F)"
    using assms(1) by (simp add: page_inv_def)
  have "list_family list_rep (list_remove (Chain p) (pg_links st)) (areas Z) (area_lists ?F)"
    using lists.family_remove [OF fam, of "Free_area z k" "Chain p"] assms(2-4)
    by (simp add: area_lists_upd remove1_map_Chain)
  moreover have "zone_blocks ?F = (zone_blocks F)(z := zone_blocks F z - {(p, k)})"
    using page_inv_distinct [OF assms(1-3)]
    by (auto simp: zone_blocks_def fun_eq_iff set_remove1_eq split: if_splits)
  moreover have "block_inv st Z ((zone_blocks F)(z := zone_blocks F z - {(p, k)})) A (insert (p, k) E)"
    by (rule block_take) (use assms in \<open>simp_all add: page_inv_def zone_blocks_def\<close>)
  ultimately show ?thesis by (simp add: page_inv_def)
qed

lemma page_put:
  assumes "page_inv st Z F A (insert (p, k) E)" and "(p, k) \<notin> E" and "z \<in> Z"
    and "unat p \<in> frames z st" and "Suc k < MAX_ORDER \<Longrightarrow> (buddy_pfn p k, k) \<notin> zone_blocks F z"
  shows "page_inv (links_map (list_insert_before (Free_area z k) (Chain p)) (set_order p (int k) st)) Z
    (F(z := (F z)(k := F z k @ [p]))) A E"
proof -
  let ?F = "F(z := (F z)(k := F z k @ [p]))"
  have fam: "list_family list_rep (pg_links st) (areas Z) (area_lists F)"
    and b: "block_inv st Z (zone_blocks F) A (insert (p, k) E)"
    using assms(1) by (simp_all add: page_inv_def)
  have k: "k < MAX_ORDER" using blocks_okD(2) [OF block_invD(3) [OF b], of p k] by simp
  have "Chain p \<notin> family_nodes (areas Z) (area_lists F)"
    using head_unique_floating(1) [OF b] by (auto simp: chain_in_family)
  from lists.family_ins_before [OF fam _ this, of "Free_area z k"] k assms(3)
  have "list_family list_rep (list_insert_before (Free_area z k) (Chain p) (pg_links st)) (areas Z)
      (area_lists ?F)"
    by (simp add: area_lists_upd)
  moreover have "zone_blocks ?F = (zone_blocks F)(z := insert (p, k) (zone_blocks F z))"
    using k by (auto simp: zone_blocks_def fun_eq_iff split: if_splits)
  ultimately show ?thesis
    using block_put [OF b assms(2-5)] by (simp add: page_inv_def)
qed

lemma page_own:
  "page_inv st Z F A (insert (p, k) E) \<Longrightarrow> (p, k) \<notin> E \<Longrightarrow>
     page_inv (set_order p (- int k - 1) st) Z F (insert (p, k) A) E"
  by (simp add: page_inv_def block_own)

lemma page_disown:
  "page_inv st Z F A E \<Longrightarrow> (p, k) \<in> A \<Longrightarrow> page_inv st Z F (A - {(p, k)}) (insert (p, k) E)"
  by (simp add: page_inv_def block_disown)

subsection \<open>The loops\<close>

definition same_layout :: "page_state \<Rightarrow> page_state \<Rightarrow> bool" where
  "same_layout st st' \<longleftrightarrow> nd_zones st' = nd_zones st \<and> pg_zone st' = pg_zone st \<and>
     pg_slab st' = pg_slab st \<and> nd_start_pfn st' = nd_start_pfn st \<and> nd_pages st' = nd_pages st"

lemma same_layout_refl [simp]: "same_layout st st"
  by (simp add: same_layout_def)

lemma same_layout_steps [simp]:
  "same_layout st (links_map f st') = same_layout st st'"
  "same_layout st (set_order p n st') = same_layout st st'"
  by (simp_all add: same_layout_def)

lemma same_layout_trans: "same_layout a b \<Longrightarrow> same_layout b c \<Longrightarrow> same_layout a c"
  by (simp add: same_layout_def)

lemma same_layout_frames: "same_layout st st' \<Longrightarrow> frames z st' = frames z st"
  by (simp add: same_layout_def frames_def)

lemma page_inv_start: "page_inv st Z F A E \<Longrightarrow> nd_start_pfn st = 0"
  by (simp add: page_inv_def block_inv_def zones_ok_def)

lemma pfn_page_conv:
  "page_inv st Z F A E \<Longrightarrow> page_to_pfn p st = p" "page_inv st Z F A E \<Longrightarrow> pfn_to_page p st = p"
  by (simp_all add: page_to_pfn_def pfn_to_page_def page_inv_start)

text \<open>The test of the loop on the buddy's \<open>order\<close> finds out whether it is a free block of this order.\<close>

lemma buddy_test:
  assumes "page_inv st Z F A {(p, k)}" and "z \<in> Z" and "unat p \<in> frames z st" and "Suc k < MAX_ORDER"
    and "unat (buddy_pfn p k) \<in> frames z st"
  shows "pg_order st (buddy_pfn p k) = int k \<longleftrightarrow> (buddy_pfn p k, k) \<in> zone_blocks F z"
proof
  let ?b = "buddy_pfn p k"
  have b: "block_inv st Z (zone_blocks F) A {(p, k)}" using assms(1) by (simp add: page_inv_def)
  note inv = block_invD [OF b]
  show "pg_order st ?b = int k" if "(?b, k) \<in> zone_blocks F z" using inv(6) [OF assms(2) that] .
  assume o: "pg_order st ?b = int k"
  have U: "unat ?b \<in> all_frames Z st" using assms(2,5) by (auto simp: all_frames_def)
  obtain j where j: "j \<le> k" "(?b, j) \<in> \<Union>(zone_blocks F ` Z) \<union> A \<union> {(p, k)}"
    by (rule buddy_is_head [OF inv(2) _ U assms(4)]) auto
  have "?b \<noteq> p" using buddy_neq [of k p] max_order_32 [of k] assms(4) by simp
  then have "(?b, j) \<notin> {(p, k)}" by simp
  from tile_order_free [OF b j(2) this] o obtain z' where z': "z' \<in> Z" "(?b, j) \<in> zone_blocks F z'" by auto
  have "unat ?b \<in> frames z' st" using inv(5) [OF z'] span_head by blast
  then have "z' = z" using frames_zone_unique [OF inv(1) z'(1) assms(2) _ assms(5)] by blast
  moreover have "j = k" using inv(6) [OF z'] o by simp
  ultimately show "(?b, k) \<in> zone_blocks F z" using z'(2) by simp
qed

lemma free_pages_loop_inv:
  assumes "page_inv st Z F A {(p, k)}" and "z \<in> Z" and "unat p \<in> frames z st"
  shows "\<exists>p' k' st' F'. free_pages_loop z p p k st = (p', k', st') \<and> page_inv st' Z F' A {(p', k')} \<and>
    unat p' \<in> frames z st' \<and> same_layout st st' \<and> k \<le> k' \<and>
    (Suc k' < MAX_ORDER \<longrightarrow> (buddy_pfn p' k', k') \<notin> zone_blocks F' z)"
  using assms
proof (induction "MAX_ORDER - k" arbitrary: p k st F)
  case 0
  then have "free_pages_loop z p p k st = (p, k, st)"
    by (subst free_pages_loop.simps) (simp add: MAX_ORDER_def)
  with 0 show ?case by (intro exI [of _ p] exI [of _ k] exI [of _ st] exI [of _ F]) simp
next
  case (Suc n)
  let ?b = "buddy_pfn p k"
  note inv = Suc.prems(1) and z = Suc.prems(2) and fr = Suc.prems(3)
  have stop: ?case if "free_pages_loop z p p k st = (p, k, st)"
    "Suc k < MAX_ORDER \<Longrightarrow> (?b, k) \<notin> zone_blocks F z"
    using that Suc.prems by (intro exI [of _ p] exI [of _ k] exI [of _ st] exI [of _ F]) simp
  have inz: "unat ?b \<in> frames z st \<longleftrightarrow>
      \<not> (?b \<ge> z_end_pfn (nd_zones st z) \<or> ?b < z_start_pfn (nd_zones st z))"
    by (auto simp: frames_def word_le_nat_alt word_less_nat_alt)
  have blk: "span b \<subseteq> frames z st" if "b \<in> zone_blocks F z" for b
    using inv z that block_invD(5) [of st Z "zone_blocks F" A "{(p, k)}" z "fst b" "snd b"]
    by (simp add: page_inv_def)
  show ?case
  proof (cases "Suc k < MAX_ORDER \<and> unat ?b \<in> frames z st \<and> pg_order st ?b = int k")
    case False
    show ?thesis
    proof (rule stop)
      show "free_pages_loop z p p k st = (p, k, st)"
        using False inz by (subst free_pages_loop.simps) (auto simp: pfn_page_conv [OF inv])
      show "(?b, k) \<notin> zone_blocks F z" if "Suc k < MAX_ORDER"
        using False that buddy_test [OF inv z fr that] blk [of "(?b, k)"] span_head [of ?b k] by blast
    qed
  next
    case True
    let ?st = "links_map (list_remove (Chain ?b)) st" and ?m = "min p ?b"
    let ?F = "F(z := (F z)(k := remove1 ?b (F z k)))"
    have "(?b, k) \<in> zone_blocks F z" using buddy_test [OF inv z fr] True by blast
    then have "page_inv ?st Z ?F A (insert (?b, k) {(p, k)})"
      by (intro page_take [OF inv z]) (simp_all add: zone_blocks_def)
    then have "page_inv ?st Z ?F A (insert (p, k) (insert (?b, k) {}))" by (simp add: insert_commute)
    then have inv': "page_inv ?st Z ?F A {(?m, Suc k)}"
      using block_merge(1) [of ?st Z "zone_blocks ?F" A p k "{}" z] True z fr by (simp add: page_inv_def)
    have step: "free_pages_loop z p p k st = free_pages_loop z ?m ?m (Suc k) ?st"
      using True inz by (subst free_pages_loop.simps)
        (simp add: pfn_page_conv [OF inv] Let_def min_def MAX_ORDER_def flip: not_le)
    have "n = MAX_ORDER - Suc k" using Suc.hyps(2) by simp
    moreover have "unat ?m \<in> frames z ?st" using True fr by (simp add: min_def)
    ultimately show ?thesis using Suc.hyps(1) [OF _ inv' z] step
      by (fastforce simp: same_layout_def)
  qed
qed

lemma find_order_props:
  assumes "page_inv st Z F A E" and "z \<in> Z"
  shows "k \<le> find_order z k st" and "find_order z k st < MAX_ORDER \<Longrightarrow> F z (find_order z k st) \<noteq> []"
    and "\<And>j. k \<le> j \<Longrightarrow> j < MAX_ORDER \<Longrightarrow> j < find_order z k st \<Longrightarrow> F z j = []"
proof -
  have empty: "list_empty (Free_area z j) (pg_links st) \<longleftrightarrow> F z j = []" if "j < MAX_ORDER" for j
    using lists.family_empty_iff [of "pg_links st" "areas Z" "area_lists F" "Free_area z j"] assms that
    by (simp add: page_inv_def)
  have "k \<le> find_order z k st \<and>
      (find_order z k st < MAX_ORDER \<longrightarrow> F z (find_order z k st) \<noteq> []) \<and>
      (\<forall>j. k \<le> j \<longrightarrow> j < MAX_ORDER \<longrightarrow> j < find_order z k st \<longrightarrow> F z j = [])"
  proof (induction "MAX_ORDER - k" arbitrary: k)
    case 0
    then show ?case by (simp add: find_order.simps [of z k])
  next
    case (Suc n)
    from Suc.hyps(2) have k: "k < MAX_ORDER" "n = MAX_ORDER - Suc k" by simp_all
    note IH = Suc.hyps(1) [OF k(2)]
    show ?case
    proof (cases "F z k = []")
      case True
      with k(1) empty have "find_order z k st = find_order z (Suc k) st"
        by (simp add: find_order.simps [of z k])
      with IH True show ?thesis by (metis Suc_leD Suc_leI le_neq_implies_less)
    next
      case False
      with k(1) empty show ?thesis by (simp add: find_order.simps [of z k])
    qed
  qed
  then show "k \<le> find_order z k st" and "find_order z k st < MAX_ORDER \<Longrightarrow> F z (find_order z k st) \<noteq> []"
    and "\<And>j. k \<le> j \<Longrightarrow> j < MAX_ORDER \<Longrightarrow> j < find_order z k st \<Longrightarrow> F z j = []"
    by blast+
qed

lemma split_loop_inv:
  assumes "page_inv st Z F A {(p, c)}" and "z \<in> Z" and "unat p \<in> frames z st" and "k \<le> c"
  shows "\<exists>F'. page_inv (split_loop z p k c st) Z F' A {(p, k)} \<and> same_layout st (split_loop z p k c st)"
  using assms
proof (induction c arbitrary: st F)
  case 0
  then show ?case by (auto simp: split_loop.simps)
next
  case (Suc c)
  let ?b = "buddy_pfn p c"
  let ?st = "links_map (list_insert_before (Free_area z c) (Chain ?b)) (set_order ?b (int c) st)"
  show ?case
  proof (cases "k = Suc c")
    case True
    then have "split_loop z p k (Suc c) st = st" by (subst split_loop.simps) simp
    with Suc.prems(1) True show ?thesis by auto
  next
    case False
    with Suc.prems(4) have k: "k \<le> c" by simp
    note inv = Suc.prems(1)
    have b: "block_inv st Z (zone_blocks F) A (insert (p, Suc c) {})" using inv by (simp add: page_inv_def)
    note sp = block_split [OF b, simplified]
    have "page_inv st Z F A (insert (?b, c) {(p, c)})"
      using sp(1) inv by (simp add: page_inv_def insert_commute)
    then have "page_inv ?st Z (F(z := (F z)(c := F z c @ [?b]))) A {(p, c)}"
      by (rule page_put) (use sp(2,5) sp(6) [OF Suc.prems(2,3)] Suc.prems(2) in auto)
    from Suc.IH [OF this Suc.prems(2) _ k] Suc.prems(3) obtain F' where
      "page_inv (split_loop z p k c ?st) Z F' A {(p, k)}" "same_layout ?st (split_loop z p k c ?st)"
      by auto
    moreover have "split_loop z p k (Suc c) st = split_loop z p k c ?st"
      using k by (simp add: split_loop.simps [of z p k "Suc c"] pfn_page_conv [OF inv] Let_def)
    ultimately show ?thesis by (auto simp: same_layout_def)
  qed
qed

subsection \<open>The operations\<close>

definition owns :: "zone_type set \<Rightarrow> page_state \<Rightarrow> (u32 \<times> nat) set \<Rightarrow> bool" where
  "owns Z st A \<longleftrightarrow> (\<exists>F. page_inv st Z F A {})"

definition free_frames :: "zone_type \<Rightarrow> page_state \<Rightarrow> (u32 \<times> nat) set \<Rightarrow> nat set" where
  "free_frames z st A = frames z st - \<Union>(span ` A)"

lemma zone_blocks_ok:
  assumes "page_inv st Z F A E" and "z \<in> Z"
  shows "blocks_ok (zone_blocks F z)" and "coalesced (zone_blocks F z)"
proof -
  have b: "block_inv st Z (zone_blocks F) A E" using assms(1) by (simp add: page_inv_def)
  show "blocks_ok (zone_blocks F z)"
    by (rule blocks_ok_subset [OF block_invD(3) [OF b]]) (use assms(2) in blast)
  show "coalesced (zone_blocks F z)" by (rule block_invD(9) [OF b assms(2)])
qed

text \<open>The free blocks of a zone hold exactly the frames of the zone that are not handed out.\<close>

lemma free_frames_blocks:
  assumes "page_inv st Z F A {}" and "z \<in> Z"
  shows "\<Union>(span ` zone_blocks F z) = free_frames z st A"
proof -
  have b: "block_inv st Z (zone_blocks F) A {}" using assms(1) by (simp add: page_inv_def)
  note inv = block_invD [OF b]
  have disj: "span b \<inter> span a = {}" if "b \<in> zone_blocks F z" "a \<in> A" for a b
  proof -
    obtain p k where b: "b = (p, k)" by force
    have "b \<notin> A" using inv(6) [OF assms(2), of p k] inv(7) [of p k] that(1) b by force
    with that blocks_ok_disjoint [OF inv(3), of b a] assms(2) show ?thesis by blast
  qed
  have sub: "span b \<subseteq> frames z st" if "b \<in> zone_blocks F z" for b
    using inv(5) [OF assms(2), of "fst b" "snd b"] that by simp
  have other: "x \<notin> frames z st" if "x \<in> span b" "b \<in> zone_blocks F z'" "z' \<in> Z" "z' \<noteq> z" for x b z'
    using inv(5) [OF that(3), of "fst b" "snd b"] that(1,2)
      frames_zone_unique [OF inv(1) that(3) assms(2), of x] that(4) by auto
  have cover: "\<Union>(span ` (\<Union>(zone_blocks F ` Z) \<union> A)) = all_frames Z st"
    using inv(2) by (simp add: tiling_def)
  show ?thesis
  proof
    show "\<Union>(span ` zone_blocks F z) \<subseteq> free_frames z st A"
      unfolding free_frames_def using disj sub by blast
    show "free_frames z st A \<subseteq> \<Union>(span ` zone_blocks F z)"
    proof
      fix x assume x: "x \<in> free_frames z st A"
      then have "x \<in> all_frames Z st" using assms(2) by (auto simp: free_frames_def all_frames_def)
      with x obtain z' b where "z' \<in> Z" "b \<in> zone_blocks F z'" "x \<in> span b"
        unfolding cover [symmetric] by (auto simp: free_frames_def)
      moreover from this have "z' = z" using other [of x b z'] x by (auto simp: free_frames_def)
      ultimately show "x \<in> \<Union>(span ` zone_blocks F z)" by blast
    qed
  qed
qed

lemma free_run_iff:
  assumes "page_inv st Z F A {}" and "z \<in> Z" and "k < MAX_ORDER"
  shows "(\<exists>r. aligned r k \<and> span (r, k) \<subseteq> free_frames z st A) \<longleftrightarrow>
    (\<exists>c. k \<le> c \<and> c < MAX_ORDER \<and> F z c \<noteq> [])"
proof
  note ok = zone_blocks_ok [OF assms(1,2)] and fr = free_frames_blocks [OF assms(1,2)]
  assume "\<exists>r. aligned r k \<and> span (r, k) \<subseteq> free_frames z st A"
  then obtain r where "aligned r k" "span (r, k) \<subseteq> \<Union>(span ` zone_blocks F z)" unfolding fr by blast
  from run_in_block [OF ok this(1) assms(3) this(2)] show "\<exists>c. k \<le> c \<and> c < MAX_ORDER \<and> F z c \<noteq> []"
    by (auto simp: zone_blocks_def)
next
  note ok = zone_blocks_ok [OF assms(1,2)] and fr = free_frames_blocks [OF assms(1,2)]
  assume "\<exists>c. k \<le> c \<and> c < MAX_ORDER \<and> F z c \<noteq> []"
  then obtain c where c: "k \<le> c" "c < MAX_ORDER" "F z c \<noteq> []" by blast
  then have b: "(hd (F z c), c) \<in> zone_blocks F z" by (simp add: zone_blocks_def)
  note a = blocks_okD(1) [OF ok(1) b]
  have "span (hd (F z c), k) \<subseteq> span (hd (F z c), c)"
    using c(1) by (auto simp: span_def intro: less_le_trans [OF _ add_left_mono [OF power_increasing]])
  also have "\<dots> \<subseteq> free_frames z st A" using b fr by blast
  finally show "\<exists>r. aligned r k \<and> span (r, k) \<subseteq> free_frames z st A"
    using aligned_coarser [OF a c(1)] by blast
qed

lemma alloc_pages_node_result:
  assumes "page_inv st Z F A {}" and "z \<in> Z" and "k < MAX_ORDER"
  shows "if \<exists>r. aligned r k \<and> span (r, k) \<subseteq> free_frames z st A
    then \<exists>p st' F'. alloc_pages_node k z st = Inr (Some p, st') \<and> page_inv st' Z F' (insert (p, k) A) {} \<and>
      (p, k) \<notin> A \<and> unat p \<in> frames z st \<and> same_layout st st'
    else alloc_pages_node k z st = Inr (None, st)"
proof -
  let ?c = "find_order z k st"
  note inv = assms(1) and z = assms(2)
  note fo = find_order_props [OF inv z, where k = k]
  have found: "(\<exists>r. aligned r k \<and> span (r, k) \<subseteq> free_frames z st A) \<longleftrightarrow> ?c < MAX_ORDER"
    unfolding free_run_iff [OF assms] using fo by (metis linorder_not_le order.strict_trans1)
  show ?thesis
  proof (cases "?c < MAX_ORDER")
    case False
    with found show ?thesis by (simp add: alloc_pages_node_def Let_def not_less)
  next
    case c: True
    then obtain p ps where F: "F z ?c = p # ps" using fo(2) by (cases "F z ?c") auto
    have b: "block_inv st Z (zone_blocks F) A {}"
      and fam: "list_family list_rep (pg_links st) (areas Z) (area_lists F)"
      using inv by (simp_all add: page_inv_def)
    have "list_first (Free_area z ?c) (pg_links st) = Chain p"
      using lists.family_pop(1) [OF fam, of "Free_area z ?c" "Chain p" "map Chain ps"] z c F by simp
    then have first: "lh_next (pg_links st) (Free_area z ?c) = Chain p" by (simp add: list_first_def)
    let ?st1 = "links_map (list_remove (Chain p)) st"
    let ?st2 = "split_loop z p k ?c ?st1"
    have mem: "(p, ?c) \<in> zone_blocks F z" using c F by (simp add: zone_blocks_def)
    have fr: "unat p \<in> frames z st" using block_invD(5) [OF b z mem] span_head by blast
    have i1: "page_inv ?st1 Z (F(z := (F z)(?c := remove1 p (F z ?c)))) A {(p, ?c)}"
      by (rule page_take [OF inv z c]) (simp add: F)
    from split_loop_inv [OF i1 z _ fo(1)] fr obtain F' where
      i2: "page_inv ?st2 Z F' A {(p, k)}" "same_layout ?st1 ?st2" by auto
    have "page_inv (set_order p (- int k - 1) ?st2) Z F' (insert (p, k) A) {}"
      by (rule page_own) (use i2 in simp_all)
    moreover have "same_layout st (set_order p (- int k - 1) ?st2)"
      using i2(2) by (simp add: same_layout_def)
    moreover have "(p, k) \<notin> A"
      using head_unique_floating(2) [of ?st2 Z "zone_blocks F'" A p k "{}"] i2(1)
      by (auto simp: page_inv_def)
    moreover have "alloc_pages_node k z st = Inr (Some p, set_order p (- int k - 1) ?st2)"
      using c first by (simp add: alloc_pages_node_def Let_def)
    ultimately show ?thesis using found c fr by auto
  qed
qed

text \<open>A block of the order asked for is taken from the front of its free area, without a split.\<close>

lemma alloc_pages_node_first:
  assumes "page_inv st Z F A {}" and "z \<in> Z" and "k < MAX_ORDER" and "F z k = q # qs"
    and "alloc_pages_node k z st = Inr (Some p, st')"
  shows "p = q"
proof -
  note fo = find_order_props [OF assms(1,2), where k = k]
  have c: "find_order z k st = k" using fo(1) fo(3) [of k] assms(3,4) by fastforce
  have "list_family list_rep (pg_links st) (areas Z) (area_lists F)" using assms(1) by (simp add: page_inv_def)
  then have "list_first (Free_area z k) (pg_links st) = Chain q"
    using lists.family_pop(1) [of "pg_links st" "areas Z" "area_lists F" "Free_area z k" "Chain q" "map Chain qs"] assms(2-4) by simp
  with assms(3,5) c show ?thesis by (simp add: alloc_pages_node_def list_first_def)
qed

text \<open>
  With frame 0 handed out, and it alone, frames 2 and 3 are the one free block of order 1, unless the
  last frames of the zone are another: the halves of a larger block are merged.
\<close>

lemma low_pair:
  assumes "page_inv st Z F {(0, 0)} {}" and "z \<in> Z" and "frames z st = {0 ..< m}" and "4 \<le> m" and "m mod 4 < 2"
  shows "(2, 1) \<in> zone_blocks F z" and "(q, 1) \<in> zone_blocks F z \<Longrightarrow> q = 2"
proof -
  note ok = zone_blocks_ok [OF assms(1,2)]
  have cover: "\<Union>(span ` zone_blocks F z) = {1 ..< m}"
    using free_frames_blocks [OF assms(1,2)] by (auto simp: free_frames_def assms(3))
  have in_zone: "span b \<subseteq> {1 ..< m}" if "b \<in> zone_blocks F z" for b using cover that by blast
  have run: "aligned 2 1" "span (2, 1) \<subseteq> \<Union>(span ` zone_blocks F z)"
    using assms(4) unfolding cover by (auto simp: aligned_def span_def)
  from run_in_block [OF ok run(1) _ run(2)] obtain p j where
    p: "(p, j) \<in> zone_blocks F z" "1 \<le> j" "span (2, 1) \<subseteq> span (p, j)" by (auto simp: MAX_ORDER_def)
  have two: "2 \<in> span (p, j)" "3 \<in> span (p, j)" using p(3) by (auto simp: span_def)
  have al: "aligned p j" using blocks_okD(1) [OF ok(1) p(1)] .
  have pos: "0 < unat p" using in_zone [OF p(1)] span_head [of p j] by fastforce
  have "j = 1"
  proof (rule ccontr)
    assume "j \<noteq> 1"
    then have "aligned p 2" using aligned_coarser [OF al, of 2] p(2) by simp
    then have "4 dvd unat p" by (simp add: aligned_def)
    with pos two(1) show False by (auto simp: span_def dvd_def)
  qed
  moreover from this al two pos have "unat p = 2" by (auto simp: aligned_def span_def dvd_def)
  then have "p = 2" by (simp add: word_unat_eq_iff)
  ultimately show "(2, 1) \<in> zone_blocks F z" using p(1) by simp
  assume q: "(q, 1) \<in> zone_blocks F z"
  have qz: "1 \<le> unat q" "unat q + 1 < m" using in_zone [OF q] by (auto simp: span_def subset_iff)
  have "even (unat q)" using blocks_okD(1) [OF ok(1) q] by (simp add: aligned_def)
  show "q = 2"
  proof (rule ccontr)
    assume "q \<noteq> 2"
    then have "unat q \<noteq> 2" by (auto simp: word_unat_eq_iff)
    with \<open>even (unat q)\<close> qz(1) have q4: "4 \<le> unat q" by presburger
    let ?r = "of_nat (4 * (unat q div 4)) :: u32"
    have "4 * (unat q div 4) \<le> unat q" by simp
    also have "unat q < 2 ^ LENGTH(32)" by (rule unsigned_less)
    finally have "4 * (unat q div 4) < 2 ^ LENGTH(32)" .
    then have r: "unat ?r = 4 * (unat q div 4)" by (simp only: unsigned_of_nat take_bit_nat_eq_self of_nat_id)
    have fits: "4 * (unat q div 4) + 4 \<le> m" using qz(2) assms(5) \<open>even (unat q)\<close> by presburger
    have "aligned ?r 2" unfolding aligned_def r by simp
    moreover have "span (?r, 2) \<subseteq> \<Union>(span ` zone_blocks F z)"
      using fits q4 unfolding cover span_def fst_conv snd_conv r by auto
    ultimately obtain p' j' where b: "(p', j') \<in> zone_blocks F z" "2 \<le> j'" "span (?r, 2) \<subseteq> span (p', j')"
      using run_in_block [OF ok, of ?r 2] by (auto simp: MAX_ORDER_def)
    have "unat q \<in> span (?r, 2)" unfolding span_def fst_conv snd_conv r by simp
    then have "unat q \<in> span (p', j')" using b(3) by blast
    with blocks_ok_disjoint [OF ok(1) b(1) q] b(2) span_head [of q 1] show False by fastforce
  qed
qed

text \<open>
  Freeing writes the field \<open>order\<close> of one page only, the head of the merged block: the head of a block
  that was merged into its lower buddy keeps the negative order of the time it was handed out.
\<close>

lemma free_pages_loop_order:
  "pg_order (snd (snd (free_pages_loop z p pfn k st))) = pg_order st"
proof (induction z p pfn k st rule: free_pages_loop.induct)
  case (1 z p pfn k st)
  then show ?case by (subst free_pages_loop.simps) (simp add: Let_def)
qed

lemma free_pages_merged:
  assumes "page_inv st Z F A {}" and "(p, k) \<in> A"
  shows "\<exists>st' F' z p' k'. free_pages p k st = Inr st' \<and> page_inv st' Z F' (A - {(p, k)}) {} \<and>
    same_layout st st' \<and> z \<in> Z \<and> (p', k') \<in> zone_blocks F' z \<and>
    pg_order st' = (pg_order st)(p' := int k')"
proof -
  note inv = assms(1)
  have b: "block_inv st Z (zone_blocks F) A {}" using inv by (simp add: page_inv_def)
  note bi = block_invD [OF b]
  have o: "pg_order st p = - int k - 1" using bi(7) [OF assms(2)] .
  obtain z where z: "z \<in> Z" "span (p, k) \<subseteq> frames z st" using bi(8) [of "(p, k)"] assms(2) by blast
  then have fr: "unat p \<in> frames z st" using span_head by blast
  then have pz: "pg_zone st p = z" using zone_of_frame [OF bi(1) z(1)] by blast
  have i1: "page_inv st Z F (A - {(p, k)}) {(p, k)}" using page_disown [OF inv assms(2)] by simp
  from free_pages_loop_inv [OF i1 z(1) fr] obtain p' k' st' F' where
    l: "free_pages_loop z p p k st = (p', k', st')" "page_inv st' Z F' (A - {(p, k)}) {(p', k')}"
      "unat p' \<in> frames z st'" "same_layout st st'"
      "Suc k' < MAX_ORDER \<Longrightarrow> (buddy_pfn p' k', k') \<notin> zone_blocks F' z"
    by blast
  let ?st = "links_map (list_insert_before (Free_area z k') (Chain p')) (set_order p' (int k') st')"
    and ?F = "F'(z := (F' z)(k' := F' z k' @ [p']))"
  have "page_inv ?st Z ?F (A - {(p, k)}) {}"
    by (rule page_put [OF _ _ z(1)]) (use l in auto)
  moreover have "free_pages p k st = Inr ?st"
    using o l(1) by (simp add: free_pages_def free_pages_node_def page_zone_def pz pfn_page_conv [OF inv])
  moreover have "k' < MAX_ORDER"
    using l(2) by (auto simp: page_inv_def dest!: block_invD(3) blocks_okD(2) [of _ p' k'])
  then have "(p', k') \<in> zone_blocks ?F z" by (simp add: zone_blocks_def)
  moreover have "same_layout st ?st" "pg_order ?st = (pg_order st)(p' := int k')"
    using l(4) free_pages_loop_order [of z p p k st] l(1) by simp_all
  ultimately show ?thesis using z(1) by blast
qed

lemma free_pages_result:
  assumes "page_inv st Z F A {}" and "(p, k) \<in> A"
  shows "\<exists>st' F'. free_pages p k st = Inr st' \<and> page_inv st' Z F' (A - {(p, k)}) {} \<and> same_layout st st'"
  using free_pages_merged [OF assms] by blast

text \<open>The free blocks depend on the zones and the owned blocks only, not on the history.\<close>

lemma free_blocks_determined:
  assumes "page_inv st Z F A {}" and "page_inv st' Z F' A {}" and "same_layout st st'" and "z \<in> Z"
  shows "zone_blocks F z = zone_blocks F' z"
proof -
  have "free_frames z st A = free_frames z st' A"
    using assms(3) by (simp add: free_frames_def same_layout_frames)
  then have "\<Union>(span ` zone_blocks F z) = \<Union>(span ` zone_blocks F' z)"
    using free_frames_blocks [OF assms(1,4)] free_frames_blocks [OF assms(2,4)] by simp
  then show ?thesis
    using zone_blocks_ok [OF assms(1,4)] zone_blocks_ok [OF assms(2,4)]
    by (intro equalityI coalesced_unique) simp_all
qed

subsection \<open>The contract of the allocator\<close>

text \<open>
  The interface that the slab caches and the kernel stack rely on: a block that is handed out is
  new and stays out of the way of all others until it is released, a failed request changes nothing.
\<close>

locale block_allocator =
  fixes alloc :: "nat \<Rightarrow> 's \<Rightarrow> (u32 option \<times> 's) outcome"
    and release :: "u32 \<Rightarrow> nat \<Rightarrow> 's \<Rightarrow> 's outcome"
    and held :: "'s \<Rightarrow> (u32 \<times> nat) set \<Rightarrow> bool"
  assumes held_ok: "held s A \<Longrightarrow> blocks_ok A"
    and alloc_total: "held s A \<Longrightarrow> k < MAX_ORDER \<Longrightarrow> \<exists>r s'. alloc k s = Inr (r, s')"
    and alloc_some: "held s A \<Longrightarrow> k < MAX_ORDER \<Longrightarrow> alloc k s = Inr (Some p, s') \<Longrightarrow>
      (p, k) \<notin> A \<and> held s' (insert (p, k) A)"
    and alloc_none: "held s A \<Longrightarrow> k < MAX_ORDER \<Longrightarrow> alloc k s = Inr (None, s') \<Longrightarrow> s' = s"
    and release_ok: "held s A \<Longrightarrow> (p, k) \<in> A \<Longrightarrow> \<exists>s'. release p k s = Inr s' \<and> held s' (A - {(p, k)})"
begin

lemma alloc_fresh:
  assumes "held s A" and "k < MAX_ORDER" and "alloc k s = Inr (Some p, s')" and "b \<in> A"
  shows "span (p, k) \<inter> span b = {}"
proof -
  from alloc_some [OF assms(1-3)] have n: "(p, k) \<notin> A" and h: "held s' (insert (p, k) A)" by simp_all
  from n assms(4) have "(p, k) \<noteq> b" by blast
  with blocks_ok_disjoint [OF held_ok [OF h], of "(p, k)" b] assms(4) show ?thesis by blast
qed

lemma alloc_aligned:
  assumes "held s A" and "k < MAX_ORDER" and "alloc k s = Inr (Some p, s')"
  shows "aligned p k"
  using blocks_okD(1) [OF held_ok, of s' "insert (p, k) A" p k] alloc_some [OF assms] by simp

lemma alloc_release:
  assumes "held s A" and "k < MAX_ORDER" and "alloc k s = Inr (Some p, s')"
  shows "\<exists>s''. release p k s' = Inr s'' \<and> held s'' A"
  using release_ok [of s' "insert (p, k) A" p k] alloc_some [OF assms] by auto

end

lemma owns_blocks_ok: "owns Z st A \<Longrightarrow> blocks_ok A"
  unfolding owns_def page_inv_def by (auto intro: blocks_ok_subset [OF block_invD(3)])

lemma owned_in_zone:
  assumes "owns Z st A" and "(p, k) \<in> A" and "z \<in> Z" and "unat p \<in> frames z st"
  shows "span (p, k) \<subseteq> frames z st"
proof -
  from assms(1) obtain F where b: "block_inv st Z (zone_blocks F) A {}" by (auto simp: owns_def page_inv_def)
  note inv = block_invD [OF b]
  from inv(8) [of "(p, k)"] assms(2) obtain z' where z': "z' \<in> Z" "span (p, k) \<subseteq> frames z' st" by blast
  then have "z' = z" using frames_zone_unique [OF inv(1) z'(1) assms(3) _ assms(4)] span_head by blast
  with z' show ?thesis by simp
qed

lemma normal_flag: "ALLOC_NORMAL AND ALLOC_NORMAL \<noteq> 0"
  by (simp add: ALLOC_NORMAL_def BITUL_def)

lemma alloc_pages_normal:
  "k < MAX_ORDER \<Longrightarrow> f AND ALLOC_NORMAL \<noteq> 0 \<Longrightarrow> alloc_pages k f st = alloc_pages_node k ZONE_NORMAL st"
  by (simp add: alloc_pages_def)

lemma alloc_pages_result:
  assumes "owns Z st A" and "ZONE_NORMAL \<in> Z" and "k < MAX_ORDER" and "f AND ALLOC_NORMAL \<noteq> 0"
  shows "if \<exists>r. aligned r k \<and> span (r, k) \<subseteq> free_frames ZONE_NORMAL st A
    then \<exists>p st'. alloc_pages k f st = Inr (Some p, st') \<and> owns Z st' (insert (p, k) A) \<and>
      (p, k) \<notin> A \<and> unat p \<in> frames ZONE_NORMAL st \<and> same_layout st st'
    else alloc_pages k f st = Inr (None, st)"
proof -
  from assms(1) obtain F where "page_inv st Z F A {}" by (auto simp: owns_def)
  from alloc_pages_node_result [OF this assms(2,3)] show ?thesis
    unfolding alloc_pages_normal [OF assms(3,4)] owns_def by (auto split: if_splits)
qed

interpretation pages: block_allocator
  "\<lambda>k. alloc_pages k ALLOC_NORMAL" free_pages "owns {ZONE_NORMAL, ZONE_HIGH}"
proof
  fix s A k p s'
  let ?owns = "owns {ZONE_NORMAL, ZONE_HIGH}"
  show "?owns s A \<Longrightarrow> blocks_ok A" by (rule owns_blocks_ok)
  assume own: "?owns s A"
  show "\<exists>s'. free_pages p k s = Inr s' \<and> ?owns s' (A - {(p, k)})" if "(p, k) \<in> A"
    using own free_pages_result [OF _ that] unfolding owns_def by blast
  assume k: "k < MAX_ORDER"
  note r = alloc_pages_result [OF own _ k normal_flag]
  show "\<exists>r s'. alloc_pages k ALLOC_NORMAL s = Inr (r, s')" using r by (auto split: if_splits)
  show "(p, k) \<notin> A \<and> ?owns s' (insert (p, k) A)" if "alloc_pages k ALLOC_NORMAL s = Inr (Some p, s')"
    using r that by (auto split: if_splits)
  show "s' = s" if "alloc_pages k ALLOC_NORMAL s = Inr (None, s')"
    using r that by (auto split: if_splits)
qed

subsection \<open>Histories\<close>

text \<open>
  One call of a client that keeps the blocks it got (\<open>A\<close>) and gives back only blocks it has, with
  the order it asked for.
\<close>

inductive page_step ::
  "page_state \<times> (u32 \<times> nat) set \<Rightarrow> page_state \<times> (u32 \<times> nat) set \<Rightarrow> bool" where
  step_alloc: "alloc_pages k f st = Inr (Some p, st') \<Longrightarrow> page_step (st, A) (st', insert (p, k) A)"
| step_fail: "alloc_pages k f st = Inr (None, st') \<Longrightarrow> page_step (st, A) (st', A)"
| step_free: "(p, k) \<in> A \<Longrightarrow> free_pages p k st = Inr st' \<Longrightarrow> page_step (st, A) (st', A - {(p, k)})"

inductive_cases page_stepE: "page_step (st, A) c"

lemma alloc_pages_guards:
  "alloc_pages k f st = Inr r \<Longrightarrow> k < MAX_ORDER \<and> f AND ALLOC_NORMAL \<noteq> 0"
  by (auto simp: alloc_pages_def bind_outcome_Inr_iff)

lemma page_step_owns:
  assumes "page_step (st, A) (st', A')" and "owns Z st A" and "ZONE_NORMAL \<in> Z"
  shows "owns Z st' A' \<and> same_layout st st'"
  using assms(1)
proof (rule page_stepE)
  fix k f st1 p assume "(st', A') = (st1, insert (p, k) A)" "alloc_pages k f st = Inr (Some p, st1)"
  then show ?thesis
    using alloc_pages_result [OF assms(2,3), of k f] alloc_pages_guards [of k f st] by (auto split: if_splits)
next
  fix k f st1 assume "(st', A') = (st1, A)" "alloc_pages k f st = Inr (None, st1)"
  then show ?thesis
    using alloc_pages_result [OF assms(2,3), of k f] alloc_pages_guards [of k f st] assms(2)
    by (auto split: if_splits)
next
  fix p k st1 assume "(st', A') = (st1, A - {(p, k)})" "(p, k) \<in> A" "free_pages p k st = Inr st1"
  then show ?thesis
    using free_pages_result [of st Z _ A p k] assms(2) unfolding owns_def by fastforce
qed

lemma page_steps_owns:
  assumes "page_step\<^sup>*\<^sup>* c c'" and "owns Z (fst c) (snd c)" and "ZONE_NORMAL \<in> Z"
  shows "owns Z (fst c') (snd c') \<and> same_layout (fst c) (fst c')"
  using assms(1)
proof (induction rule: rtranclp_induct)
  case base
  then show ?case using assms(2) by simp
next
  case (step d e)
  then show ?case
    using page_step_owns [of "fst d" "snd d" "fst e" "snd e" Z] assms(3) same_layout_trans
    by (cases d; cases e) auto
qed

subsection \<open>A small system\<close>

text \<open>Eight frames: 0 to 3 and 4 to 5 are free blocks, 6 to 7 are handed out.\<close>

definition sample_links :: "page_node \<Rightarrow> page_node" where
  "sample_links = id(Free_area ZONE_NORMAL 2 := Chain 0, Chain 0 := Free_area ZONE_NORMAL 2,
     Free_area ZONE_NORMAL 1 := Chain 4, Chain 4 := Free_area ZONE_NORMAL 1)"

definition sample_pages :: page_state where
  "sample_pages = \<lparr>pg_links = \<lparr>lh_next = sample_links, lh_prev = sample_links\<rparr>,
     pg_order = (\<lambda>_. -1)(0 := 2, 4 := 1, 6 := -2), pg_zone = (\<lambda>p. if p < 8 then ZONE_NORMAL else ZONE_HIGH),
     pg_slab = (\<lambda>_. 0),
     nd_zones = (\<lambda>z. case z of ZONE_NORMAL \<Rightarrow> \<lparr>z_start_pfn = 0, z_end_pfn = 8\<rparr> | ZONE_HIGH \<Rightarrow> \<lparr>z_start_pfn = 8, z_end_pfn = 8\<rparr>),
     nd_start_pfn = 0, nd_end_pfn = 8, nd_pages = 0xC0001000\<rparr>"

definition sample_free :: "zone_type \<Rightarrow> nat \<Rightarrow> u32 list" where
  "sample_free = (\<lambda>_ _. [])(ZONE_NORMAL := (\<lambda>_. [])(2 := [0], 1 := [4]))"

lemma sample_blocks:
  "zone_blocks sample_free ZONE_NORMAL = {(0, 2), (4, 1)}" "zone_blocks sample_free ZONE_HIGH = {}"
  by (auto simp: zone_blocks_def sample_free_def MAX_ORDER_def split: if_splits)

lemma sample_frames: "frames ZONE_NORMAL sample_pages = {0..<8}" "frames ZONE_HIGH sample_pages = {}"
  by (simp_all add: frames_def sample_pages_def)

lemma sample_spans: "span (0, 2) = {0..<4}" "span (4, Suc 0) = {4..<6}" "span (6, Suc 0) = {6..<8}"
  by (simp_all add: span_def)

lemma sample_lists: "list_family list_rep (pg_links sample_pages) (areas Z) (area_lists sample_free)"
proof -
  have "list_rep (pg_links sample_pages) (Free_area z k) (area_lists sample_free (Free_area z k))" for z k
    by (auto simp: sample_pages_def sample_links_def sample_free_def list_rep_def)
  moreover have "disjoint_lists (areas Z) (area_lists sample_free)"
    by (auto simp: disjoint_lists_def areas_def sample_free_def split: if_splits)
  ultimately show ?thesis by (auto simp: list_family_def areas_def)
qed

lemma sample_owns: "owns {ZONE_NORMAL, ZONE_HIGH} sample_pages {(6, 1)}"
proof -
  have z: "zones_ok {ZONE_NORMAL, ZONE_HIGH} sample_pages"
    by (auto simp: zones_ok_def sample_frames) (auto simp: sample_pages_def word_less_nat_alt)
  have ok: "blocks_ok {(6, 1), (0, 2), (4, 1)}"
    by (auto simp: blocks_ok_def sample_spans aligned_def MAX_ORDER_def)
  have "{6..<8} \<union> ({0..<4} \<union> {4..<6}) = {0..<8::nat}" by auto
  then have "tiling {0..<8} {(6, 1), (0, 2), (4, 1)}"
    using ok by (simp add: tiling_def sample_spans)
  then have "block_inv sample_pages {ZONE_NORMAL, ZONE_HIGH} (zone_blocks sample_free) {(6, 1)} {}"
    using z by (simp add: block_inv_def sample_blocks sample_frames all_frames_def sample_spans)
      (simp add: sample_pages_def coalesced_def buddy_pfn_def)
  then show ?thesis unfolding owns_def page_inv_def using sample_lists by blast
qed

subsection \<open>Properties\<close>

text \<open>
  C1: \<open>alloc_pages\<close> is exact. An order of \<open>MAX_ORDER\<close> or more, or flags without \<open>ALLOC_NORMAL\<close>, stop it
  at the assertion of that. Otherwise it succeeds if and only if the normal zone has an aligned run of \<open>2 ^ order\<close> frames that are not handed out
  (fragmentation never hides one), and then returns an aligned block of free frames of that zone
  and leaves a state in which exactly that block is handed out in addition. Otherwise it returns
  null and changes nothing.
\<close>

theorem alloc_pages_exact:
  assumes "owns Z st A" and "ZONE_NORMAL \<in> Z"
  shows "if MAX_ORDER \<le> k then alloc_pages k f st = Inl (Panic ''Too large allocation size'')
    else if f AND ALLOC_NORMAL = 0
    then alloc_pages k f st = Inl (Panic ''Only ZONE_NORMAL allocations are supported'')
    else if \<exists>r. aligned r k \<and> span (r, k) \<subseteq> free_frames ZONE_NORMAL st A
    then \<exists>p st'. alloc_pages k f st = Inr (Some p, st') \<and> aligned p k \<and>
      span (p, k) \<subseteq> free_frames ZONE_NORMAL st A \<and> owns Z st' (insert (p, k) A)
    else alloc_pages k f st = Inr (None, st)"
proof -
  consider "MAX_ORDER \<le> k \<or> f AND ALLOC_NORMAL = 0"
    | "k < MAX_ORDER" "f AND ALLOC_NORMAL \<noteq> 0" "\<not> (\<exists>r. aligned r k \<and> span (r, k) \<subseteq> free_frames ZONE_NORMAL st A)"
    | "k < MAX_ORDER" "f AND ALLOC_NORMAL \<noteq> 0" "\<exists>r. aligned r k \<and> span (r, k) \<subseteq> free_frames ZONE_NORMAL st A"
    using leI by blast
  then show ?thesis
  proof cases
    case 1
    then show ?thesis by (auto simp: alloc_pages_def)
  next
    case 2
    with alloc_pages_result [OF assms 2(1,2)] show ?thesis by simp
  next
    case 3
    with alloc_pages_result [OF assms 3(1,2)] obtain p st' where p: "alloc_pages k f st = Inr (Some p, st')"
      "owns Z st' (insert (p, k) A)" "(p, k) \<notin> A" "unat p \<in> frames ZONE_NORMAL st" "same_layout st st'"
      by auto
    note ok = owns_blocks_ok [OF p(2)]
    have "span (p, k) \<inter> span b = {}" if "b \<in> A" for b
      using blocks_ok_disjoint [OF ok, of "(p, k)" b] that p(3) by blast
    moreover have "span (p, k) \<subseteq> frames ZONE_NORMAL st"
      using owned_in_zone [OF p(2) _ assms(2), of p k] p(4,5) by (simp add: same_layout_frames)
    ultimately have "span (p, k) \<subseteq> free_frames ZONE_NORMAL st A" by (auto simp: free_frames_def)
    with 3 p blocks_okD(1) [OF ok, of p k] show ?thesis by auto
  qed
qed

theorem alloc_pages_exact_witness:
  "\<exists>p st'. alloc_pages 2 ALLOC_NORMAL sample_pages = Inr (Some p, st') \<and> aligned p 2 \<and>
     span (p, 2) \<subseteq> free_frames ZONE_NORMAL sample_pages {(6, 1)} \<and>
     owns {ZONE_NORMAL, ZONE_HIGH} st' (insert (p, 2) {(6, 1)})"
proof -
  have "aligned 0 2 \<and> span (0, 2) \<subseteq> free_frames ZONE_NORMAL sample_pages {(6, 1)}"
    by (simp add: aligned_def free_frames_def sample_frames sample_spans) auto
  then have ex: "\<exists>r. aligned r 2 \<and> span (r, 2) \<subseteq> free_frames ZONE_NORMAL sample_pages {(6, 1)}" by blast
  have z: "ZONE_NORMAL \<in> {ZONE_NORMAL, ZONE_HIGH}" and k: "\<not> MAX_ORDER \<le> 2" by (simp_all add: MAX_ORDER_def)
  from alloc_pages_exact [OF sample_owns z, of 2 ALLOC_NORMAL] show ?thesis
    unfolding if_not_P [OF k] if_not_P [OF normal_flag] if_P [OF ex] .
qed

text \<open>
  C2: \<open>free_pages\<close> of a block that is handed out, with its order, never stops at the assertion and
  leaves a state in which exactly that block is no longer handed out: the invariant holds again, so
  the freed frames are in the free areas, merged with every free buddy up to \<open>MAX_ORDER - 1\<close>, and no
  other block, zone or page field of the clients is touched.
\<close>

theorem free_pages_exact:
  assumes "owns Z st A" and "(p, k) \<in> A"
  shows "\<exists>st' F. free_pages p k st = Inr st' \<and> page_inv st' Z F (A - {(p, k)}) {} \<and>
    (\<forall>z\<in>Z. coalesced (zone_blocks F z) \<and>
      \<Union>(span ` zone_blocks F z) = free_frames z st (A - {(p, k)})) \<and> same_layout st st'"
proof -
  from assms(1) obtain F where "page_inv st Z F A {}" by (auto simp: owns_def)
  from free_pages_result [OF this assms(2)] obtain st' F' where
    f: "free_pages p k st = Inr st'" "page_inv st' Z F' (A - {(p, k)}) {}" "same_layout st st'" by blast
  moreover have "free_frames z st' B = free_frames z st B" for z B
    using f(3) by (simp add: free_frames_def same_layout_frames)
  ultimately show ?thesis
    using zone_blocks_ok(2) [OF f(2)] free_frames_blocks [OF f(2)] by fastforce
qed

theorem free_pages_exact_witness:
  "\<exists>st' F. free_pages 6 1 sample_pages = Inr st' \<and>
     page_inv st' {ZONE_NORMAL, ZONE_HIGH} F ({(6, 1)} - {(6, 1)}) {} \<and>
     \<Union>(span ` zone_blocks F ZONE_NORMAL) = free_frames ZONE_NORMAL sample_pages ({(6, 1)} - {(6, 1)})"
  using free_pages_exact [OF sample_owns, of 6 1] by auto

text \<open>
  C3: the state of the free areas is a function of what is handed out. After any history of
  allocations, failed allocations and frees that ends with the same blocks handed out as at the
  start, every free area holds the same blocks as at the start; in particular an allocation followed
  by its free undoes all splitting. During the history the blocks handed out never overlap.
\<close>

theorem page_history:
  assumes "page_inv st Z F A {}" and "ZONE_NORMAL \<in> Z" and "page_step\<^sup>*\<^sup>* (st, A) (st', A')"
  shows "blocks_ok A' \<and> (\<exists>F'. page_inv st' Z F' A' {} \<and>
    (A' = A \<longrightarrow> (\<forall>z\<in>Z. \<forall>k < MAX_ORDER. set (F' z k) = set (F z k))))"
proof -
  have "owns Z st' A'" "same_layout st st'"
    using page_steps_owns [OF assms(3) _ assms(2)] assms(1) by (auto simp: owns_def)
  then obtain F' where F': "page_inv st' Z F' A' {}" "same_layout st st'" "blocks_ok A'"
    using owns_blocks_ok by (auto simp: owns_def)
  have "set (F' z k) = set (F z k)" if "A' = A" "z \<in> Z" "k < MAX_ORDER" for z k
  proof -
    have "zone_blocks F z = zone_blocks F' z"
      using free_blocks_determined [OF assms(1) F'(1) [unfolded that(1)] F'(2) that(2)] .
    then show ?thesis using that(3) by (auto simp: zone_blocks_def set_eq_iff)
  qed
  with F' show ?thesis by blast
qed

theorem page_history_witness:
  "\<exists>st' F'. page_step\<^sup>*\<^sup>* (sample_pages, {(6, 1)}) (st', {}) \<and>
     page_inv st' {ZONE_NORMAL, ZONE_HIGH} F' {} {}"
proof -
  obtain F where F: "page_inv sample_pages {ZONE_NORMAL, ZONE_HIGH} F {(6, 1)} {}"
    using sample_owns by (auto simp: owns_def)
  from free_pages_result [OF this, of 6 1] obtain st' where "free_pages 6 1 sample_pages = Inr st'" by auto
  then have "page_step (sample_pages, {(6, 1)}) (st', {(6, 1)} - {(6, 1)})" by (intro step_free) simp_all
  then have s: "page_step\<^sup>*\<^sup>* (sample_pages, {(6, 1)}) (st', {})" by auto
  with page_history [OF F _ this] show ?thesis by auto
qed

text \<open>
  C40: which wrong frees the assertion of \<open>free_pages\<close> stops, and which it does not. A block that is
  handed out is rejected with every other order, and the head of a block that is free now is rejected
  with every order. A double free of a block, though, is stopped if and only if the block is still
  the head of a free block after the first free: where that merged it into its lower buddy, the field
  \<open>order\<close> of its first page stays negative, and the second free of the frames, which are free already,
  goes through.
\<close>

theorem free_pages_rejects:
  assumes "page_inv st Z F A {}" and "(p, k) \<in> A"
  shows "(\<forall>j. j \<noteq> k \<longrightarrow> free_pages p j st = Inl (Panic ''Freeing pages with wrong order'')) \<and>
    (\<forall>z\<in>Z. \<forall>(q, i)\<in>zone_blocks F z. \<forall>j.
       free_pages q j st = Inl (Panic ''Freeing pages with wrong order'')) \<and>
    (\<exists>st1 F1. free_pages p k st = Inr st1 \<and> page_inv st1 Z F1 (A - {(p, k)}) {} \<and>
       (if \<exists>z\<in>Z. \<exists>i. (p, i) \<in> zone_blocks F1 z
        then \<forall>j. free_pages p j st1 = Inl (Panic ''Freeing pages with wrong order'')
        else \<exists>st2. free_pages p k st1 = Inr st2))"
proof -
  have stop: "free_pages q j st' = Inl (Panic ''Freeing pages with wrong order'')"
    if "page_inv st' Z F' B {}" "z \<in> Z" "(q, i) \<in> zone_blocks F' z" for st' F' B z q i j
    using block_invD(6) [of st' Z "zone_blocks F'" B "{}" z q i] that
    by (simp add: free_pages_def page_inv_def)
  have o: "pg_order st p = - int k - 1"
    using assms block_invD(7) [of st Z "zone_blocks F" A "{}" p k] by (simp add: page_inv_def)
  from free_pages_merged [OF assms] obtain st1 F1 z p' k' where f: "free_pages p k st = Inr st1"
    "page_inv st1 Z F1 (A - {(p, k)}) {}" "z \<in> Z" "(p', k') \<in> zone_blocks F1 z"
    "pg_order st1 = (pg_order st)(p' := int k')" by blast
  have "\<exists>st2. free_pages p k st1 = Inr st2" if "\<not> (\<exists>z\<in>Z. \<exists>i. (p, i) \<in> zone_blocks F1 z)"
  proof -
    have "p \<noteq> p'" using that f(3,4) by blast
    then show ?thesis using f(5) o by (simp add: free_pages_def)
  qed
  with stop [OF f(2)] f(1,2) have "\<exists>st1 F1. free_pages p k st = Inr st1 \<and>
      page_inv st1 Z F1 (A - {(p, k)}) {} \<and>
      (if \<exists>z\<in>Z. \<exists>i. (p, i) \<in> zone_blocks F1 z
       then \<forall>j. free_pages p j st1 = Inl (Panic ''Freeing pages with wrong order'')
       else \<exists>st2. free_pages p k st1 = Inr st2)" by (intro exI [of _ st1] exI [of _ F1]) auto
  moreover have "\<forall>j. j \<noteq> k \<longrightarrow> free_pages p j st = Inl (Panic ''Freeing pages with wrong order'')"
    using o by (simp add: free_pages_def)
  ultimately show ?thesis using stop [OF assms(1)] by blast
qed

text \<open>
  In the small system frames 6 and 7 are merged into the free block at frame 4 and that into the one
  at frame 0: freeing them a second time is not noticed.
\<close>

theorem free_pages_rejects_witness:
  "free_pages 6 0 sample_pages = Inl (Panic ''Freeing pages with wrong order'') \<and>
   (\<exists>st1 st2. free_pages 6 1 sample_pages = Inr st1 \<and> owns {ZONE_NORMAL, ZONE_HIGH} st1 {} \<and>
     free_pages 6 1 st1 = Inr st2)"
proof -
  let ?Z = "{ZONE_NORMAL, ZONE_HIGH}"
  obtain F where F: "page_inv sample_pages ?Z F {(6, 1)} {}"
    using sample_owns by (auto simp: owns_def)
  from free_pages_result [OF F, of 6 1] have lay: "\<And>st1. free_pages 6 1 sample_pages = Inr st1 \<Longrightarrow>
    same_layout sample_pages st1" by auto
  have head: "\<not> (\<exists>z\<in>?Z. \<exists>i. (6, i) \<in> zone_blocks F1 z)"
    if f: "free_pages 6 1 sample_pages = Inr st1" "page_inv st1 ?Z F1 {} {}" for st1 F1
  proof -
    note fr = same_layout_frames [OF lay [OF f(1)]]
    have u: "\<Union>(span ` zone_blocks F1 ZONE_NORMAL) = {0..<8}" "\<Union>(span ` zone_blocks F1 ZONE_HIGH) = {}"
      using free_frames_blocks [OF f(2), of ZONE_NORMAL] free_frames_blocks [OF f(2), of ZONE_HIGH]
      by (simp_all add: free_frames_def fr sample_frames)
    have "blocks_ok {(0, 3)}" "coalesced {(0 :: u32, 3)}"
      by (auto simp: blocks_ok_def aligned_def MAX_ORDER_def coalesced_def buddy_pfn_def)
    moreover have "span (0, 3) = {0..<8}" by (simp add: span_def)
    ultimately have "zone_blocks F1 ZONE_NORMAL \<subseteq> {(0, 3)}"
      using zone_blocks_ok [OF f(2), of ZONE_NORMAL] u(1)
      by (intro coalesced_unique) simp_all
    moreover have "zone_blocks F1 ZONE_HIGH = {}" 
      using u(2) by (auto simp: span_def)
    ultimately show ?thesis by auto
  qed
  have "(6, 1) \<in> {(6 :: u32, 1 :: nat)}" by simp
  note rej = free_pages_rejects [OF F this]
  from conjunct2 [OF conjunct2 [OF rej]] obtain st1 F1 where f: "free_pages 6 1 sample_pages = Inr st1" "page_inv st1 ?Z F1 {} {}"
    "if \<exists>z\<in>?Z. \<exists>i. (6, i) \<in> zone_blocks F1 z
     then \<forall>j. free_pages 6 j st1 = Inl (Panic ''Freeing pages with wrong order'')
     else \<exists>st2. free_pages 6 1 st1 = Inr st2"
    unfolding Diff_cancel by (elim exE conjE)
  from f(3) have "\<exists>st2. free_pages 6 1 st1 = Inr st2" unfolding if_not_P [OF head [OF f(1,2)]] .
  moreover have "free_pages 6 0 sample_pages = Inl (Panic ''Freeing pages with wrong order'')"
    using conjunct1 [OF rej] by simp
  moreover have "owns ?Z st1 {}" using f(2) by (auto simp: owns_def)
  ultimately show ?thesis using f(1) by blast
qed

end
