(* ===== verification/Slab.thy ===== *)
theory Slab
  imports Page_Alloc
begin

text \<open>
  \<open>kernel/slab_cache.c\<close> and \<open>kernel/include/kernel/slab_cache.h\<close>: caches of equal objects, cut from
  blocks of two pages. A slab is named by its address, a cache by the address of its \<open>struct
  slab_cache\<close>. The list nodes are the \<open>link\<close> at the start of every slab and the two heads of every
  cache. The bitmap is the array of words after the slab header; \<open>slab_init\<close> clears the bytes up to
  the first object, the loop of \<open>slab_alloc\<close> reads words until one is not full, so its returning is a
  lemma. \<open>None\<close> is the null pointer.
\<close>

subsection \<open>State\<close>

datatype slab_node = Link u32 | Partial u32 | Full u32

record slab_cache =
  sc_object_size :: u32
  sc_object_count :: u32
  sc_object_offset :: u32

record slab =
  sb_cache :: u32
  sb_free :: u32
  sb_bitmap :: "nat \<Rightarrow> u32"

record slab_state =
  ss_pages :: page_state
  ss_links :: "slab_node list_heap"
  ss_caches :: "u32 \<Rightarrow> slab_cache"
  ss_slabs :: "u32 \<Rightarrow> slab"

definition SLAB_ORDER :: nat where "SLAB_ORDER = 1"
definition SIZEOF_SLAB :: u32 where "SIZEOF_SLAB = 16"
definition SIZEOF_BITMAP :: u32 where "SIZEOF_BITMAP = 4"
definition CHAR_BIT :: u32 where "CHAR_BIT = 8"

subsection \<open>The layout of a slab\<close>

definition slab_object_size :: "u32 \<Rightarrow> u32 \<Rightarrow> u32 outcome" where
  "slab_object_size sz alignment =
     (if alignment \<ge> sz then Inr alignment
      else if alignment = 0 then Inl Divide_error
      else Inr (alignment * ((sz + alignment - 1) div alignment)))"

definition slab_object_count :: "u32 \<Rightarrow> u32 \<Rightarrow> u32" where
  "slab_object_count sz space =
     (CHAR_BIT * (space - SIZEOF_SLAB - SIZEOF_BITMAP) + 1) div (CHAR_BIT * sz + 1)"

definition slab_cache_init :: "u32 \<Rightarrow> u32 \<Rightarrow> u32 \<Rightarrow> slab_state \<Rightarrow> slab_state outcome" where
  "slab_cache_init c sz align st =
     (let space = push_bit SLAB_ORDER PAGE_SIZE
      in bind_outcome (slab_object_size sz align) (\<lambda>object_size.
        let object_count = slab_object_count object_size space;
            object_offset = space - object_size * object_count;
            links1 = list_init_head (Partial c) (ss_links st);
            links2 = list_init_head (Full c) links1
        in Inr (st\<lparr>ss_links := links2,
             ss_caches := (ss_caches st)(c := \<lparr>sc_object_size = object_size,
               sc_object_count = object_count, sc_object_offset = object_offset\<rparr>)\<rparr>)))"

subsection \<open>Slabs\<close>

definition set_slab :: "u32 \<Rightarrow> slab \<Rightarrow> slab_state \<Rightarrow> slab_state" where
  "set_slab s v st = st\<lparr>ss_slabs := (ss_slabs st)(s := v)\<rparr>"

definition slab_links :: "(slab_node list_heap \<Rightarrow> slab_node list_heap) \<Rightarrow> slab_state \<Rightarrow> slab_state" where
  "slab_links f st = st\<lparr>ss_links := f (ss_links st)\<rparr>"

text \<open>Word \<open>i\<close> of the bitmap after the bytes of the slab below \<open>n\<close> have been cleared.\<close>

definition cleared_word :: "nat \<Rightarrow> nat \<Rightarrow> u32 \<Rightarrow> u32" where
  "cleared_word n i w =
     (let start = unat SIZEOF_SLAB + 4 * i
      in if start + 4 \<le> n then 0
         else if n \<le> start then w
         else push_bit (8 * (n - start)) (drop_bit (8 * (n - start)) w))"

definition null_link :: "u32 \<Rightarrow> slab_node list_heap \<Rightarrow> slab_node list_heap" where
  "null_link s h = h\<lparr>lh_next := (lh_next h)(Link s := Link 0), lh_prev := (lh_prev h)(Link s := Link 0)\<rparr>"

definition slab_init :: "u32 \<Rightarrow> u32 \<Rightarrow> slab_state \<Rightarrow> slab_state" where
  "slab_init c s st =
     (let cache = ss_caches st c;
          old = ss_slabs st s;
          bitmap = (\<lambda>i. cleared_word (unat (sc_object_offset cache)) i (sb_bitmap old i))
      in set_slab s \<lparr>sb_cache = c, sb_free = sc_object_count cache, sb_bitmap = bitmap\<rparr>
           (slab_links (null_link s) st))"

definition set_page_slab :: "u32 \<Rightarrow> u32 \<Rightarrow> slab_state \<Rightarrow> slab_state" where
  "set_page_slab page s st =
     st\<lparr>ss_pages := (ss_pages st)\<lparr>pg_slab := (pg_slab (ss_pages st))(page := s)\<rparr>\<rparr>"

definition slab_cache_grow :: "u32 \<Rightarrow> u32 \<Rightarrow> slab_state \<Rightarrow> slab_state outcome" where
  "slab_cache_grow c flags st =
     bind_outcome (alloc_pages SLAB_ORDER flags (ss_pages st)) (\<lambda>(r, pages).
       let st1 = st\<lparr>ss_pages := pages\<rparr>
       in case r of
            None \<Rightarrow> Inr st1
          | Some page \<Rightarrow>
              (let s = page_virtual_address page pages;
                   st2 = slab_init c s st1;
                   st3 = slab_links (list_insert_before (Partial c) (Link s)) st2
               in Inr (fold (\<lambda>i st. set_page_slab (page + of_nat i) s st) [0..<unat (BITU SLAB_ORDER)] st3)))"

partial_function (option) free_word :: "(nat \<Rightarrow> u32) \<Rightarrow> nat \<Rightarrow> nat option" where
  "free_word bitmap i = (if NOT (bitmap i) = 0 then free_word bitmap (i + 1) else Some i)"

declare free_word.simps [code]

function low_ones :: "u32 \<Rightarrow> nat \<Rightarrow> nat" where
  "low_ones bmap j = (if bmap mod 2 \<noteq> 0 then low_ones (drop_bit 1 bmap) (j + 1) else j)"
  by pat_completeness auto
termination
proof (relation "measure (\<lambda>(bmap, j). unat bmap)")
  fix bmap :: u32 assume "bmap mod 2 \<noteq> 0"
  then have "0 < unat bmap" by (auto simp: unat_gt_0)
  moreover have "unat (drop_bit 1 bmap) = unat bmap div 2"
    by (simp add: drop_bit_eq_div unat_div)
  ultimately show "((drop_bit 1 bmap, j + 1), bmap, j) \<in> measure (\<lambda>(bmap, j). unat bmap)" for j :: nat
    by simp
qed simp

declare low_ones.simps [simp del]

definition slab_alloc :: "u32 \<Rightarrow> u32 \<Rightarrow> slab_state \<Rightarrow> (u32 \<times> slab_state) option" where
  "slab_alloc c s st =
     (let slab = ss_slabs st s; cache = ss_caches st c
      in case free_word (sb_bitmap slab) 0 of
           None \<Rightarrow> None
         | Some i \<Rightarrow>
             (let j = low_ones (sb_bitmap slab i) 0;
                  off = of_nat i * SIZEOF_BITMAP * CHAR_BIT + of_nat j;
                  slab' = slab\<lparr>sb_free := sb_free slab - 1,
                    sb_bitmap := (sb_bitmap slab)(i := sb_bitmap slab i OR push_bit j 1)\<rparr>
              in Some (s + sc_object_offset cache + off * sc_object_size cache, set_slab s slab' st)))"

definition slab_free :: "u32 \<Rightarrow> u32 \<Rightarrow> u32 \<Rightarrow> slab_state \<Rightarrow> slab_state outcome" where
  "slab_free c s p st =
     (let offset = sc_object_offset (ss_caches st c);
          sz = sc_object_size (ss_caches st c);
          wsize = SIZEOF_BITMAP * 8
      in if sz = 0 then Inl Divide_error
         else
           (let bit = (p - (s + offset)) div sz;
                word = bit div wsize;
                shift = bit mod wsize;
                slab = ss_slabs st s
            in Inr (set_slab s (slab\<lparr>
                 sb_bitmap := (sb_bitmap slab)(unat word :=
                   sb_bitmap slab (unat word) AND NOT (push_bit (unat shift) 1)),
                 sb_free := sb_free slab + 1\<rparr>) st)))"

subsection \<open>Caches\<close>

definition slab_cache_create :: "u32 \<Rightarrow> u32 \<Rightarrow> u32 \<Rightarrow> slab_state \<Rightarrow> slab_state outcome" where
  "slab_cache_create c sz align st = slab_cache_init c sz align st"

text \<open>The loop of \<open>slab_cache_fini\<close>; a node on the way that is no slab's link is a wild access.\<close>

partial_function (option) fini_loop :: "u32 \<Rightarrow> slab_node \<Rightarrow> slab_state \<Rightarrow> slab_state outcome option" where
  "fini_loop c node st =
     (if node \<noteq> Partial c then
        (case node of
           Link s \<Rightarrow>
             (let page = pfn_to_page (drop_bit PAGE_SHIFT (phys_addr s)) (ss_pages st)
              in if sb_free (ss_slabs st s) = sc_object_count (ss_caches st c) then
                   (let next = lh_next (ss_links st) node
                    in case free_pages page SLAB_ORDER (ss_pages st) of
                         Inl e \<Rightarrow> Some (Inl e)
                       | Inr pages \<Rightarrow> fini_loop c next (st\<lparr>ss_pages := pages\<rparr>))
                 else Some (Inl (Panic ''Slab cache is still not empty'')))
         | _ \<Rightarrow> Some (Inl Wild))
      else Some (Inr st))"

definition slab_cache_fini :: "u32 \<Rightarrow> slab_state \<Rightarrow> slab_state outcome option" where
  "slab_cache_fini c st =
     (if \<not> list_empty (Full c) (ss_links st) then Some (Inl (Panic ''Slab cache is still not empty''))
      else fini_loop c (lh_next (ss_links st) (Partial c)) st)"

definition slab_cache_destroy :: "u32 \<Rightarrow> slab_state \<Rightarrow> slab_state outcome option" where
  "slab_cache_destroy c st = slab_cache_fini c st"

definition slab_cache_take :: "u32 \<Rightarrow> slab_state \<Rightarrow> (u32 option \<times> slab_state) outcome option" where
  "slab_cache_take c st =
     (if list_empty (Partial c) (ss_links st) then Some (Inr (None, st))
      else case lh_next (ss_links st) (Partial c) of
        Link s \<Rightarrow>
          (case slab_alloc c s st of
             None \<Rightarrow> None
           | Some (p, st1) \<Rightarrow>
               (let st2 = (if sb_free (ss_slabs st1 s) = 0
                    then slab_links (list_insert_after (Full c) (Link s)) (slab_links (list_remove (Link s)) st1)
                    else st1)
                in Some (Inr (Some p, st2))))
      | _ \<Rightarrow> Some (Inl Wild))"

definition slab_cache_alloc :: "u32 \<Rightarrow> u32 \<Rightarrow> slab_state \<Rightarrow> (u32 option \<times> slab_state) outcome option" where
  "slab_cache_alloc c flags st =
     (case if list_empty (Partial c) (ss_links st) then slab_cache_grow c flags st else Inr st of
        Inl e \<Rightarrow> Some (Inl e)
      | Inr st1 \<Rightarrow> slab_cache_take c st1)"

definition slab_cache_free :: "u32 \<Rightarrow> u32 \<Rightarrow> slab_state \<Rightarrow> slab_state outcome" where
  "slab_cache_free c p st =
     (let page = pfn_to_page (drop_bit PAGE_SHIFT (phys_addr p)) (ss_pages st);
          s = pg_slab (ss_pages st) page;
          full = (sb_free (ss_slabs st s) = 0)
      in bind_outcome (slab_free c s p st) (\<lambda>st1.
        Inr (if full
          then slab_links (list_insert_before (Partial c) (Link s)) (slab_links (list_remove (Link s)) st1)
          else st1)))"

subsection \<open>The layout\<close>

definition cache_ok :: "slab_cache \<Rightarrow> bool" where
  "cache_ok cache \<longleftrightarrow> 0 < sc_object_size cache \<and> 0 < sc_object_count cache \<and>
     unat (sc_object_offset cache) + unat (sc_object_count cache) * unat (sc_object_size cache) = 8192 \<and>
     16 + 4 * ((unat (sc_object_count cache) + 31) div 32) \<le> unat (sc_object_offset cache)"

lemma slab_object_size_props:
  assumes "slab_object_size n al = Inr osz" and "unat n + unat al < 2 ^ 32"
  shows "n \<le> osz" and "unat al dvd unat osz" and "unat osz < unat n + unat al \<or> osz = al"
proof -
  have *: "unat n \<le> unat osz \<and> unat al dvd unat osz \<and> (unat osz < unat n + unat al \<or> osz = al)"
  proof (cases "n \<le> al")
    case True
    then show ?thesis using assms(1) by (simp add: slab_object_size_def word_le_nat_alt split: if_splits)
  next
    case False
    then have al: "al \<noteq> 0" "osz = al * ((n + al - 1) div al)" "1 \<le> unat n"
      using assms(1) by (auto simp: slab_object_size_def word_le_nat_alt split: if_splits)
    let ?a = "unat al" and ?m = "unat n + unat al - 1"
    have a: "0 < ?a" using al(1) by (simp add: unat_gt_0)
    have "unat (n + al) = unat n + ?a" using assms(2) by (simp add: unat_plus_no_wrap)
    then have m: "unat (n + al - 1) = ?m" using a al(3) by (subst unat_minus_no_wrap) (auto simp: word_le_nat_alt)
    have le: "?a * (?m div ?a) \<le> ?m" by simp
    then have lt: "?a * (?m div ?a) < 2 ^ 32" using assms(2) by linarith
    have q: "unat ((n + al - 1) div al) = ?m div ?a" unfolding unat_div m by simp
    have "unat al * unat ((n + al - 1) div al) < 2 ^ LENGTH(32)" using lt unfolding q by simp
    then have "unat (al * ((n + al - 1) div al)) = unat al * unat ((n + al - 1) div al)"
      by (rule iffD1 [OF unat_mult_lem])
    then have "unat osz = ?a * (?m div ?a)" unfolding al(2) q .
    have "?m = ?a * (?m div ?a) + ?m mod ?a" by simp
    moreover have "?m mod ?a < ?a" using a by simp
    ultimately have "unat n \<le> unat osz" "unat osz < unat n + unat al"
      using le al(3) a \<open>unat osz = _\<close> by linarith+
    then show ?thesis using \<open>unat osz = _\<close> by simp
  qed
  then show "n \<le> osz" "unat al dvd unat osz" "unat osz < unat n + unat al \<or> osz = al"
    by (simp_all add: word_le_nat_alt)
qed

lemma slab_count:
  assumes "unat osz \<le> 8172"
  shows "unat (slab_object_count osz (push_bit SLAB_ORDER PAGE_SIZE)) = 65377 div (8 * unat osz + 1)"
proof -
  have "8 * unat osz + 1 < 2 ^ 32" using assms by simp
  then have "unat (CHAR_BIT * osz + 1) = 8 * unat osz + 1"
    by (simp add: CHAR_BIT_def unat_word_ariths)
  then show ?thesis
    by (simp add: slab_object_count_def unat_div layout_values SLAB_ORDER_def SIZEOF_SLAB_def
        SIZEOF_BITMAP_def CHAR_BIT_def push_bit_eq_mult)
qed

lemma slab_layout_nat:
  fixes n :: nat
  assumes "0 < n" and "n \<le> 8172" and "c = 65377 div (8 * n + 1)"
  shows "0 < c" and "c * n + (16 + 4 * ((c + 31) div 32)) \<le> 8192"
proof -
  show "0 < c" using assms by (simp add: div_greater_zero_iff)
  have "c * (8 * n + 1) \<le> 65377" unfolding assms(3) by (rule div_times_less_eq_dividend)
  then have "8 * (c * n) + c \<le> 65377" by (simp add: algebra_simps)
  moreover have "32 * ((c + 31) div 32) \<le> c + 31" by simp
  ultimately show "c * n + (16 + 4 * ((c + 31) div 32)) \<le> 8192" by linarith
qed

lemma slab_cache_init_result:
  assumes "slab_object_size n al = Inr osz" and "0 < osz" and "unat osz \<le> 8172"
  shows "\<exists>st'. slab_cache_init c n al st = Inr st' \<and> cache_ok (ss_caches st' c) \<and>
    sc_object_size (ss_caches st' c) = osz \<and> (\<forall>c'. c' \<noteq> c \<longrightarrow> ss_caches st' c' = ss_caches st c') \<and>
    ss_links st' = list_init_head (Full c) (list_init_head (Partial c) (ss_links st)) \<and>
    ss_pages st' = ss_pages st \<and> ss_slabs st' = ss_slabs st"
proof -
  let ?c = "slab_object_count osz (push_bit SLAB_ORDER PAGE_SIZE)"
  have o: "0 < unat osz" using assms(2) by (simp add: word_less_nat_alt)
  note lay = slab_layout_nat [OF o assms(3) slab_count [OF assms(3)]]
  have sp: "push_bit SLAB_ORDER PAGE_SIZE = (8192 :: u32)"
    by (simp add: SLAB_ORDER_def layout_values push_bit_eq_mult)
  have m: "unat (osz * ?c) = unat ?c * unat osz"
    using lay(2) by (simp add: unat_word_ariths mult.commute)
  then have "osz * ?c \<le> 8192" using lay(2) by (simp add: word_le_nat_alt)
  then have "unat (8192 - osz * ?c) = 8192 - unat ?c * unat osz"
    using m by (subst unat_minus_no_wrap) simp_all
  then have "cache_ok \<lparr>sc_object_size = osz, sc_object_count = ?c, sc_object_offset = 8192 - osz * ?c\<rparr>"
    using lay assms(2) by (simp add: cache_ok_def word_less_nat_alt)
  then show ?thesis using assms(1) by (simp add: slab_cache_init_def Let_def sp)
qed

subsection \<open>Searching the bitmap\<close>

lemma not_is_0: "NOT x = 0 \<longleftrightarrow> x = (-1 :: u32)"
  by (metis bit.compl_zero bit.double_compl)

lemma free_word_result:
  assumes "b n \<noteq> -1" and "i \<le> n"
  shows "\<exists>m. free_word b i = Some m \<and> i \<le> m \<and> m \<le> n \<and> b m \<noteq> -1 \<and> (\<forall>k. i \<le> k \<longrightarrow> k < m \<longrightarrow> b k = -1)"
  using assms(2)
proof (induction "n - i" arbitrary: i)
  case 0
  then have "i = n" by simp
  then have "free_word b i = Some i" using assms(1) by (subst free_word.simps) (simp add: not_is_0)
  with 0 assms(1) \<open>i = n\<close> show ?case by auto
next
  case (Suc d)
  show ?case
  proof (cases "b i = -1")
    case True
    then have s: "free_word b i = free_word b (i + 1)" by (subst free_word.simps) simp
    from Suc.hyps(2) have "d = n - (i + 1)" "i + 1 \<le> n" by simp_all
    from Suc.hyps(1) [OF this] obtain m where "free_word b (i + 1) = Some m" "i + 1 \<le> m" "m \<le> n"
      "b m \<noteq> -1" "\<forall>k. i + 1 \<le> k \<longrightarrow> k < m \<longrightarrow> b k = -1" by blast
    moreover from this True have "b k = -1" if "i \<le> k" "k < m" for k
      using that by (cases "k = i") auto
    ultimately show ?thesis using s by (intro exI [of _ m]) auto
  next
    case False
    then have "free_word b i = Some i" by (subst free_word.simps) (simp add: not_is_0)
    with False Suc.prems show ?thesis by auto
  qed
qed

lemma low_ones_result:
  assumes "\<not> bit w n"
  shows "\<exists>m. low_ones w j = j + m \<and> m \<le> n \<and> \<not> bit w m \<and> (\<forall>k<m. bit w k)"
  using assms
proof (induction n arbitrary: w j)
  case 0
  then have "w mod 2 = 0" by (simp add: bit_0 even_iff_mod_2_eq_zero)
  then have "low_ones w j = j" by (subst low_ones.simps) simp
  with 0 show ?case by auto
next
  case (Suc n)
  show ?case
  proof (cases "bit w 0")
    case True
    then have "w mod 2 \<noteq> 0" by (simp add: bit_0 even_iff_mod_2_eq_zero)
    then have s: "low_ones w j = low_ones (drop_bit 1 w) (j + 1)" by (subst low_ones.simps) simp
    have "\<not> bit (drop_bit 1 w) n" using Suc.prems by (simp add: bit_drop_bit_eq)
    from Suc.IH [OF this, of "j + 1"] obtain m where
      m: "low_ones (drop_bit 1 w) (j + 1) = j + 1 + m" "m \<le> n" "\<not> bit w (Suc m)" "\<forall>k<m. bit w (Suc k)"
      by (auto simp: bit_drop_bit_eq)
    have "bit w k" if "k < Suc m" for k using that m(4) True by (cases k) auto
    with m s show ?thesis by (intro exI [of _ "Suc m"]) auto
  next
    case False
    then have "w mod 2 = 0" by (simp add: bit_0 even_iff_mod_2_eq_zero)
    then have "low_ones w j = j" by (subst low_ones.simps) simp
    with False show ?thesis by auto
  qed
qed

subsection \<open>Slots\<close>

text \<open>
  Slot \<open>i\<close> of a slab is bit \<open>i\<close> of its bitmap; a slot whose bit is set is an object that is handed
  out.
\<close>

definition slot_bit :: "(nat \<Rightarrow> u32) \<Rightarrow> nat \<Rightarrow> bool" where
  "slot_bit bm i \<longleftrightarrow> bit (bm (i div 32)) (i mod 32)"

definition slots :: "slab_state \<Rightarrow> u32 \<Rightarrow> nat" where
  "slots st c = unat (sc_object_count (ss_caches st c))"

definition used :: "slab_state \<Rightarrow> u32 \<Rightarrow> u32 \<Rightarrow> nat set" where
  "used st c s = {i. i < slots st c \<and> slot_bit (sb_bitmap (ss_slabs st s)) i}"

definition object_addr :: "slab_state \<Rightarrow> u32 \<Rightarrow> u32 \<Rightarrow> nat \<Rightarrow> u32" where
  "object_addr st c s i = s + sc_object_offset (ss_caches st c) + of_nat i * sc_object_size (ss_caches st c)"

lemma used_finite [simp]: "finite (used st c s)"
  by (simp add: used_def)

lemma used_card: "card (used st c s) \<le> slots st c"
  using card_mono [of "{..<slots st c}" "used st c s"] by (auto simp: used_def)

lemma slot_bit_set:
  assumes "j < 32"
  shows "slot_bit (bm(w := bm w OR push_bit j 1)) i \<longleftrightarrow> i = 32 * w + j \<or> slot_bit bm i"
proof -
  have "bit (push_bit j (1 :: u32)) n \<longleftrightarrow> n = j" if "n < 32" for n
    using assms that by (auto simp: bit_simps)
  moreover have "i = 32 * w + j \<longleftrightarrow> i div 32 = w \<and> i mod 32 = j" using assms by auto
  ultimately show ?thesis by (auto simp: slot_bit_def bit_or_iff)
qed

lemma slot_bit_clear:
  assumes "j < 32"
  shows "slot_bit (bm(w := bm w AND NOT (push_bit j 1))) i \<longleftrightarrow> i \<noteq> 32 * w + j \<and> slot_bit bm i"
proof -
  have "bit (NOT (push_bit j (1 :: u32))) n \<longleftrightarrow> n \<noteq> j" if "n < 32" for n
    using assms that by (auto simp: bit_simps)
  moreover have "i = 32 * w + j \<longleftrightarrow> i div 32 = w \<and> i mod 32 = j" using assms by auto
  ultimately show ?thesis by (auto simp: slot_bit_def bit_and_iff)
qed

text \<open>The two loops find the first clear bit of the whole bitmap.\<close>

lemma all_ones_bit: "(w :: u32) = -1 \<longleftrightarrow> (\<forall>n<32. bit w n)"
  by (auto intro: bit_word_eqI)

lemma first_clear:
  assumes "\<not> slot_bit bm n"
  shows "\<exists>w. free_word bm 0 = Some w \<and> (let j = low_ones (bm w) 0 in
    j < 32 \<and> 32 * w + j \<le> n \<and> \<not> slot_bit bm (32 * w + j) \<and> (\<forall>i < 32 * w + j. slot_bit bm i))"
proof -
  have n: "n mod 32 < 32" by simp
  with assms have "bm (n div 32) \<noteq> -1" unfolding slot_bit_def all_ones_bit by blast
  from free_word_result [of bm "n div 32" 0, OF this] obtain w where
    w: "free_word bm 0 = Some w" "w \<le> n div 32" "bm w \<noteq> -1" "\<forall>k<w. bm k = -1" by auto
  from w(3) obtain b where b: "b < 32" "\<not> bit (bm w) b" unfolding all_ones_bit by blast
  define m where "m = (if w = n div 32 then n mod 32 else b)"
  have m: "m < 32" "\<not> bit (bm w) m" using b n assms by (auto simp: m_def slot_bit_def)
  from low_ones_result [OF m(2), of 0] obtain j where
    j: "low_ones (bm w) 0 = j" "j \<le> m" "\<not> bit (bm w) j" "\<forall>k<j. bit (bm w) k" by auto
  have j32: "j < 32" using j(2) m(1) by simp
  have "32 * w + j \<le> n"
  proof (cases "w = n div 32")
    case True
    then have "j \<le> n mod 32" using j(2) by (simp add: m_def)
    moreover have "32 * (n div 32) + n mod 32 = n" by simp
    ultimately show ?thesis using True by linarith
  next
    case False
    with w(2) have "w < n div 32" by simp
    then have "32 * w + 32 \<le> 32 * (n div 32)" by simp
    also have "\<dots> \<le> n" by simp
    finally show ?thesis using j32 by simp
  qed
  moreover have "slot_bit bm i" if "i < 32 * w + j" for i
  proof (cases "i div 32 = w")
    case True
    then have "i mod 32 < j" using that by (metis add_less_cancel_left mult_div_mod_eq)
    with j(4) True show ?thesis by (simp add: slot_bit_def)
  next
    case False
    then have "i div 32 < w" using that j32 by linarith
    then have "bm (i div 32) = -1" using w(4) by simp
    then show ?thesis using all_ones_bit [of "bm (i div 32)"] by (simp add: slot_bit_def)
  qed
  moreover have "\<not> slot_bit bm (32 * w + j)" using j(3) j32 by (simp add: slot_bit_def)
  ultimately show ?thesis using w(1) j(1) j32 by (auto simp: Let_def)
qed

subsection \<open>The invariant\<close>

definition slab_at :: "u32 \<Rightarrow> u32" where
  "slab_at p = virt_addr (push_bit PAGE_SHIFT p)"

definition slab_ok :: "slab_state \<Rightarrow> (u32 \<times> nat) set \<Rightarrow> u32 \<Rightarrow> u32 \<Rightarrow> bool" where
  "slab_ok st A c s \<longleftrightarrow> (\<exists>p. s = slab_at p \<and> (p, SLAB_ORDER) \<in> A \<and> unat p + 2 \<le> 0x38000 \<and>
     pg_slab (ss_pages st) p = s \<and> pg_slab (ss_pages st) (p + 1) = s) \<and>
     sb_cache (ss_slabs st s) = c \<and>
     unat (sb_free (ss_slabs st s)) + card (used st c s) = slots st c"

definition heads :: "u32 set \<Rightarrow> slab_node set" where
  "heads C = Partial ` C \<union> Full ` C"

fun slab_lists :: "(u32 \<Rightarrow> u32 list) \<Rightarrow> (u32 \<Rightarrow> u32 list) \<Rightarrow> slab_node \<Rightarrow> slab_node list" where
  "slab_lists P F (Partial c) = map Link (P c)"
| "slab_lists P F (Full c) = map Link (F c)"
| "slab_lists P F (Link s) = []"

text \<open>
  \<open>slab_inv st Z C P F A\<close>: the caches \<open>C\<close> keep their partial slabs \<open>P\<close> and full slabs \<open>F\<close> on
  disjoint lists, every slab is a block of two pages owned from the page allocator (\<open>A\<close>) and known
  by both its pages, and its count of free slots agrees with its bitmap.
\<close>

definition slab_inv :: "slab_state \<Rightarrow> zone_type set \<Rightarrow> u32 set \<Rightarrow> (u32 \<Rightarrow> u32 list) \<Rightarrow> (u32 \<Rightarrow> u32 list) \<Rightarrow>
    (u32 \<times> nat) set \<Rightarrow> bool" where
  "slab_inv st Z C P F A \<longleftrightarrow> owns Z (ss_pages st) A \<and>
     list_family list_rep (ss_links st) (heads C) (slab_lists P F) \<and>
     (\<forall>c\<in>C. cache_ok (ss_caches st c)) \<and>
     (\<forall>c\<in>C. \<forall>s\<in>set (P c). slab_ok st A c s \<and> sb_free (ss_slabs st s) \<noteq> 0) \<and>
     (\<forall>c\<in>C. \<forall>s\<in>set (F c). slab_ok st A c s \<and> sb_free (ss_slabs st s) = 0)"

definition live :: "slab_state \<Rightarrow> (u32 \<Rightarrow> u32 list) \<Rightarrow> (u32 \<Rightarrow> u32 list) \<Rightarrow> u32 \<Rightarrow> (u32 \<times> nat) set" where
  "live st P F c = {(s, i). s \<in> set (P c) \<union> set (F c) \<and> i \<in> used st c s}"

text \<open>The slabs of a cache, and what an allocation does to them and to the blocks.\<close>

definition slab_members :: "(u32 \<Rightarrow> u32 list) \<Rightarrow> (u32 \<Rightarrow> u32 list) \<Rightarrow> u32 \<Rightarrow> u32 set" where
  "slab_members P F c = set (P c) \<union> set (F c)"

definition slabs_grow :: "u32 \<Rightarrow> (u32 \<Rightarrow> u32 set) \<Rightarrow> (u32 \<times> nat) set \<Rightarrow> (u32 \<Rightarrow> u32 set) \<Rightarrow> (u32 \<times> nat) set \<Rightarrow> bool" where
  "slabs_grow c M A M' A' \<longleftrightarrow> M' = M \<and> A' = A \<or>
     (\<exists>p. (p, SLAB_ORDER) \<notin> A \<and> unat p + 2 \<le> 0x38000 \<and> A' = insert (p, SLAB_ORDER) A \<and>
       M' = M(c := insert (slab_at p) (M c)))"

lemma slabs_grow_subset: "slabs_grow c M A M' A' \<Longrightarrow> A \<subseteq> A'"
  by (auto simp: slabs_grow_def)

lemma slab_invD:
  assumes "slab_inv st Z C P F A"
  shows "owns Z (ss_pages st) A" and "list_family list_rep (ss_links st) (heads C) (slab_lists P F)"
    and "\<And>c. c \<in> C \<Longrightarrow> cache_ok (ss_caches st c)"
    and "\<And>c s. c \<in> C \<Longrightarrow> s \<in> set (P c) \<Longrightarrow> slab_ok st A c s"
    and "\<And>c s. c \<in> C \<Longrightarrow> s \<in> set (P c) \<Longrightarrow> sb_free (ss_slabs st s) \<noteq> 0"
    and "\<And>c s. c \<in> C \<Longrightarrow> s \<in> set (F c) \<Longrightarrow> slab_ok st A c s"
    and "\<And>c s. c \<in> C \<Longrightarrow> s \<in> set (F c) \<Longrightarrow> sb_free (ss_slabs st s) = 0"
  using assms unfolding slab_inv_def by blast+

lemma heads_iff [simp]: "Partial c \<in> heads C \<longleftrightarrow> c \<in> C" "Full c \<in> heads C \<longleftrightarrow> c \<in> C" "Link s \<notin> heads C"
  by (auto simp: heads_def)

lemma link_in_family:
  "Link s \<in> family_nodes (heads C) (slab_lists P F) \<longleftrightarrow> (\<exists>c\<in>C. s \<in> set (P c) \<union> set (F c))"
proof -
  have "Link s \<in> family_nodes (heads C) (slab_lists P F) \<longleftrightarrow>
      (\<exists>c\<in>C. Link s \<in> set (slab_lists P F (Partial c)) \<or> Link s \<in> set (slab_lists P F (Full c)))"
    unfolding family_nodes_iff heads_def by blast
  then show ?thesis by auto
qed

lemma slab_lists_upd:
  "slab_lists (P(c := xs)) F = (slab_lists P F)(Partial c := map Link xs)"
  "slab_lists P (F(c := xs)) = (slab_lists P F)(Full c := map Link xs)"
  by (rule ext, rename_tac n, case_tac n; simp)+

lemma remove1_map_Link: "remove1 (Link s) (map Link xs) = map Link (remove1 s xs)"
  by (induction xs) auto

lemma slab_state_fields [simp]:
  "ss_pages (set_slab s v st) = ss_pages st" "ss_links (set_slab s v st) = ss_links st"
  "ss_caches (set_slab s v st) = ss_caches st" "ss_slabs (set_slab s v st) = (ss_slabs st)(s := v)"
  "ss_pages (slab_links f st) = ss_pages st" "ss_links (slab_links f st) = f (ss_links st)"
  "ss_caches (slab_links f st) = ss_caches st" "ss_slabs (slab_links f st) = ss_slabs st"
  "slots (set_slab s v st) c = slots st c" "slots (slab_links f st) c = slots st c"
  "used (slab_links f st) c s = used st c s" "slab_ok (slab_links f st) A c s = slab_ok st A c s"
  by (simp_all add: set_slab_def slab_links_def slots_def used_def slab_ok_def)

lemma slab_ok_other [simp]:
  "s' \<noteq> s \<Longrightarrow> used (set_slab s v st) c s' = used st c s'"
  "s' \<noteq> s \<Longrightarrow> slab_ok (set_slab s v st) A c s' = slab_ok st A c s'"
  by (simp_all add: used_def slab_ok_def)

text \<open>A slab is on one list of one cache only, and once.\<close>

lemma slab_unique:
  assumes "slab_inv st Z C P F A" and "c \<in> C" and "c' \<in> C"
  shows "s \<in> set (P c) \<Longrightarrow> s \<notin> set (F c')" and "s \<in> set (P c) \<Longrightarrow> s \<in> set (P c') \<Longrightarrow> c = c'"
    and "s \<in> set (F c) \<Longrightarrow> s \<in> set (F c') \<Longrightarrow> c = c'" and "distinct (P c)" and "distinct (F c)"
proof -
  note fam = slab_invD(2) [OF assms(1)]
  show "s \<in> set (P c) \<Longrightarrow> s \<notin> set (F c')"
    using lists.family_separate [OF fam, of "Partial c" "Full c'"] assms(2,3) by auto
  show "s \<in> set (P c) \<Longrightarrow> s \<in> set (P c') \<Longrightarrow> c = c'"
    using lists.family_separate [OF fam, of "Partial c" "Partial c'"] assms(2,3) by auto
  show "s \<in> set (F c) \<Longrightarrow> s \<in> set (F c') \<Longrightarrow> c = c'"
    using lists.family_separate [OF fam, of "Full c" "Full c'"] assms(2,3) by auto
  show "distinct (P c)" "distinct (F c)"
    using lists.family_distinct [OF fam, of "Partial c"] lists.family_distinct [OF fam, of "Full c"] assms(2)
    by (simp_all add: distinct_map)
qed

subsection \<open>Taking an object\<close>

lemma slab_alloc_result:
  assumes "slab_ok st A c s" and "sb_free (ss_slabs st s) \<noteq> 0"
  shows "\<exists>i v. slab_alloc c s st = Some (object_addr st c s i, set_slab s v st) \<and>
    i < slots st c \<and> i \<notin> used st c s \<and> (\<forall>j<i. j \<in> used st c s) \<and>
    used (set_slab s v st) c s = insert i (used st c s) \<and> slab_ok (set_slab s v st) A c s"
proof -
  let ?bm = "sb_bitmap (ss_slabs st s)" and ?f = "sb_free (ss_slabs st s)"
  have f: "0 < unat ?f" using assms(2) by (simp add: unat_gt_0)
  then have "card (used st c s) < slots st c" using assms(1) by (simp add: slab_ok_def)
  then obtain n where n: "n < slots st c" "\<not> slot_bit ?bm n"
    using card_mono [of "used st c s" "{..<slots st c}"] by (auto simp: used_def)
  from first_clear [OF n(2)] obtain w j where
    w: "free_word ?bm 0 = Some w" "low_ones (?bm w) 0 = j" "j < 32" "32 * w + j \<le> n"
      "\<not> slot_bit ?bm (32 * w + j)" "\<forall>i < 32 * w + j. slot_bit ?bm i" by (auto simp: Let_def)
  define i where "i = 32 * w + j"
  let ?v = "(ss_slabs st s)\<lparr>sb_free := ?f - 1, sb_bitmap := ?bm(w := ?bm w OR push_bit j 1)\<rparr>"
  have i: "i < slots st c" "i \<notin> used st c s" "\<forall>j<i. j \<in> used st c s"
    using w n(1) by (auto simp: i_def used_def)
  have u: "used (set_slab s ?v st) c s = insert i (used st c s)"
    using i(1) slot_bit_set [OF w(3), of ?bm w] by (auto simp: used_def i_def)
  have "unat (?f - 1) = unat ?f - 1" using f by (subst unat_minus_no_wrap) (auto simp: word_le_nat_alt)
  then have ok: "slab_ok (set_slab s ?v st) A c s"
    using assms(1) f u i(2) by (simp add: slab_ok_def)
  have "of_nat w * SIZEOF_BITMAP * CHAR_BIT + of_nat j = (of_nat i :: u32)"
    by (simp add: i_def SIZEOF_BITMAP_def CHAR_BIT_def mult.commute)
  then have "slab_alloc c s st = Some (object_addr st c s i, set_slab s ?v st)"
    using w(1,2) by (simp add: slab_alloc_def object_addr_def Let_def)
  with i u ok show ?thesis by blast
qed

lemma slab_cache_take_result:
  assumes inv: "slab_inv st Z C P F A" and c: "c \<in> C" and P: "P c = s # ps"
  shows "\<exists>i st' P' F'. slab_cache_take c st = Some (Inr (Some (object_addr st c s i), st')) \<and>
    slab_inv st' Z C P' F' A \<and> i < slots st c \<and> (s, i) \<notin> live st P F c \<and>
    live st' P' F' c = insert (s, i) (live st P F c) \<and>
    (\<forall>c'\<in>C. c' \<noteq> c \<longrightarrow> live st' P' F' c' = live st P F c') \<and>
    ss_caches st' = ss_caches st \<and> ss_pages st' = ss_pages st \<and> slab_members P' F' = slab_members P F"
proof -
  note D = slab_invD [OF inv]
  have s: "s \<in> set (P c)" using P by simp
  have "list_first (Partial c) (ss_links st) = Link s" "\<not> list_empty (Partial c) (ss_links st)"
    using lists.family_pop(1) [OF D(2), of "Partial c" "Link s" "map Link ps"]
      lists.family_empty_iff [OF D(2), of "Partial c"] c P by simp_all
  then have first: "lh_next (ss_links st) (Partial c) = Link s" "\<not> list_empty (Partial c) (ss_links st)"
    by (simp_all add: list_first_def)
  from slab_alloc_result [OF D(4,5) [OF c s]] obtain i v where
    a: "slab_alloc c s st = Some (object_addr st c s i, set_slab s v st)" "i < slots st c" "i \<notin> used st c s"
      "used (set_slab s v st) c s = insert i (used st c s)" "slab_ok (set_slab s v st) A c s" by blast
  let ?st1 = "set_slab s v st"
  have other: "s' \<noteq> s" if "c' \<in> C" "c' \<noteq> c \<and> s' \<in> set (P c') \<or> s' \<in> set (F c')" for c' s'
    using slab_unique(1-3) [OF inv c that(1)] s that(2) by blast
  have ps: "s \<notin> set ps" using slab_unique(4) [OF inv c c] P by simp
  have nl: "(s, i) \<notin> live st P F c" using a(3) by (simp add: live_def)
  have same_live: "{(s', k). s' \<in> S \<and> k \<in> used ?st1 c' s'} = {(s', k). s' \<in> S \<and> k \<in> used st c' s'}"
    if "s \<notin> S" for S c'
    using that by auto (metis slab_ok_other(1))+
  show ?thesis
  proof (cases "sb_free v = 0")
    case True
    let ?P = "P(c := ps)" and ?F = "F(c := s # F c)"
    let ?st2 = "slab_links (list_insert_after (Full c) (Link s)) (slab_links (list_remove (Link s)) ?st1)"
    have "list_family list_rep (ss_links ?st2) (heads C) (slab_lists ?P ?F)"
      using lists.family_move_after [OF D(2), of "Partial c" "Full c" "Link s"] c P
      by (simp add: slab_lists_upd)
    then have "slab_inv ?st2 Z C ?P ?F A"
      using D other ps a(5) True P unfolding slab_inv_def by auto
    moreover have "live ?st2 ?P ?F c = insert (s, i) (live st P F c)"
      using same_live [of "set ps \<union> set (F c)" c] a(4) ps other [OF c] P by (auto simp: live_def)
    moreover have "live ?st2 ?P ?F c' = live st P F c'" if "c' \<in> C" "c' \<noteq> c" for c'
      using same_live [of "set (P c') \<union> set (F c')" c'] other [OF that(1)] that(2) by (auto simp: live_def)
    moreover have "slab_cache_take c st = Some (Inr (Some (object_addr st c s i), ?st2))"
      using first a(1) True by (simp add: slab_cache_take_def)
    moreover have "slab_members ?P ?F = slab_members P F" using P by (auto simp: slab_members_def fun_eq_iff)
    ultimately show ?thesis using nl a(2) by (intro exI [of _ i] exI [of _ ?st2] exI [of _ ?P] exI [of _ ?F]) simp
  next
    case False
    have "slab_ok ?st1 A c' s' \<and> sb_free (ss_slabs ?st1 s') \<noteq> 0" if m: "c' \<in> C" "s' \<in> set (P c')" for c' s'
    proof (cases "s' = s")
      case True
      then have "c' = c" using slab_unique(2) [OF inv c m(1) s] m(2) by simp
      with True a(5) False show ?thesis by simp
    next
      case False
      with D(4,5) [OF m] show ?thesis by simp
    qed
    moreover have "slab_ok ?st1 A c' s' \<and> sb_free (ss_slabs ?st1 s') = 0" if m: "c' \<in> C" "s' \<in> set (F c')" for c' s'
      using D(6,7) [OF m] other [OF m(1), of s'] m(2) by simp
    ultimately have "slab_inv ?st1 Z C P F A" using D(1-3) by (simp add: slab_inv_def)
    moreover have "live ?st1 P F c = insert (s, i) (live st P F c)"
      using same_live [of "set ps \<union> set (F c)" c] a(4) ps other [OF c] P by (auto simp: live_def)
    moreover have "live ?st1 P F c' = live st P F c'" if "c' \<in> C" "c' \<noteq> c" for c'
      using same_live [of "set (P c') \<union> set (F c')" c'] other [OF that(1)] that(2) by (auto simp: live_def)
    moreover have "slab_cache_take c st = Some (Inr (Some (object_addr st c s i), ?st1))"
      using first a(1) False by (simp add: slab_cache_take_def)
    ultimately show ?thesis using nl a(2) by (intro exI [of _ i] exI [of _ ?st1] exI [of _ P] exI [of _ F]) simp
  qed
qed

subsection \<open>Growing a cache\<close>

lemma owns_pg_slab [simp]: "owns Z (pages\<lparr>pg_slab := f\<rparr>) A = owns Z pages A"
  by (simp add: owns_def page_inv_def block_inv_def zones_ok_def all_frames_def frames_def)

lemma null_link_family:
  assumes "list_family list_rep h H L" and "Link s \<notin> family_nodes H L"
  shows "list_family list_rep (null_link s h) H L"
proof -
  have "list_rep (null_link s h) g (L g)" if "g \<in> H" for g
  proof (rule list_rep_frame [OF lists.family_rep [OF assms(1) that]])
    fix n assume "n \<in> set (g # L g)"
    then have "n \<noteq> Link s" using assms(2) that by (auto simp: family_nodes_iff)
    then show "lh_next (null_link s h) n = lh_next h n" "lh_prev (null_link s h) n = lh_prev h n"
      by (simp_all add: null_link_def)
  qed
  with assms(1) show ?thesis by (simp add: list_family_def)
qed

lemma unat_page_shift:
  assumes "unat p < 0x38000"
  shows "unat (push_bit PAGE_SHIFT (p :: u32)) = unat p * 4096"
proof -
  have "take_bit 32 (unat p * 4096) = unat p * 4096" using assms by (simp add: take_bit_nat_eq_self_iff)
  then show ?thesis
    unfolding PAGE_SHIFT_def by (simp only: unsigned_push_bit_eq) (simp add: push_bit_eq_mult)
qed

lemma unat_slab_at:
  assumes "unat p < 0x38000"
  shows "unat (slab_at p) = 0xC0000000 + 4096 * unat p"
  using assms unat_page_shift [OF assms] unfolding slab_at_def virt_addr_def PAGE_OFFSET_def
  by (subst unat_plus_no_wrap) simp_all

lemma slab_at_inj:
  assumes "unat p + 2 \<le> 0x38000" and "unat q + 2 \<le> 0x38000" and "slab_at p = slab_at q"
  shows "p = q"
proof -
  have "unat p = unat q"
    using unat_slab_at [of p] unat_slab_at [of q] assms by simp
  then show ?thesis by (simp add: word_unat_eq_iff)
qed

lemma page_pair_disjoint:
  assumes "blocks_ok A" and "(p, SLAB_ORDER) \<in> A" and "(q, SLAB_ORDER) \<in> A" and "p \<noteq> q"
    and "unat p + 2 \<le> 0x38000" and "unat q + 2 \<le> 0x38000"
  shows "{p, p + 1} \<inter> {q, q + 1} = {}"
proof -
  have "span (p, SLAB_ORDER) \<inter> span (q, SLAB_ORDER) = {}"
    using blocks_ok_disjoint [OF assms(1-3)] assms(4) by blast
  moreover have "unat (r + 1) = unat r + 1" if "unat r + 2 \<le> 0x38000" for r :: u32
    using that by (subst unat_plus_no_wrap) simp_all
  then have "unat ` {p, p + 1} \<subseteq> span (p, SLAB_ORDER)" "unat ` {q, q + 1} \<subseteq> span (q, SLAB_ORDER)"
    using assms(5,6) by (simp_all add: span_def SLAB_ORDER_def)
  ultimately show ?thesis by blast
qed

lemma fresh_bitmap:
  assumes "cache_ok (ss_caches st c)"
  shows "used (slab_init c s st) c s = {}" and "unat (sb_free (ss_slabs (slab_init c s st) s)) = slots st c"
    and "sb_cache (ss_slabs (slab_init c s st) s) = c"
proof -
  let ?off = "unat (sc_object_offset (ss_caches st c))"
  have "cleared_word ?off (i div 32) w = 0" if "i < slots st c" for i w
  proof -
    have "i div 32 + 1 \<le> (slots st c + 31) div 32" using that by linarith
    then have "16 + 4 * (i div 32) + 4 \<le> ?off" using assms by (simp add: cache_ok_def slots_def)
    then show ?thesis by (simp add: cleared_word_def SIZEOF_SLAB_def)
  qed
  then show "used (slab_init c s st) c s = {}"
    by (auto simp: used_def slab_init_def slot_bit_def slots_def Let_def)
  show "unat (sb_free (ss_slabs (slab_init c s st) s)) = slots st c" "sb_cache (ss_slabs (slab_init c s st) s) = c"
    by (simp_all add: slab_init_def slots_def Let_def)
qed

lemma slab_ok_frame:
  assumes "slab_ok st A c s" and "A \<subseteq> A'" and "ss_slabs st' s = ss_slabs st s" and "ss_caches st' = ss_caches st"
    and "\<And>p. s = slab_at p \<Longrightarrow> (p, SLAB_ORDER) \<in> A \<Longrightarrow> unat p + 2 \<le> 0x38000 \<Longrightarrow>
      pg_slab (ss_pages st') p = pg_slab (ss_pages st) p \<and> pg_slab (ss_pages st') (p + 1) = pg_slab (ss_pages st) (p + 1)"
  shows "slab_ok st' A' c s" and "used st' c s = used st c s"
proof -
  show u: "used st' c s = used st c s" using assms(3,4) by (simp add: used_def slots_def)
  show "slab_ok st' A' c s" using assms u unfolding slab_ok_def slots_def by auto
qed

text \<open>What is asked of the page allocator's zones: low memory only, so that slabs have addresses.\<close>

definition low_zone :: "zone_type set \<Rightarrow> page_state \<Rightarrow> bool" where
  "low_zone Z pages \<longleftrightarrow> ZONE_NORMAL \<in> Z \<and> unat (z_end_pfn (nd_zones pages ZONE_NORMAL)) \<le> 0x38000"

lemma low_zone_same: "same_layout p q \<Longrightarrow> low_zone Z q = low_zone Z p"
  by (simp add: low_zone_def same_layout_def)

definition same_zones :: "slab_state \<Rightarrow> slab_state \<Rightarrow> bool" where
  "same_zones st st' \<longleftrightarrow> nd_zones (ss_pages st') = nd_zones (ss_pages st)"

lemma slab_cache_grow_result:
  assumes inv: "slab_inv st Z C P F A" and c: "c \<in> C" and low: "low_zone Z (ss_pages st)"
    and fl: "flags AND ALLOC_NORMAL \<noteq> 0"
  shows "slab_cache_grow c flags st = Inr st \<and> \<not> (\<exists>r. aligned r SLAB_ORDER \<and>
      span (r, SLAB_ORDER) \<subseteq> free_frames ZONE_NORMAL (ss_pages st) A) \<or>
    (\<exists>p st'. slab_cache_grow c flags st = Inr st' \<and>
      slab_inv st' Z C (P(c := P c @ [slab_at p])) F (insert (p, SLAB_ORDER) A) \<and>
      (p, SLAB_ORDER) \<notin> A \<and> unat p + 2 \<le> 0x38000 \<and>
      used st' c (slab_at p) = {} \<and> (\<forall>c'\<in>C. \<forall>s\<in>set (P c') \<union> set (F c'). s \<noteq> slab_at p \<and> used st' c' s = used st c' s) \<and>
      ss_caches st' = ss_caches st \<and> same_zones st st')"
proof -
  note D = slab_invD [OF inv]
  have z: "ZONE_NORMAL \<in> Z" "frames ZONE_NORMAL (ss_pages st) \<subseteq> {..< 0x38000}"
    using low by (auto simp: low_zone_def frames_def)
  have k: "SLAB_ORDER < MAX_ORDER" by (simp add: SLAB_ORDER_def MAX_ORDER_def)
  note res = alloc_pages_result [OF D(1) z(1) k fl]
  show ?thesis
  proof (cases "\<exists>r. aligned r SLAB_ORDER \<and> span (r, SLAB_ORDER) \<subseteq> free_frames ZONE_NORMAL (ss_pages st) A")
    case False
    with res have "alloc_pages SLAB_ORDER flags (ss_pages st) = Inr (None, ss_pages st)" by simp
    then have "slab_cache_grow c flags st = Inr st" by (simp add: slab_cache_grow_def)
    with False show ?thesis by blast
  next
    case True
    with res obtain p pages where a: "alloc_pages SLAB_ORDER flags (ss_pages st) = Inr (Some p, pages)"
      "owns Z pages (insert (p, SLAB_ORDER) A)" "(p, SLAB_ORDER) \<notin> A" "unat p \<in> frames ZONE_NORMAL (ss_pages st)"
      "same_layout (ss_pages st) pages" by auto
    let ?s = "slab_at p" and ?A = "insert (p, SLAB_ORDER) A"
    have "span (p, SLAB_ORDER) \<subseteq> frames ZONE_NORMAL pages"
      using owned_in_zone [OF a(2) _ z(1)] a(4,5) by (simp add: same_layout_frames)
    then have "span (p, SLAB_ORDER) \<subseteq> {..< 0x38000}" using z(2) a(5) by (auto simp: same_layout_frames)
    moreover have "unat p + 1 \<in> span (p, SLAB_ORDER)" by (simp add: span_def SLAB_ORDER_def)
    ultimately have "unat p + 1 < 0x38000" by blast
    then have p2: "unat p + 2 \<le> 0x38000" by simp
    let ?st1 = "st\<lparr>ss_pages := pages\<rparr>"
    let ?st3 = "slab_links (list_insert_before (Partial c) (Link ?s)) (slab_init c ?s ?st1)"
    let ?st4 = "set_page_slab (p + 1) ?s (set_page_slab p ?s ?st3)"
    have va: "page_virtual_address p pages = ?s"
      using a(2) by (auto simp: owns_def page_virtual_address_def page_physical_address_def slab_at_def
          pfn_page_conv)
    have g: "slab_cache_grow c flags st = Inr ?st4"
      using a(1) by (simp add: slab_cache_grow_def va SLAB_ORDER_def BITU_def upt_rec Let_def)
    have fields: "ss_caches ?st4 = ss_caches st" "ss_slabs ?st4 = (ss_slabs st)(?s := ss_slabs (slab_init c ?s ?st1) ?s)"
      "pg_slab (ss_pages ?st4) = (pg_slab (ss_pages st))(p := ?s, p + 1 := ?s)"
      "ss_links ?st4 = list_insert_before (Partial c) (Link ?s) (null_link ?s (ss_links st))"
      "ss_pages ?st4 = pages\<lparr>pg_slab := (pg_slab pages)(p := ?s, p + 1 := ?s)\<rparr>"
      using a(5) by (simp_all add: set_page_slab_def slab_init_def Let_def same_layout_def)
    have blocks: "blocks_ok ?A" using owns_blocks_ok [OF a(2)] .
    have new: "s \<noteq> ?s" and old_ok: "slab_ok ?st4 ?A c' s" and old_used: "used ?st4 c' s = used st c' s"
      if "slab_ok st A c' s" for c' s
    proof -
      from that obtain q where q: "s = slab_at q" "(q, SLAB_ORDER) \<in> A" "unat q + 2 \<le> 0x38000"
        by (auto simp: slab_ok_def)
      have "q \<noteq> p" using q(2) a(3) by blast
      then show ns: "s \<noteq> ?s" using slab_at_inj [OF q(3) p2] q(1) by auto
      have "pg_slab (ss_pages ?st4) q' = pg_slab (ss_pages st) q' \<and>
          pg_slab (ss_pages ?st4) (q' + 1) = pg_slab (ss_pages st) (q' + 1)"
        if "(q', SLAB_ORDER) \<in> A" "unat q' + 2 \<le> 0x38000" for q'
      proof -
        have "q' \<noteq> p" using that(1) a(3) by blast
        from page_pair_disjoint [OF blocks _ _ this that(2) p2] that(1)
        have "{q', q' + 1} \<inter> {p, p + 1} = {}" by blast
        then show ?thesis unfolding fields(3) by auto
      qed
      then show "slab_ok ?st4 ?A c' s" "used ?st4 c' s = used st c' s"
        using slab_ok_frame [OF that subset_insertI, of ?st4] ns fields(1,2) by simp_all
    qed
    have unew: "used ?st4 c ?s = {}"
      using fresh_bitmap(1) [of ?st1 c ?s] D(3) [OF c] fields(1,2) by (simp add: used_def slots_def slab_init_def Let_def)
    have oknew: "slab_ok ?st4 ?A c ?s" "sb_free (ss_slabs ?st4 ?s) \<noteq> 0"
    proof -
      have free: "unat (sb_free (ss_slabs ?st4 ?s)) = slots ?st4 c" "sb_cache (ss_slabs ?st4 ?s) = c"
        using fresh_bitmap(2,3) [of ?st1 c ?s] D(3) [OF c] fields(1,2) by (simp_all add: slots_def)
      then show "slab_ok ?st4 ?A c ?s"
        unfolding slab_ok_def fields(3) by (intro conjI exI [of _ p]) (use p2 unew in simp_all)
      have "0 < slots ?st4 c" using D(3) [OF c] fields(1) by (simp add: slots_def cache_ok_def word_less_nat_alt)
      with free show "sb_free (ss_slabs ?st4 ?s) \<noteq> 0" by auto
    qed
    have notin: "Link ?s \<notin> family_nodes (heads C) (slab_lists P F)"
      using D(4,6) new unfolding link_in_family by blast
    have "list_family list_rep (ss_links ?st4) (heads C) (slab_lists (P(c := P c @ [?s])) F)"
      using lists.family_ins_before [OF null_link_family [OF D(2) notin] _ notin, of "Partial c"] c
      unfolding fields(4) by (simp add: slab_lists_upd)
    moreover have "owns Z (ss_pages ?st4) ?A" using a(2) unfolding fields(5) by simp
    moreover have "slab_ok ?st4 ?A c' s \<and> sb_free (ss_slabs ?st4 s) \<noteq> 0"
      if "c' \<in> C" "s \<in> set ((P(c := P c @ [?s])) c')" for c' s
    proof (cases "s \<in> set (P c')")
      case True
      with D(4,5) [OF that(1) True] old_ok new fields(2) show ?thesis by simp
    next
      case False
      with that have "c' = c" "s = ?s" by (auto split: if_splits)
      with oknew show ?thesis by simp
    qed
    moreover have "slab_ok ?st4 ?A c' s \<and> sb_free (ss_slabs ?st4 s) = 0" if "c' \<in> C" "s \<in> set (F c')" for c' s
      using D(6,7) [OF that] old_ok new fields(2) by simp
    ultimately have "slab_inv ?st4 Z C (P(c := P c @ [?s])) F ?A"
      using D(3) unfolding slab_inv_def fields(1) by blast
    moreover have "\<forall>c'\<in>C. \<forall>s\<in>set (P c') \<union> set (F c'). s \<noteq> ?s \<and> used ?st4 c' s = used st c' s"
      using D(4,6) new old_used by blast
    moreover have "same_zones st ?st4" using a(5) fields(5) by (simp add: same_zones_def same_layout_def)
    ultimately show ?thesis using g unew fields(1) a(3) p2 by blast
  qed
qed

subsection \<open>Addresses of objects\<close>

definition object_bytes :: "slab_state \<Rightarrow> u32 \<Rightarrow> u32 \<times> nat \<Rightarrow> nat set" where
  "object_bytes st c ob =
     {unat (object_addr st c (fst ob) (snd ob)) ..<
      unat (object_addr st c (fst ob) (snd ob)) + unat (sc_object_size (ss_caches st c))}"

lemma slab_ok_address:
  assumes "slab_ok st A c s"
  obtains p where "s = slab_at p" and "(p, SLAB_ORDER) \<in> A" and "unat p + 2 \<le> 0x38000"
    and "pg_slab (ss_pages st) p = s" and "pg_slab (ss_pages st) (p + 1) = s"
    and "unat s = 0xC0000000 + 4096 * unat p"
  using assms unat_slab_at unfolding slab_ok_def by fastforce

lemma slot_fits:
  assumes "cache_ok cache" and "i < unat (sc_object_count cache)"
  shows "unat (sc_object_offset cache) + (i + 1) * unat (sc_object_size cache) \<le> 8192"
proof -
  have "(i + 1) * unat (sc_object_size cache) \<le> unat (sc_object_count cache) * unat (sc_object_size cache)"
    using assms(2) by (intro mult_right_mono) simp_all
  with assms(1) show ?thesis by (simp add: cache_ok_def)
qed

lemma object_addr_nat:
  assumes "slab_ok st A c s" and "cache_ok (ss_caches st c)" and "i < slots st c"
  shows "unat (object_addr st c s i) =
    unat s + unat (sc_object_offset (ss_caches st c)) + i * unat (sc_object_size (ss_caches st c))"
    and "unat s + unat (sc_object_offset (ss_caches st c)) + (i + 1) * unat (sc_object_size (ss_caches st c))
      \<le> unat s + 8192"
proof -
  let ?o = "sc_object_offset (ss_caches st c)" and ?z = "sc_object_size (ss_caches st c)"
  obtain p :: u32 where p: "unat p + 2 \<le> 0x38000" "unat s = 0xC0000000 + 4096 * unat p"
    by (rule slab_ok_address [OF assms(1)]) blast
  have f: "unat ?o + (i + 1) * unat ?z \<le> 8192" using slot_fits assms(2,3) by (simp add: slots_def)
  then show "unat s + unat ?o + (i + 1) * unat ?z \<le> unat s + 8192" by simp
  have z: "0 < unat ?z" using assms(2) by (simp add: cache_ok_def word_less_nat_alt)
  then have "i \<le> i * unat ?z" by simp
  also have "\<dots> \<le> 8192" using f by simp
  finally have i: "unat (of_nat i :: u32) = i" by (simp add: unsigned_of_nat take_bit_nat_eq_self_iff)
  have iz: "unat (of_nat i * ?z) = i * unat ?z"
  proof -
    have "unat (of_nat i :: u32) * unat ?z < 2 ^ LENGTH(32)" unfolding i using f by simp
    then have "unat (of_nat i * ?z) = unat (of_nat i :: u32) * unat ?z" by (rule iffD1 [OF unat_mult_lem])
    with i show ?thesis by simp
  qed
  have so: "unat (s + ?o) = unat s + unat ?o" using f p by (subst unat_plus_no_wrap) simp_all
  have "unat (s + ?o) + unat (of_nat i * ?z) < 2 ^ LENGTH(32)" unfolding so iz using f p by simp
  from unat_plus_no_wrap [OF this] show "unat (object_addr st c s i) = unat s + unat ?o + i * unat ?z"
    unfolding object_addr_def so iz .
qed

lemma slab_bytes_disjoint:
  assumes "blocks_ok A" and "slab_ok st A c s" and "slab_ok st A c' s'" and "s \<noteq> s'"
  shows "unat s + 8192 \<le> unat s' \<or> unat s' + 8192 \<le> unat s"
proof -
  obtain p where p: "s = slab_at p" "(p, SLAB_ORDER) \<in> A" "unat s = 0xC0000000 + 4096 * unat p"
    by (rule slab_ok_address [OF assms(2)]) blast
  obtain q where q: "s' = slab_at q" "(q, SLAB_ORDER) \<in> A" "unat s' = 0xC0000000 + 4096 * unat q"
    by (rule slab_ok_address [OF assms(3)]) blast
  have "p \<noteq> q" using p(1) q(1) assms(4) by blast
  then have "span (p, SLAB_ORDER) \<inter> span (q, SLAB_ORDER) = {}"
    using blocks_ok_disjoint [OF assms(1) p(2) q(2)] by blast
  then have "unat p \<notin> span (q, SLAB_ORDER)" "unat q \<notin> span (p, SLAB_ORDER)" using span_head by blast+
  then have "unat p + 2 \<le> unat q \<or> unat q + 2 \<le> unat p" by (auto simp: span_def SLAB_ORDER_def)
  then show ?thesis using p(3) q(3) by linarith
qed

lemma live_slab:
  assumes "slab_inv st Z C P F A" and "c \<in> C" and "(s, i) \<in> live st P F c"
  shows "slab_ok st A c s" and "i < slots st c" and "i \<in> used st c s"
  using slab_invD(4,6) [OF assms(1,2)] assms(3) by (auto simp: live_def used_def)

subsection \<open>Allocation and free\<close>

lemma slab_cache_alloc_result:
  assumes inv: "slab_inv st Z C P F A" and c: "c \<in> C" and low: "low_zone Z (ss_pages st)"
    and fl: "P c = [] \<Longrightarrow> flags AND ALLOC_NORMAL \<noteq> 0"
  shows "if P c = [] \<and> \<not> (\<exists>r. aligned r SLAB_ORDER \<and>
        span (r, SLAB_ORDER) \<subseteq> free_frames ZONE_NORMAL (ss_pages st) A)
    then slab_cache_alloc c flags st = Some (Inr (None, st))
    else \<exists>s i st' P' F' A'. slab_cache_alloc c flags st = Some (Inr (Some (object_addr st c s i), st')) \<and>
      slab_inv st' Z C P' F' A' \<and> slabs_grow c (slab_members P F) A (slab_members P' F') A' \<and> i < slots st c \<and> (s, i) \<notin> live st P F c \<and>
      live st' P' F' c = insert (s, i) (live st P F c) \<and>
      (\<forall>c'\<in>C. c' \<noteq> c \<longrightarrow> live st' P' F' c' = live st P F c') \<and> ss_caches st' = ss_caches st \<and> same_zones st st'"
proof (cases "P c = []")
  case False
  then obtain s ps where P: "P c = s # ps" by (cases "P c") auto
  have "\<not> list_empty (Partial c) (ss_links st)"
    using lists.family_empty_iff [OF slab_invD(2) [OF inv], of "Partial c"] c False by simp
  then have take: "slab_cache_alloc c flags st = slab_cache_take c st" by (simp add: slab_cache_alloc_def)
  obtain i st' P' F' where t: "slab_cache_take c st = Some (Inr (Some (object_addr st c s i), st'))"
    "slab_inv st' Z C P' F' A" "i < slots st c" "(s, i) \<notin> live st P F c"
    "live st' P' F' c = insert (s, i) (live st P F c)"
    "\<forall>c'\<in>C. c' \<noteq> c \<longrightarrow> live st' P' F' c' = live st P F c'" "ss_caches st' = ss_caches st" "ss_pages st' = ss_pages st"
    "slab_members P' F' = slab_members P F"
    using slab_cache_take_result [OF inv c P] by blast
  from t(8) have "same_zones st st'" by (simp add: same_zones_def)
  moreover have "slabs_grow c (slab_members P F) A (slab_members P' F') A" by (simp only: slabs_grow_def t(9)) simp
  ultimately show ?thesis using False take t(1-7) by (simp only: simp_thms if_False) blast
next
  case True
  have e: "list_empty (Partial c) (ss_links st)"
    using lists.family_empty_iff [OF slab_invD(2) [OF inv], of "Partial c"] c True by simp
  show ?thesis
  proof (cases "\<exists>r. aligned r SLAB_ORDER \<and> span (r, SLAB_ORDER) \<subseteq> free_frames ZONE_NORMAL (ss_pages st) A")
    case False
    have "slab_cache_grow c flags st = Inr st"
    proof -
      have "alloc_pages SLAB_ORDER flags (ss_pages st) = Inr (None, ss_pages st)"
        using alloc_pages_result [OF slab_invD(1) [OF inv] _ _ fl [OF True], of SLAB_ORDER] low
        unfolding if_not_P [OF False] by (simp add: low_zone_def SLAB_ORDER_def MAX_ORDER_def)
      then show ?thesis by (simp add: slab_cache_grow_def)
    qed
    then have "slab_cache_alloc c flags st = Some (Inr (None, st))"
      using e by (simp add: slab_cache_alloc_def slab_cache_take_def)
    with True False show ?thesis by simp
  next
    case run: True
    then obtain p st1 where g: "slab_cache_grow c flags st = Inr st1"
      "slab_inv st1 Z C (P(c := P c @ [slab_at p])) F (insert (p, SLAB_ORDER) A)"
      "used st1 c (slab_at p) = {}"
      "\<forall>c'\<in>C. \<forall>s\<in>set (P c') \<union> set (F c'). s \<noteq> slab_at p \<and> used st1 c' s = used st c' s"
      "ss_caches st1 = ss_caches st" "same_zones st st1" "(p, SLAB_ORDER) \<notin> A" "unat p + 2 \<le> 0x38000"
      using slab_cache_grow_result [OF inv c low fl [OF True]] by blast
    let ?P = "P(c := P c @ [slab_at p])"
    have P1: "?P c = slab_at p # []" using True by simp
    have l: "live st1 ?P F c' = live st P F c'" if "c' \<in> C" for c'
      using g(3,4) that by (auto simp: live_def)
    from slab_cache_take_result [OF g(2) c P1] obtain i st2 P2 F2 where
      t: "slab_cache_take c st1 = Some (Inr (Some (object_addr st1 c (slab_at p) i), st2))"
      "slab_inv st2 Z C P2 F2 (insert (p, SLAB_ORDER) A)" "i < slots st1 c" "(slab_at p, i) \<notin> live st1 ?P F c"
      "live st2 P2 F2 c = insert (slab_at p, i) (live st1 ?P F c)"
      "\<forall>c'\<in>C. c' \<noteq> c \<longrightarrow> live st2 P2 F2 c' = live st1 ?P F c'"
      "ss_caches st2 = ss_caches st1" "ss_pages st2 = ss_pages st1"
      "slab_members P2 F2 = slab_members ?P F" by blast
    have "slab_members ?P F = (slab_members P F)(c := insert (slab_at p) (slab_members P F c))"
      by (simp add: slab_members_def fun_eq_iff)
    with t(9) g(7,8) have grow: "slabs_grow c (slab_members P F) A (slab_members P2 F2) (insert (p, SLAB_ORDER) A)"
      by (auto simp: slabs_grow_def)
    have "slab_cache_alloc c flags st = Some (Inr (Some (object_addr st c (slab_at p) i), st2))"
      using e g(1,5) t(1) by (simp add: slab_cache_alloc_def object_addr_def)
    moreover have "i < slots st c" using t(3) g(5) by (simp add: slots_def)
    moreover have "same_zones st st2" using g(6) t(8) by (simp add: same_zones_def)
    moreover have "live st2 P2 F2 c = insert (slab_at p, i) (live st P F c)" "(slab_at p, i) \<notin> live st P F c"
      "\<forall>c'\<in>C. c' \<noteq> c \<longrightarrow> live st2 P2 F2 c' = live st P F c'" "ss_caches st2 = ss_caches st"
      using t(4-7) l [OF c] l g(5) by simp_all
    ultimately show ?thesis using run t(2) grow
      by (simp only: simp_thms if_False) blast
  qed
qed

lemma object_page:
  assumes "slab_ok st A c s" and "cache_ok (ss_caches st c)" and "i < slots st c"
    and "nd_start_pfn (ss_pages st) = 0"
  shows "pg_slab (ss_pages st)
    (pfn_to_page (drop_bit PAGE_SHIFT (phys_addr (object_addr st c s i))) (ss_pages st)) = s"
proof -
  obtain p :: u32 where p: "unat p + 2 \<le> 0x38000" "pg_slab (ss_pages st) p = s" "pg_slab (ss_pages st) (p + 1) = s"
    "unat s = 0xC0000000 + 4096 * unat p"
    by (rule slab_ok_address [OF assms(1)]) blast
  let ?a = "object_addr st c s i" and ?q = "drop_bit PAGE_SHIFT (phys_addr (object_addr st c s i))"
  have z: "0 < unat (sc_object_size (ss_caches st c))" using assms(2) by (simp add: cache_ok_def word_less_nat_alt)
  have a: "unat s \<le> unat ?a" "unat ?a < unat s + 8192"
    using object_addr_nat [OF assms(1-3)] z by (simp_all add: algebra_simps)
  then have "PAGE_OFFSET \<le> ?a" using p(4) by (simp add: word_le_nat_alt PAGE_OFFSET_def)
  then have "unat (phys_addr ?a) = unat ?a - 0xC0000000"
    unfolding phys_addr_def by (subst unat_minus_no_wrap) (simp_all add: PAGE_OFFSET_def)
  then have "unat ?q = (unat ?a - 0xC0000000) div 4096"
    unfolding PAGE_SHIFT_def by (simp add: unat_div drop_bit_eq_div)
  then have "unat ?q = unat p \<or> unat ?q = unat p + 1" using a p(4) by linarith
  moreover have "unat (p + 1) = unat p + 1" using p(1) by (subst unat_plus_no_wrap) simp_all
  ultimately have "?q = p \<or> ?q = p + 1" by (simp add: word_unat_eq_iff)
  then show ?thesis using p(2,3) assms(4) by (auto simp: pfn_to_page_def)
qed

lemma slab_free_result:
  assumes ok: "slab_ok st A c s" and c: "cache_ok (ss_caches st c)" and i: "i \<in> used st c s"
  shows "\<exists>v. slab_free c s (object_addr st c s i) st = Inr (set_slab s v st) \<and>
    used (set_slab s v st) c s = used st c s - {i} \<and> slab_ok (set_slab s v st) A c s \<and> sb_free v \<noteq> 0"
proof -
  let ?o = "sc_object_offset (ss_caches st c)" and ?z = "sc_object_size (ss_caches st c)"
  let ?bm = "sb_bitmap (ss_slabs st s)" and ?f = "sb_free (ss_slabs st s)"
  have isl: "i < slots st c" using i by (simp add: used_def)
  have z: "0 < unat ?z" "?z \<noteq> 0" using c by (auto simp: cache_ok_def word_less_nat_alt)
  note f = slot_fits [OF c isl [unfolded slots_def]]
  have "i \<le> i * unat ?z" using z(1) by simp
  also have "\<dots> \<le> 8192" using f by simp
  finally have iu: "unat (of_nat i :: u32) = i" by (simp add: unsigned_of_nat take_bit_nat_eq_self_iff)
  have "unat (of_nat i :: u32) * unat ?z < 2 ^ LENGTH(32)" unfolding iu using f by simp
  then have "unat (of_nat i * ?z) = i * unat ?z" using iffD1 [OF unat_mult_lem] iu by metis
  then have "unat (of_nat i * ?z div ?z) = i" using z(1) by (simp add: unat_div)
  then have bit: "(object_addr st c s i - (s + ?o)) div ?z = of_nat i"
    using iu by (simp add: object_addr_def word_unat_eq_iff)
  have w: "unat (of_nat i div (SIZEOF_BITMAP * 8) :: u32) = i div 32" "unat (of_nat i mod (SIZEOF_BITMAP * 8) :: u32) = i mod 32"
    unfolding unat_div unat_mod iu by (simp_all add: SIZEOF_BITMAP_def)
  let ?v = "(ss_slabs st s)\<lparr>sb_bitmap := ?bm(i div 32 := ?bm (i div 32) AND NOT (push_bit (i mod 32) 1)),
    sb_free := ?f + 1\<rparr>"
  have r: "slab_free c s (object_addr st c s i) st = Inr (set_slab s ?v st)"
    unfolding slab_free_def Let_def bit w using z(2) by simp
  have u: "used (set_slab s ?v st) c s = used st c s - {i}"
    using slot_bit_clear [of "i mod 32" ?bm "i div 32"] by (auto simp: used_def)
  have card: "0 < card (used st c s)" using i by (auto simp: card_gt_0_iff)
  then have "card (used st c s - {i}) + 1 = card (used st c s)" using i by simp
  moreover have le: "unat ?f + card (used st c s) = slots st c" using ok by (simp add: slab_ok_def)
  moreover have f1: "unat (?f + 1) = unat ?f + 1"
  proof -
    have "unat ?f + 1 \<le> slots st c" using le card by linarith
    also have "\<dots> < 2 ^ LENGTH(32)" using unat_lt_2p32 [of "sc_object_count (ss_caches st c)"] by (simp add: slots_def)
    finally show ?thesis by (subst unat_plus_no_wrap) simp_all
  qed
  ultimately have "slab_ok (set_slab s ?v st) A c s" using ok u by (simp add: slab_ok_def)
  moreover have "?f + 1 \<noteq> 0" using f1 by (metis Suc_eq_plus1 nat.distinct(1) unsigned_0)
  ultimately show ?thesis using r u by (intro exI [of _ ?v]) simp
qed

lemma slab_cache_free_result:
  assumes inv: "slab_inv st Z C P F A" and c: "c \<in> C" and ob: "(s, i) \<in> live st P F c"
  shows "\<exists>st' P' F'. slab_cache_free c (object_addr st c s i) st = Inr st' \<and> slab_inv st' Z C P' F' A \<and>
    live st' P' F' c = live st P F c - {(s, i)} \<and>
    (\<forall>c'\<in>C. c' \<noteq> c \<longrightarrow> live st' P' F' c' = live st P F c') \<and>
    ss_caches st' = ss_caches st \<and> ss_pages st' = ss_pages st \<and> slab_members P' F' = slab_members P F"
proof -
  note D = slab_invD [OF inv] and L = live_slab [OF inv c ob]
  have start: "nd_start_pfn (ss_pages st) = 0" using D(1) by (auto simp: owns_def page_inv_start)
  note page = object_page [OF L(1) D(3) [OF c] L(2) start]
  from slab_free_result [OF L(1) D(3) [OF c] L(3)] obtain v where
    v: "slab_free c s (object_addr st c s i) st = Inr (set_slab s v st)"
      "used (set_slab s v st) c s = used st c s - {i}" "slab_ok (set_slab s v st) A c s" "sb_free v \<noteq> 0" by blast
  let ?st1 = "set_slab s v st"
  have same_live: "{(s', k). s' \<in> S \<and> k \<in> used ?st1 c' s'} = {(s', k). s' \<in> S \<and> k \<in> used st c' s'}"
    if "s \<notin> S" for S c'
    using that by auto (metis slab_ok_other(1))+
  show ?thesis
  proof (cases "s \<in> set (F c)")
    case True
    have other: "s' \<noteq> s" if "c' \<in> C" "s' \<in> set (P c') \<or> c' \<noteq> c \<and> s' \<in> set (F c')" for c' s'
      using slab_unique(1,3) [OF inv that(1) c] slab_unique(3) [OF inv c that(1)] True that(2) by blast
    let ?P = "P(c := P c @ [s])" and ?F = "F(c := remove1 s (F c))"
    let ?st2 = "slab_links (list_insert_before (Partial c) (Link s)) (slab_links (list_remove (Link s)) ?st1)"
    have d: "set (remove1 s (F c)) = set (F c) - {s}" using slab_unique(5) [OF inv c c] by simp
    have "list_family list_rep (ss_links ?st2) (heads C) (slab_lists ?P ?F)"
      using lists.family_move_before [OF D(2), of "Full c" "Partial c" "Link s"] c True
      by (simp add: slab_lists_upd remove1_map_Link fun_upd_twist)
    then have "slab_inv ?st2 Z C ?P ?F A"
      using D other v(3,4) d unfolding slab_inv_def by auto
    moreover have "live ?st2 ?P ?F c = live st P F c - {(s, i)}"
      using same_live [of "set (P c) \<union> (set (F c) - {s})" c] v(2) other [OF c] True d by (auto simp: live_def)
    moreover have "live ?st2 ?P ?F c' = live st P F c'" if "c' \<in> C" "c' \<noteq> c" for c'
      using same_live [of "set (P c') \<union> set (F c')" c'] other [OF that(1)] that(2) by (auto simp: live_def)
    moreover have "slab_cache_free c (object_addr st c s i) st = Inr ?st2"
      using page v(1) D(7) [OF c True] by (simp add: slab_cache_free_def)
    moreover have "slab_members ?P ?F = slab_members P F" using True
      by (simp add: slab_members_def fun_eq_iff d) blast
    ultimately show ?thesis by (intro exI [of _ ?st2] exI [of _ ?P] exI [of _ ?F]) simp
  next
    case False
    then have sP: "s \<in> set (P c)" using ob by (simp add: live_def)
    have other: "s' \<noteq> s" if "c' \<in> C" "c' \<noteq> c \<and> s' \<in> set (P c') \<or> s' \<in> set (F c')" for c' s'
      using slab_unique(1,2) [OF inv c that(1)] sP that(2) by blast
    have "slab_ok ?st1 A c' s' \<and> sb_free (ss_slabs ?st1 s') \<noteq> 0" if m: "c' \<in> C" "s' \<in> set (P c')" for c' s'
    proof (cases "s' = s")
      case True
      then have "c' = c" using slab_unique(2) [OF inv c m(1) sP] m(2) by simp
      with True v(3,4) show ?thesis by simp
    next
      case False
      with D(4,5) [OF m] show ?thesis by simp
    qed
    moreover have "slab_ok ?st1 A c' s' \<and> sb_free (ss_slabs ?st1 s') = 0" if m: "c' \<in> C" "s' \<in> set (F c')" for c' s'
      using D(6,7) [OF m] other [OF m(1), of s'] m(2) by simp
    ultimately have "slab_inv ?st1 Z C P F A" using D(1-3) by (simp add: slab_inv_def)
    moreover have "live ?st1 P F c = live st P F c - {(s, i)}"
      using same_live [of "(set (P c) \<union> set (F c)) - {s}" c] v(2) sP by (auto simp: live_def)
    moreover have "live ?st1 P F c' = live st P F c'" if "c' \<in> C" "c' \<noteq> c" for c'
      using same_live [of "set (P c') \<union> set (F c')" c'] other [OF that(1)] that(2) by (auto simp: live_def)
    moreover have "slab_cache_free c (object_addr st c s i) st = Inr ?st1"
      using page v(1) D(5) [OF c sP] by (simp add: slab_cache_free_def)
    ultimately show ?thesis by (intro exI [of _ ?st1] exI [of _ P] exI [of _ F]) simp
  qed
qed

subsection \<open>Creation and destruction\<close>

lemma list_family_subset: "list_family rep h H L \<Longrightarrow> H' \<subseteq> H \<Longrightarrow> list_family rep h H' L"
  unfolding list_family_def disjoint_lists_def by blast

lemma list_family_weaken:
  "\<lbrakk>list_family rep h H L; \<And>g. g \<in> H \<Longrightarrow> L' g = L g\<rbrakk> \<Longrightarrow> list_family rep h H L'"
  by (simp add: list_family_def disjoint_lists_def)

lemma slab_ok_caches:
  assumes "slab_ok st A c s" and "ss_caches st' c = ss_caches st c" and "ss_slabs st' = ss_slabs st"
    and "pg_slab (ss_pages st') = pg_slab (ss_pages st)"
    and "\<And>p. s = slab_at p \<Longrightarrow> unat p + 2 \<le> 0x38000 \<Longrightarrow> (p, SLAB_ORDER) \<in> A \<Longrightarrow> (p, SLAB_ORDER) \<in> A'"
  shows "slab_ok st' A' c s" and "used st' c s = used st c s"
proof -
  show u: "used st' c s = used st c s" using assms(2,3) by (simp add: used_def slots_def)
  show "slab_ok st' A' c s" using assms u unfolding slab_ok_def slots_def by auto
qed

lemma slab_cache_create_result:
  assumes inv: "slab_inv st Z C P F A" and c: "c \<notin> C"
    and sz: "slab_object_size n al = Inr osz" "0 < osz" "unat osz \<le> 8172"
  shows "\<exists>st'. slab_cache_create c n al st = Inr st' \<and>
    slab_inv st' Z (insert c C) (P(c := [])) (F(c := [])) A \<and>
    sc_object_size (ss_caches st' c) = osz \<and> live st' (P(c := [])) (F(c := [])) c = {} \<and>
    (\<forall>c'\<in>C. live st' (P(c := [])) (F(c := [])) c' = live st P F c') \<and> ss_pages st' = ss_pages st \<and>
    (\<forall>c'\<in>C. ss_caches st' c' = ss_caches st c')"
proof -
  note D = slab_invD [OF inv]
  let ?P = "P(c := [])" and ?F = "F(c := [])"
  from slab_cache_init_result [OF sz] obtain st' where
    i: "slab_cache_init c n al st = Inr st'" "cache_ok (ss_caches st' c)" "sc_object_size (ss_caches st' c) = osz"
      "\<forall>c'. c' \<noteq> c \<longrightarrow> ss_caches st' c' = ss_caches st c'"
      "ss_links st' = list_init_head (Full c) (list_init_head (Partial c) (ss_links st))"
      "ss_pages st' = ss_pages st" "ss_slabs st' = ss_slabs st" by blast
  have fam: "list_family list_rep (ss_links st) (heads C) (slab_lists ?P ?F)"
    by (rule list_family_weaken [OF D(2)]) (use c in \<open>auto simp: heads_def\<close>)
  have n1: "Partial c \<notin> family_nodes (heads C) (slab_lists ?P ?F)"
    using c by (auto simp: family_nodes_iff heads_def)
  note fam1 = lists.family_init [OF fam n1]
  have n2: "Full c \<notin> family_nodes (insert (Partial c) (heads C)) ((slab_lists ?P ?F)(Partial c := []))"
    using c by (auto simp: family_nodes_iff heads_def)
  have "insert (Full c) (insert (Partial c) (heads C)) = heads (insert c C)" by (auto simp: heads_def)
  moreover have "(slab_lists ?P ?F)(Partial c := [], Full c := []) = slab_lists ?P ?F"
    by (intro ext) (simp add: fun_upd_def)
  ultimately have "list_family list_rep (ss_links st') (heads (insert c C)) (slab_lists ?P ?F)"
    using lists.family_init [OF fam1 n2] unfolding i(5) by simp
  moreover have ok: "slab_ok st' A c' s \<and> used st' c' s = used st c' s" if "c' \<in> C" "slab_ok st A c' s" for c' s
  proof -
    have "c' \<noteq> c" using that(1) c by blast
    then have cc: "ss_caches st' c' = ss_caches st c'" using i(4) by blast
    have pgs: "pg_slab (ss_pages st') = pg_slab (ss_pages st)" using i(6) by simp
    from slab_ok_caches [OF that(2) cc i(7) pgs] show ?thesis by blast
  qed
  moreover have "cache_ok (ss_caches st' c')" if "c' \<in> C" for c'
    using D(3) [OF that] i(4) c that by (cases "c' = c") simp_all
  ultimately have "slab_inv st' Z (insert c C) ?P ?F A"
    using D i c unfolding slab_inv_def by auto
  moreover have "live st' ?P ?F c' = live st P F c'" if "c' \<in> C" for c'
    using ok [OF that] D(4,6) [OF that] that c by (auto simp: live_def)
  moreover have "\<forall>c'\<in>C. ss_caches st' c' = ss_caches st c'" using i(4) c by metis
  ultimately show ?thesis using i by (simp add: slab_cache_create_def live_def)
qed

definition slab_blocks :: "u32 list \<Rightarrow> (u32 \<times> nat) set" where
  "slab_blocks xs = {(p, SLAB_ORDER) | p. unat p + 2 \<le> 0x38000 \<and> slab_at p \<in> set xs}"

lemma slab_pfn:
  assumes "unat p < 0x38000"
  shows "drop_bit PAGE_SHIFT (phys_addr (slab_at p)) = p"
proof -
  have "unat (drop_bit PAGE_SHIFT (push_bit PAGE_SHIFT p)) = unat (push_bit PAGE_SHIFT p) div 4096"
    unfolding PAGE_SHIFT_def by (simp add: unat_div drop_bit_eq_div)
  also have "\<dots> = unat p" using unat_page_shift [OF assms] by simp
  finally have "drop_bit PAGE_SHIFT (push_bit PAGE_SHIFT p) = p" by (simp add: word_unat_eq_iff)
  then show ?thesis by (simp add: slab_at_def)
qed

lemma fini_loop_result:
  assumes "dlseg (ss_links st) n (map Link xs) (Partial c)" and "distinct xs"
    and "owns Z (ss_pages st) A" and "\<And>s. s \<in> set xs \<Longrightarrow> slab_ok st A c s"
  shows "if \<forall>s\<in>set xs. used st c s = {}
    then \<exists>pages. fini_loop c (hd (map Link xs @ [Partial c])) st = Some (Inr (st\<lparr>ss_pages := pages\<rparr>)) \<and>
      owns Z pages (A - slab_blocks xs) \<and> same_layout (ss_pages st) pages
    else fini_loop c (hd (map Link xs @ [Partial c])) st = Some (Inl (Panic ''Slab cache is still not empty''))"
  using assms
proof (induction xs arbitrary: st n A)
  case Nil
  have "fini_loop c (Partial c) st = Some (Inr st)" by (subst fini_loop.simps) simp
  with Nil(3) show ?case by (auto simp: slab_blocks_def intro!: exI [of _ "ss_pages st"])
next
  case (Cons s xs)
  have next_s: "lh_next (ss_links st) (Link s) = hd (map Link xs @ [Partial c])"
    using Cons.prems(1) by (cases xs) auto
  have ok: "slab_ok st A c s" using Cons.prems(4) by simp
  obtain p :: u32 where p: "s = slab_at p" "(p, SLAB_ORDER) \<in> A" "unat p + 2 \<le> 0x38000"
    by (rule slab_ok_address [OF ok]) blast
  have page: "pfn_to_page (drop_bit PAGE_SHIFT (phys_addr s)) (ss_pages st) = p"
    using slab_pfn [of p] p Cons.prems(3) by (auto simp: owns_def pfn_page_conv)
  have full: "sb_free (ss_slabs st s) = sc_object_count (ss_caches st c) \<longleftrightarrow> used st c s = {}"
  proof -
    have "unat (sb_free (ss_slabs st s)) + card (used st c s) = unat (sc_object_count (ss_caches st c))"
      using ok by (simp add: slab_ok_def slots_def)
    then have "unat (sb_free (ss_slabs st s)) = unat (sc_object_count (ss_caches st c)) \<longleftrightarrow> card (used st c s) = 0"
      by linarith
    then show ?thesis by (simp add: word_unat_eq_iff)
  qed
  show ?case
  proof (cases "used st c s = {}")
    case False
    then have "fini_loop c (Link s) st = Some (Inl (Panic ''Slab cache is still not empty''))"
      using full by (subst fini_loop.simps) (simp add: Let_def)
    with False show ?thesis by auto
  next
    case True
    obtain pages where pg: "free_pages p SLAB_ORDER (ss_pages st) = Inr pages"
      "owns Z pages (A - {(p, SLAB_ORDER)})" "same_layout (ss_pages st) pages"
      using Cons.prems(3) free_pages_result [of "ss_pages st" Z _ A p SLAB_ORDER] p(2) unfolding owns_def by blast
    let ?st = "st\<lparr>ss_pages := pages\<rparr>"
    have step: "fini_loop c (Link s) st = fini_loop c (hd (map Link xs @ [Partial c])) ?st"
      using full True page pg(1) next_s by (subst fini_loop.simps) (simp add: Let_def)
    have seg: "dlseg (ss_links ?st) (Link s) (map Link xs) (Partial c)" using Cons.prems(1) by simp
    have oks: "slab_ok ?st (A - {(p, SLAB_ORDER)}) c s'" and us: "used ?st c s' = used st c s'" if "s' \<in> set xs" for s'
    proof -
      have ne: "s' \<noteq> s" using Cons.prems(2) that by auto
      have oo: "slab_ok st A c s'" using Cons.prems(4) that by simp
      have pgs: "pg_slab (ss_pages ?st) = pg_slab (ss_pages st)" using pg(3) by (simp add: same_layout_def)
      have keep: "(q, SLAB_ORDER) \<in> A - {(p, SLAB_ORDER)}" if "s' = slab_at q" "(q, SLAB_ORDER) \<in> A" for q
        using that ne p(1) by blast
      show "slab_ok ?st (A - {(p, SLAB_ORDER)}) c s'" "used ?st c s' = used st c s'"
        using slab_ok_caches [OF oo _ _ pgs keep] by simp_all
    qed
    have "distinct xs" using Cons.prems(2) by simp
    from Cons.IH [OF seg this _ oks] pg(2)
    have IH: "if \<forall>s\<in>set xs. used ?st c s = {}
      then \<exists>pages'. fini_loop c (hd (map Link xs @ [Partial c])) ?st = Some (Inr (?st\<lparr>ss_pages := pages'\<rparr>)) \<and>
        owns Z pages' (A - {(p, SLAB_ORDER)} - slab_blocks xs) \<and> same_layout (ss_pages ?st) pages'
      else fini_loop c (hd (map Link xs @ [Partial c])) ?st = Some (Inl (Panic ''Slab cache is still not empty''))"
      by simp
    have iff: "(\<forall>s\<in>set xs. used ?st c s = {}) \<longleftrightarrow> (\<forall>s\<in>set (s # xs). used st c s = {})"
      using us True by simp
    have blocks: "A - {(p, SLAB_ORDER)} - slab_blocks xs = A - slab_blocks (s # xs)"
    proof -
      have "slab_blocks (s # xs) = insert (p, SLAB_ORDER) (slab_blocks xs)"
        using p slab_at_inj unfolding slab_blocks_def by auto
      then show ?thesis by blast
    qed
    show ?thesis using IH step pg(3) unfolding iff blocks by (auto split: if_splits dest: same_layout_trans)
  qed
qed

lemma slab_cache_destroy_result:
  assumes inv: "slab_inv st Z C P F A" and c: "c \<in> C"
  shows "if live st P F c = {}
    then \<exists>st'. slab_cache_destroy c st = Some (Inr st') \<and>
      slab_inv st' Z (C - {c}) P F (A - slab_blocks (P c)) \<and>
      (\<forall>c'\<in>C - {c}. live st' P F c' = live st P F c') \<and> ss_caches st' = ss_caches st \<and> same_zones st st'
    else slab_cache_destroy c st = Some (Inl (Panic ''Slab cache is still not empty''))"
proof -
  note D = slab_invD [OF inv]
  have full: "list_empty (Full c) (ss_links st) \<longleftrightarrow> F c = []"
    using lists.family_empty_iff [OF D(2), of "Full c"] c by simp
  have pos: "0 < slots st c" using D(3) [OF c] by (simp add: slots_def cache_ok_def word_less_nat_alt)
  show ?thesis
  proof (cases "F c = []")
    case False
    then obtain s where s: "s \<in> set (F c)" by (cases "F c") auto
    have "card (used st c s) = slots st c" using D(6,7) [OF c s] by (simp add: slab_ok_def)
    with pos have "used st c s \<noteq> {}" by auto
    with s have "live st P F c \<noteq> {}" by (auto simp: live_def)
    with False full show ?thesis by (simp add: slab_cache_destroy_def slab_cache_fini_def)
  next
    case True
    have "list_rep (ss_links st) (Partial c) (map Link (P c))"
      using lists.family_rep [OF D(2), of "Partial c"] c by simp
    then have seg: "dlseg (ss_links st) (Partial c) (map Link (P c)) (Partial c)" by (simp add: list_rep_def)
    then have hd: "lh_next (ss_links st) (Partial c) = hd (map Link (P c) @ [Partial c])" by (rule dlseg_next)
    have live: "live st P F c = {} \<longleftrightarrow> (\<forall>s\<in>set (P c). used st c s = {})" using True by (auto simp: live_def)
    have des: "slab_cache_destroy c st = fini_loop c (hd (map Link (P c) @ [Partial c])) st"
      using full True hd by (simp add: slab_cache_destroy_def slab_cache_fini_def)
    note loop = fini_loop_result [OF seg slab_unique(4) [OF inv c c] D(1) D(4) [OF c]]
    show ?thesis
    proof (cases "live st P F c = {}")
      case False
      with loop live des show ?thesis by simp
    next
      case l: True
      with loop live obtain pages where pages: "slab_cache_destroy c st = Some (Inr (st\<lparr>ss_pages := pages\<rparr>))"
        "owns Z pages (A - slab_blocks (P c))" "same_layout (ss_pages st) pages" unfolding des by auto
      let ?st = "st\<lparr>ss_pages := pages\<rparr>" and ?A = "A - slab_blocks (P c)"
      have pgs: "pg_slab (ss_pages ?st) = pg_slab (ss_pages st)" using pages(3) by (simp add: same_layout_def)
      have ok: "slab_ok ?st ?A c' s \<and> used ?st c' s = used st c' s"
        if m: "c' \<in> C - {c}" "s \<in> set (P c') \<union> set (F c')" "slab_ok st A c' s" for c' s
      proof -
        have "s \<notin> set (P c)" using slab_unique(1,2) [OF inv c, of c' s] m by blast
        then have "(q, SLAB_ORDER) \<in> ?A" if "s = slab_at q" "(q, SLAB_ORDER) \<in> A" for q
          using that by (auto simp: slab_blocks_def)
        from slab_ok_caches [OF m(3) _ _ pgs this] show ?thesis by simp
      qed
      have "list_family list_rep (ss_links ?st) (heads (C - {c})) (slab_lists P F)"
        using list_family_subset [OF D(2), of "heads (C - {c})"] by (auto simp: heads_def)
      then have "slab_inv ?st Z (C - {c}) P F ?A"
        using D pages(2) ok unfolding slab_inv_def by auto
      moreover have "live ?st P F c' = live st P F c'" if "c' \<in> C - {c}" for c'
        using ok [OF that] D(4,6) that by (auto simp: live_def)
      moreover have "same_zones st ?st" using pages(3) by (simp add: same_zones_def same_layout_def)
      ultimately show ?thesis using pages(1) l by auto
    qed
  qed
qed

subsection \<open>A small system\<close>

definition sample_slabs :: slab_state where
  "sample_slabs = \<lparr>ss_pages = sample_pages, ss_links = \<lparr>lh_next = id, lh_prev = id\<rparr>,
     ss_caches = (\<lambda>_. \<lparr>sc_object_size = 0, sc_object_count = 0, sc_object_offset = 0\<rparr>),
     ss_slabs = (\<lambda>_. \<lparr>sb_cache = 0, sb_free = 0, sb_bitmap = (\<lambda>_. 0)\<rparr>)\<rparr>"

lemma sample_slabs_inv: "slab_inv sample_slabs {ZONE_NORMAL, ZONE_HIGH} {} (\<lambda>_. []) (\<lambda>_. []) {(6, 1)}"
  using sample_owns by (simp add: slab_inv_def sample_slabs_def list_family_def disjoint_lists_def heads_def)

lemma sample_object_size: "slab_object_size 24 8 = Inr 24"
  by (simp add: slab_object_size_def)

lemma sample_cache:
  obtains st where "slab_cache_create 0x100 24 8 sample_slabs = Inr st"
    and "slab_inv st {ZONE_NORMAL, ZONE_HIGH} {0x100} (\<lambda>_. []) (\<lambda>_. []) {(6, 1)}"
    and "ss_pages st = sample_pages" and "live st (\<lambda>_. []) (\<lambda>_. []) 0x100 = {}"
proof -
  from slab_cache_create_result [OF sample_slabs_inv _ sample_object_size, of "0x100"]
  obtain st where "slab_cache_create 0x100 24 8 sample_slabs = Inr st"
    "slab_inv st {ZONE_NORMAL, ZONE_HIGH} {0x100} ((\<lambda>_. [])(0x100 := [])) ((\<lambda>_. [])(0x100 := [])) {(6, 1)}"
    "ss_pages st = ss_pages sample_slabs"
    "live st ((\<lambda>_. [])(0x100 := [])) ((\<lambda>_. [])(0x100 := [])) 0x100 = {}" by auto
  moreover have "(\<lambda>_. [])(0x100 := []) = (\<lambda>_ :: u32. ([] :: u32 list))" by auto
  ultimately show thesis using that by (simp add: sample_slabs_def)
qed

lemma sample_low: "low_zone {ZONE_NORMAL, ZONE_HIGH} sample_pages"
  by (simp add: low_zone_def sample_pages_def)

lemma sample_run: "\<exists>r. aligned r SLAB_ORDER \<and> span (r, SLAB_ORDER) \<subseteq> free_frames ZONE_NORMAL sample_pages {(6, 1)}"
  by (rule exI [of _ 0])
    (auto simp: aligned_def SLAB_ORDER_def free_frames_def sample_frames sample_spans, auto simp: span_def)

text \<open>The same cache after two allocations.\<close>

lemma sample_objects:
  obtains st P F A s i s' i' where "slab_inv st {ZONE_NORMAL, ZONE_HIGH} {0x100} P F A"
    and "low_zone {ZONE_NORMAL, ZONE_HIGH} (ss_pages st)"
    and "(s, i) \<in> live st P F 0x100" and "(s', i') \<in> live st P F 0x100" and "(s, i) \<noteq> (s', i')"
proof -
  obtain st where st: "slab_cache_create 0x100 24 8 sample_slabs = Inr st"
    "slab_inv st {ZONE_NORMAL, ZONE_HIGH} {0x100} (\<lambda>_. []) (\<lambda>_. []) {(6, 1)}" "ss_pages st = sample_pages"
    "live st (\<lambda>_. []) (\<lambda>_. []) 0x100 = {}"
    by (rule sample_cache) blast
  have low: "low_zone {ZONE_NORMAL, ZONE_HIGH} (ss_pages st)" using st(3) sample_low by simp
  have "\<exists>r. aligned r SLAB_ORDER \<and> span (r, SLAB_ORDER) \<subseteq> free_frames ZONE_NORMAL (ss_pages st) {(6, 1)}"
    using sample_run st(3) by simp
  then have run: "\<not> ((\<lambda>_. []) (0x100 :: u32) = ([] :: u32 list) \<and> \<not> (\<exists>r. aligned r SLAB_ORDER \<and>
      span (r, SLAB_ORDER) \<subseteq> free_frames ZONE_NORMAL (ss_pages st) {(6, 1)}))" by blast
  obtain s i st1 P F A where one: "slab_inv st1 {ZONE_NORMAL, ZONE_HIGH} {0x100} P F A"
    "live st1 P F 0x100 = {(s, i)}" "ss_caches st1 = ss_caches st" "same_zones st st1"
    using slab_cache_alloc_result [OF st(2) _ low normal_flag, of "0x100"] st(4) unfolding if_not_P [OF run]
    by auto
  have low1: "low_zone {ZONE_NORMAL, ZONE_HIGH} (ss_pages st1)"
    using low one(4) by (simp add: low_zone_def same_zones_def)
  have "sc_object_count (ss_caches st 0x100) = 338"
    using st(1) by (auto simp: slab_cache_create_def slab_cache_init_def sample_object_size slab_object_count_def
        SLAB_ORDER_def layout_values SIZEOF_SLAB_def SIZEOF_BITMAP_def CHAR_BIT_def push_bit_eq_mult)
  then have n: "slots st1 0x100 = 338" using one(3) by (simp add: slots_def)
  have sin: "s \<in> set (P 0x100) \<union> set (F 0x100)" "used st1 0x100 s = {i}"
    using one(2) by (auto simp: live_def)
  have "s \<notin> set (F 0x100)"
  proof
    assume "s \<in> set (F 0x100)"
    with slab_invD(6,7) [OF one(1)] have "card (used st1 0x100 s) = slots st1 0x100" by (simp add: slab_ok_def)
    with n sin(2) show False by simp
  qed
  then have "P 0x100 \<noteq> []" using sin(1) by auto
  then obtain s' i' st2 P2 F2 A2 where "slab_inv st2 {ZONE_NORMAL, ZONE_HIGH} {0x100} P2 F2 A2"
    "live st2 P2 F2 0x100 = insert (s', i') (live st1 P F 0x100)" "(s', i') \<notin> live st1 P F 0x100" "same_zones st1 st2"
    using slab_cache_alloc_result [OF one(1) _ low1 normal_flag, of "0x100"] by auto
  moreover from this(4) low1 have "low_zone {ZONE_NORMAL, ZONE_HIGH} (ss_pages st2)"
    by (simp add: low_zone_def same_zones_def)
  ultimately show thesis using that [of st2 P2 F2 A2 s i s' i'] one(2) by auto
qed

subsection \<open>Properties\<close>

text \<open>
  C28: for objects of at most 8172 bytes (after rounding to the alignment) \<open>slab_cache_create\<close> lays a
  slab of two pages out without overlap: at least one object, the header and one bitmap bit per
  object before the first object, the last object ending with the slab, the object size a multiple
  of the alignment and no smaller than asked; the new cache is empty and the others are untouched.
\<close>

theorem slab_cache_create_layout:
  assumes "slab_inv st Z C P F A" and "c \<notin> C" and "slab_object_size n al = Inr osz"
    and "0 < osz" and "unat osz \<le> 8172" and "unat n + unat al < 2 ^ 32"
  shows "\<exists>st'. slab_cache_create c n al st = Inr st' \<and>
    slab_inv st' Z (insert c C) (P(c := [])) (F(c := [])) A \<and> live st' (P(c := [])) (F(c := [])) c = {} \<and>
    n \<le> osz \<and> unat al dvd unat osz \<and> 0 < slots st' c \<and>
    16 + 4 * ((slots st' c + 31) div 32) \<le> unat (sc_object_offset (ss_caches st' c)) \<and>
    unat (sc_object_offset (ss_caches st' c)) + slots st' c * unat osz = 8192"
proof -
  from slab_cache_create_result [OF assms(1-5)] obtain st' where st': "slab_cache_create c n al st = Inr st'"
    "slab_inv st' Z (insert c C) (P(c := [])) (F(c := [])) A" "sc_object_size (ss_caches st' c) = osz"
    "live st' (P(c := [])) (F(c := [])) c = {}" by blast
  have "cache_ok (ss_caches st' c)" using slab_invD(3) [OF st'(2)] by simp
  then show ?thesis
    using st' slab_object_size_props [OF assms(3,6)] by (auto simp: cache_ok_def slots_def word_less_nat_alt)
qed

theorem slab_cache_create_layout_witness:
  "\<exists>st. slab_cache_create 0x100 24 8 sample_slabs = Inr st \<and> 0 < slots st 0x100 \<and>
     unat (sc_object_offset (ss_caches st 0x100)) + slots st 0x100 * 24 = 8192"
  using slab_cache_create_layout [OF sample_slabs_inv _ sample_object_size, of "0x100"] by auto

text \<open>
  C6: \<open>slab_cache_alloc\<close> returns (its search of the bitmap ends). The flags matter only when the cache
  has no partial slab: without \<open>ALLOC_NORMAL\<close> the assertion of the page allocator stops it then. It
  fails only when the cache has no partial slab and the page allocator no free pair of pages, and then
  changes nothing; otherwise it
  returns the address of a slot that was not handed out, and exactly that slot of that cache is
  handed out in addition. The invariant holds again.
\<close>

theorem slab_cache_alloc_exact:
  assumes "slab_inv st Z C P F A" and "c \<in> C" and "low_zone Z (ss_pages st)"
  shows "if P c = [] \<and> flags AND ALLOC_NORMAL = 0
    then slab_cache_alloc c flags st = Some (Inl (Panic ''Only ZONE_NORMAL allocations are supported''))
    else if P c = [] \<and> \<not> (\<exists>r. aligned r SLAB_ORDER \<and>
        span (r, SLAB_ORDER) \<subseteq> free_frames ZONE_NORMAL (ss_pages st) A)
    then slab_cache_alloc c flags st = Some (Inr (None, st))
    else \<exists>s i st' P' F' A'. slab_cache_alloc c flags st = Some (Inr (Some (object_addr st c s i), st')) \<and>
      slab_inv st' Z C P' F' A' \<and> A \<subseteq> A' \<and> i < slots st c \<and> (s, i) \<notin> live st P F c \<and>
      live st' P' F' c = insert (s, i) (live st P F c) \<and>
      (\<forall>c'\<in>C. c' \<noteq> c \<longrightarrow> live st' P' F' c' = live st P F c') \<and> ss_caches st' = ss_caches st \<and> same_zones st st'"
proof (cases "P c = [] \<and> flags AND ALLOC_NORMAL = 0")
  case True
  then have "list_empty (Partial c) (ss_links st)"
    using lists.family_empty_iff [OF slab_invD(2) [OF assms(1)], of "Partial c"] assms(2) by simp
  with True show ?thesis by (simp add: slab_cache_alloc_def slab_cache_grow_def alloc_pages_def SLAB_ORDER_def MAX_ORDER_def)
next
  case ok: False
  then have fl: "P c = [] \<Longrightarrow> flags AND ALLOC_NORMAL \<noteq> 0" by simp
  note r = slab_cache_alloc_result [OF assms fl]
  show ?thesis
  proof (cases "P c = [] \<and> \<not> (\<exists>r. aligned r SLAB_ORDER \<and> span (r, SLAB_ORDER) \<subseteq> free_frames ZONE_NORMAL (ss_pages st) A)")
    case True
    with r ok show ?thesis by simp
  next
    case False
    from r show ?thesis
      unfolding if_not_P [OF ok] if_not_P [OF False] by (metis slabs_grow_subset)
  qed
qed

theorem slab_cache_alloc_exact_witness:
  "\<exists>st a st'. slab_cache_create 0x100 24 8 sample_slabs = Inr st \<and>
     slab_cache_alloc 0x100 ALLOC_NORMAL st = Some (Inr (Some a, st'))"
proof -
  obtain st where st: "slab_cache_create 0x100 24 8 sample_slabs = Inr st"
    "slab_inv st {ZONE_NORMAL, ZONE_HIGH} {0x100} (\<lambda>_. []) (\<lambda>_. []) {(6, 1)}" "ss_pages st = sample_pages"
    by (rule sample_cache) blast
  have low: "low_zone {ZONE_NORMAL, ZONE_HIGH} (ss_pages st)" using st(3) sample_low by simp
  have "\<exists>r. aligned r SLAB_ORDER \<and> span (r, SLAB_ORDER) \<subseteq> free_frames ZONE_NORMAL (ss_pages st) {(6, 1)}"
    using sample_run st(3) by simp
  then have run: "\<not> ((\<lambda>_. []) (0x100 :: u32) = ([] :: u32 list) \<and> \<not> (\<exists>r. aligned r SLAB_ORDER \<and>
      span (r, SLAB_ORDER) \<subseteq> free_frames ZONE_NORMAL (ss_pages st) {(6, 1)}))" by blast
  show ?thesis
    using slab_cache_alloc_exact [OF st(2) _ low, of "0x100" ALLOC_NORMAL] st(1) normal_flag unfolding if_not_P [OF run]
    by (auto simp del: split_paired_Ex)
qed

text \<open>
  Two objects that are handed out, of the same cache or of two caches, share no byte; an object
  lies inside its slab, behind the header and the bitmap.
\<close>

lemma slab_objects_separate:
  assumes "slab_inv st Z C P F A" and "c \<in> C" and "c' \<in> C"
    and "(s, i) \<in> live st P F c" and "(s', i') \<in> live st P F c'" and "(c, s, i) \<noteq> (c', s', i')"
  shows "object_bytes st c (s, i) \<inter> object_bytes st c' (s', i') = {} \<and>
    object_bytes st c (s, i) \<subseteq> {unat s + 16 + 4 * ((slots st c + 31) div 32) ..< unat s + 8192}"
proof -
  note L = live_slab [OF assms(1,2,4)] and L' = live_slab [OF assms(1,3,5)]
  note ok = slab_invD(3) [OF assms(1,2)] and ok' = slab_invD(3) [OF assms(1,3)]
  note a = object_addr_nat [OF L(1) ok L(2)] and a' = object_addr_nat [OF L'(1) ok' L'(2)]
  have b: "blocks_ok A" using slab_invD(1) [OF assms(1)] by (rule owns_blocks_ok)
  let ?z = "unat (sc_object_size (ss_caches st c))"
  have inside: "object_bytes st c (s, i) \<subseteq> {unat s + 16 + 4 * ((slots st c + 31) div 32) ..< unat s + 8192}"
    using a ok by (auto simp: object_bytes_def cache_ok_def slots_def algebra_simps)
  have inside': "object_bytes st c' (s', i') \<subseteq> {unat s' ..< unat s' + 8192}"
    using a' by (auto simp: object_bytes_def algebra_simps)
  have "object_bytes st c (s, i) \<inter> object_bytes st c' (s', i') = {}"
  proof (cases "s = s'")
    case False
    with slab_bytes_disjoint [OF b L(1) L'(1)] inside inside' show ?thesis by (fastforce simp: subset_iff)
  next
    case True
    then have "c = c'" using L(1) L'(1) by (simp add: slab_ok_def)
    with True assms(6) have "i \<noteq> i'" by simp
    then consider "i + 1 \<le> i'" | "i' + 1 \<le> i" by linarith
    then show ?thesis
    proof cases
      case 1
      then have "(i + 1) * ?z \<le> i' * ?z" by (rule mult_right_mono) simp
      then show ?thesis using a(1) a'(1) True \<open>c = c'\<close> by (auto simp: object_bytes_def algebra_simps)
    next
      case 2
      then have "(i' + 1) * ?z \<le> i * ?z" by (rule mult_right_mono) simp
      then show ?thesis using a(1) a'(1) True \<open>c = c'\<close> by (auto simp: object_bytes_def algebra_simps)
    qed
  qed
  with inside show ?thesis by blast
qed

lemma slab_objects_separate_witness:
  "\<exists>st P F A s i s' i'. slab_inv st {ZONE_NORMAL, ZONE_HIGH} {0x100} P F A \<and> (s, i) \<noteq> (s', i') \<and>
     object_bytes st 0x100 (s, i) \<inter> object_bytes st 0x100 (s', i') = {}"
proof -
  obtain st P F A s i s' i' where ob: "slab_inv st {ZONE_NORMAL, ZONE_HIGH} {0x100} P F A"
    "(s, i) \<in> live st P F 0x100" "(s', i') \<in> live st P F 0x100" "(s, i) \<noteq> (s', i')"
    by (rule sample_objects) blast
  have "(0x100, s, i) \<noteq> (0x100, s', i')" using ob(4) by simp
  note sep = conjunct1 [OF slab_objects_separate [OF ob(1) singletonI singletonI ob(2,3) this]]
  show ?thesis by (intro exI conjI) (rule ob(1), rule ob(4), rule sep)
qed

text \<open>
  C7: \<open>slab_cache_free\<close> of an object that is handed out finds its slab from the address, never divides
  by zero, and leaves exactly that slot of that cache free; the invariant holds again (a full slab
  goes back to the partial list).
\<close>

theorem slab_cache_free_exact:
  assumes "slab_inv st Z C P F A" and "c \<in> C" and "(s, i) \<in> live st P F c"
  shows "\<exists>st' P' F'. slab_cache_free c (object_addr st c s i) st = Inr st' \<and> slab_inv st' Z C P' F' A \<and>
    live st' P' F' c = live st P F c - {(s, i)} \<and>
    (\<forall>c'\<in>C. c' \<noteq> c \<longrightarrow> live st' P' F' c' = live st P F c') \<and>
    ss_caches st' = ss_caches st \<and> ss_pages st' = ss_pages st"
  using slab_cache_free_result [OF assms] by blast

theorem slab_cache_free_exact_witness:
  "\<exists>st P F A s i st' P' F'. slab_inv st {ZONE_NORMAL, ZONE_HIGH} {0x100} P F A \<and> (s, i) \<in> live st P F 0x100 \<and>
     slab_cache_free 0x100 (object_addr st 0x100 s i) st = Inr st' \<and>
     live st' P' F' 0x100 = live st P F 0x100 - {(s, i)}"
proof -
  obtain st P F A s i where ob: "slab_inv st {ZONE_NORMAL, ZONE_HIGH} {0x100} P F A" "(s, i) \<in> live st P F 0x100"
    by (rule sample_objects) blast
  from slab_cache_free_exact [OF ob(1) singletonI ob(2)] obtain st' P' F' where
    "slab_cache_free 0x100 (object_addr st 0x100 s i) st = Inr st'"
    "live st' P' F' 0x100 = live st P F 0x100 - {(s, i)}" by (elim exE conjE)
  with ob show ?thesis by (intro exI conjI)
qed

text \<open>
  C8: \<open>slab_cache_destroy\<close> returns for every cache. With objects still handed out it stops at an
  assertion; otherwise every slab of the cache goes back to the page allocator and the other caches
  stay as they are.
\<close>

theorem slab_cache_destroy_exact:
  assumes "slab_inv st Z C P F A" and "c \<in> C"
  shows "if live st P F c = {}
    then \<exists>st'. slab_cache_destroy c st = Some (Inr st') \<and>
      slab_inv st' Z (C - {c}) P F (A - slab_blocks (P c)) \<and>
      (\<forall>c'\<in>C - {c}. live st' P F c' = live st P F c')
    else slab_cache_destroy c st = Some (Inl (Panic ''Slab cache is still not empty''))"
  using slab_cache_destroy_result [OF assms] by (auto split: if_splits)

theorem slab_cache_destroy_exact_witness:
  "\<exists>st P F A. slab_inv st {ZONE_NORMAL, ZONE_HIGH} {0x100} P F A \<and>
     slab_cache_destroy 0x100 st = Some (Inl (Panic ''Slab cache is still not empty''))"
proof -
  obtain st P F A s i where ob: "slab_inv st {ZONE_NORMAL, ZONE_HIGH} {0x100} P F A" "(s, i) \<in> live st P F 0x100"
    by (rule sample_objects) blast
  then have ne: "\<not> live st P F 0x100 = {}" by blast
  from slab_cache_destroy_exact [OF ob(1) singletonI]
  have "slab_cache_destroy 0x100 st = Some (Inl (Panic ''Slab cache is still not empty''))"
    unfolding if_not_P [OF ne] .
  with ob(1) show ?thesis by (intro exI conjI)
qed

end
