(* ===== verification/Slab_History.thy ===== *)
theory Slab_History
  imports Slab
begin

text \<open>
  Any sequence of calls of the slab caches and of the page allocator under them: clients create
  caches, allocate and free objects, destroy empty caches, and get and put blocks of pages. A client
  knows caches, addresses of objects and blocks; slabs, bitmaps and lists are the code's.
\<close>

subsection \<open>Calls and what the clients know\<close>

record slab_view =
  sv_caches :: "u32 set"
  sv_objects :: "(u32 \<times> u32) set"
  sv_blocks :: "(u32 \<times> nat) set"

datatype slab_call =
    Create u32 u32 u32 | Destroy u32 | New_object u32 u32 | Free_object u32 u32
  | Get_pages nat u32 | Put_pages u32 nat

definition object_size_ok :: "u32 \<Rightarrow> u32 \<Rightarrow> bool" where
  "object_size_ok n al \<longleftrightarrow> (\<exists>osz. slab_object_size n al = Inr osz \<and> 0 < osz \<and> unat osz \<le> 8172)"

fun slab_legal :: "slab_view \<Rightarrow> slab_call \<Rightarrow> bool" where
  "slab_legal v (Create c n al) \<longleftrightarrow> c \<notin> sv_caches v \<and> object_size_ok n al"
| "slab_legal v (Destroy c) \<longleftrightarrow> c \<in> sv_caches v \<and> (\<forall>p. (c, p) \<notin> sv_objects v)"
| "slab_legal v (New_object c f) \<longleftrightarrow> c \<in> sv_caches v \<and> f AND ALLOC_NORMAL \<noteq> 0"
| "slab_legal v (Free_object c p) \<longleftrightarrow> (c, p) \<in> sv_objects v"
| "slab_legal v (Get_pages k f) \<longleftrightarrow> k < MAX_ORDER \<and> f AND ALLOC_NORMAL \<noteq> 0"
| "slab_legal v (Put_pages p k) \<longleftrightarrow> (p, k) \<in> sv_blocks v"

inductive slab_step :: "slab_state \<times> slab_view \<Rightarrow> slab_call \<Rightarrow> slab_state \<times> slab_view \<Rightarrow> bool" where
  "slab_cache_create c n al st = Inr st' \<Longrightarrow>
    slab_step (st, v) (Create c n al) (st', v\<lparr>sv_caches := insert c (sv_caches v)\<rparr>)"
| "slab_cache_destroy c st = Some (Inr st') \<Longrightarrow>
    slab_step (st, v) (Destroy c) (st', v\<lparr>sv_caches := sv_caches v - {c}\<rparr>)"
| "slab_cache_alloc c f st = Some (Inr (Some p, st')) \<Longrightarrow>
    slab_step (st, v) (New_object c f) (st', v\<lparr>sv_objects := insert (c, p) (sv_objects v)\<rparr>)"
| "slab_cache_alloc c f st = Some (Inr (None, st')) \<Longrightarrow> slab_step (st, v) (New_object c f) (st', v)"
| "slab_cache_free c p st = Inr st' \<Longrightarrow>
    slab_step (st, v) (Free_object c p) (st', v\<lparr>sv_objects := sv_objects v - {(c, p)}\<rparr>)"
| "alloc_pages k f (ss_pages st) = Inr (Some p, pages) \<Longrightarrow>
    slab_step (st, v) (Get_pages k f) (st\<lparr>ss_pages := pages\<rparr>, v\<lparr>sv_blocks := insert (p, k) (sv_blocks v)\<rparr>)"
| "alloc_pages k f (ss_pages st) = Inr (None, pages) \<Longrightarrow>
    slab_step (st, v) (Get_pages k f) (st\<lparr>ss_pages := pages\<rparr>, v)"
| "free_pages p k (ss_pages st) = Inr pages \<Longrightarrow>
    slab_step (st, v) (Put_pages p k) (st\<lparr>ss_pages := pages\<rparr>, v\<lparr>sv_blocks := sv_blocks v - {(p, k)}\<rparr>)"

inductive_cases slab_stepE: "slab_step (st, v) c (st', v')"

inductive slab_runs :: "slab_state \<times> slab_view \<Rightarrow> slab_call list \<Rightarrow> slab_state \<times> slab_view \<Rightarrow> bool" where
  slab_runs_Nil: "slab_runs s [] s"
| slab_runs_Cons: "slab_legal (snd s) c \<Longrightarrow> slab_step s c s1 \<Longrightarrow> slab_runs s1 cs s2 \<Longrightarrow> slab_runs s (c # cs) s2"

subsection \<open>The state stands for the view\<close>

text \<open>The blocks behind the slabs of the caches.\<close>

definition slab_pages :: "u32 set \<Rightarrow> (u32 \<Rightarrow> u32 set) \<Rightarrow> (u32 \<times> nat) set" where
  "slab_pages C M = {(p, SLAB_ORDER) | p. unat p + 2 \<le> 0x38000 \<and> (\<exists>c \<in> C. slab_at p \<in> M c)}"

definition slab_objects :: "slab_state \<Rightarrow> u32 set \<Rightarrow> (u32 \<Rightarrow> u32 list) \<Rightarrow> (u32 \<Rightarrow> u32 list) \<Rightarrow> (u32 \<times> u32) set" where
  "slab_objects st C P F = {(c, object_addr st c s i) | c s i. c \<in> C \<and> (s, i) \<in> live st P F c}"

text \<open>
  The blocks that the page allocator has handed out are those of the clients and those behind slabs;
  the objects of the clients are the slots that the bitmaps mark.
\<close>

definition slab_repr :: "zone_type set \<Rightarrow> slab_state \<Rightarrow> slab_view \<Rightarrow> (u32 \<Rightarrow> u32 list) \<Rightarrow> (u32 \<Rightarrow> u32 list) \<Rightarrow> bool" where
  "slab_repr Z st v P F \<longleftrightarrow> low_zone Z (ss_pages st) \<and>
     slab_inv st Z (sv_caches v) P F (sv_blocks v \<union> slab_pages (sv_caches v) (slab_members P F)) \<and>
     sv_blocks v \<inter> slab_pages (sv_caches v) (slab_members P F) = {} \<and>
     sv_objects v = slab_objects st (sv_caches v) P F"

lemma slab_reprD:
  assumes "slab_repr Z st v P F"
  shows "low_zone Z (ss_pages st)"
    and "slab_inv st Z (sv_caches v) P F (sv_blocks v \<union> slab_pages (sv_caches v) (slab_members P F))"
    and "sv_blocks v \<inter> slab_pages (sv_caches v) (slab_members P F) = {}"
    and "sv_objects v = slab_objects st (sv_caches v) P F"
  using assms by (simp_all add: slab_repr_def)

lemma slab_objects_cong:
  assumes "\<And>c. c \<in> C \<Longrightarrow> live st' P' F' c = live st P F c" and "\<And>c. c \<in> C \<Longrightarrow> ss_caches st' c = ss_caches st c"
  shows "slab_objects st' C P' F' = slab_objects st C P F"
  using assms by (fastforce simp: slab_objects_def object_addr_def)

text \<open>Other blocks may come and go: the caches do not notice.\<close>

lemma slab_inv_pages:
  assumes "slab_inv st Z C P F A" and "owns Z pages A'" and "same_layout (ss_pages st) pages"
    and "A \<inter> slab_pages C (slab_members P F) \<subseteq> A'"
  shows "slab_inv (st\<lparr>ss_pages := pages\<rparr>) Z C P F A'"
    and "c \<in> C \<Longrightarrow> live (st\<lparr>ss_pages := pages\<rparr>) P F c = live st P F c"
proof -
  let ?st = "st\<lparr>ss_pages := pages\<rparr>"
  note D = slab_invD [OF assms(1)]
  have pgs: "pg_slab (ss_pages ?st) = pg_slab (ss_pages st)" using assms(3) by (simp add: same_layout_def)
  have keep: "slab_ok ?st A' c s \<and> used ?st c s = used st c s"
    if "c \<in> C" "s \<in> slab_members P F c" "slab_ok st A c s" for c s
  proof -
    have "(p, SLAB_ORDER) \<in> A'" if "s = slab_at p" "unat p + 2 \<le> 0x38000" "(p, SLAB_ORDER) \<in> A" for p
      using assms(4) that \<open>c \<in> C\<close> \<open>s \<in> slab_members P F c\<close> by (auto simp: slab_pages_def)
    from slab_ok_caches [OF that(3) _ _ pgs this] show ?thesis by simp
  qed
  then show "slab_inv ?st Z C P F A'"
    using D assms(2) unfolding slab_inv_def slab_members_def by auto
  show "live ?st P F c = live st P F c" if "c \<in> C"
    using keep [OF that] D(4,6) [OF that] by (auto simp: live_def slab_members_def)
qed

lemma slab_pages_insert:
  assumes "unat p + 2 \<le> 0x38000" and "c \<in> C"
  shows "slab_pages C (M(c := insert (slab_at p) (M c))) = insert (p, SLAB_ORDER) (slab_pages C M)"
proof -
  have "(\<exists>d \<in> C. s \<in> (M(c := insert x (M c))) d) \<longleftrightarrow> s = x \<or> (\<exists>d \<in> C. s \<in> M d)" for s x
    using assms(2) by (metis fun_upd_apply insert_iff)
  then show ?thesis using assms(1) slab_at_inj unfolding slab_pages_def by auto
qed

subsection \<open>Every step keeps it\<close>

lemma repr_create:
  assumes "slab_repr Z st v P F" and "c \<notin> sv_caches v" and "object_size_ok n al"
  shows "\<exists>st'. slab_cache_create c n al st = Inr st' \<and>
    slab_repr Z st' (v\<lparr>sv_caches := insert c (sv_caches v)\<rparr>) (P(c := [])) (F(c := []))"
proof -
  note R = slab_reprD [OF assms(1)]
  let ?P = "P(c := [])" and ?F = "F(c := [])" and ?C = "sv_caches v"
  from assms(3) obtain osz where "slab_object_size n al = Inr osz" "0 < osz" "unat osz \<le> 8172"
    by (auto simp: object_size_ok_def)
  from slab_cache_create_result [OF R(2) assms(2) this] obtain st' where
    st': "slab_cache_create c n al st = Inr st'"
      "slab_inv st' Z (insert c ?C) ?P ?F (sv_blocks v \<union> slab_pages ?C (slab_members P F))"
      "live st' ?P ?F c = {}" "\<forall>c' \<in> ?C. live st' ?P ?F c' = live st P F c'" "ss_pages st' = ss_pages st"
      "\<forall>c' \<in> ?C. ss_caches st' c' = ss_caches st c'" by blast
  have "slab_pages (insert c ?C) (slab_members ?P ?F) = slab_pages ?C (slab_members P F)"
    using assms(2) by (auto simp: slab_pages_def slab_members_def)
  moreover have "slab_objects st' (insert c ?C) ?P ?F = slab_objects st' ?C ?P ?F"
    using st'(3) by (auto simp: slab_objects_def)
  moreover have "slab_objects st' ?C ?P ?F = slab_objects st ?C P F"
    using st'(4,6) by (intro slab_objects_cong) simp_all
  ultimately have "slab_repr Z st' (v\<lparr>sv_caches := insert c ?C\<rparr>) ?P ?F"
    using R st'(2,5) by (simp add: slab_repr_def)
  with st'(1) show ?thesis by blast
qed

lemma object_addr_inj:
  assumes "slab_inv st Z C P F A" and "c \<in> C" and "c' \<in> C" and "(s, i) \<in> live st P F c"
    and "(s', i') \<in> live st P F c'" and "object_addr st c s i = object_addr st c' s' i'"
  shows "(c, s, i) = (c', s', i')"
proof (rule ccontr)
  assume ne: "(c, s, i) \<noteq> (c', s', i')"
  have "0 < unat (sc_object_size (ss_caches st c))" "0 < unat (sc_object_size (ss_caches st c'))"
    using slab_invD(3) [OF assms(1)] assms(2,3) by (simp_all add: cache_ok_def word_less_nat_alt)
  then have "unat (object_addr st c s i) \<in> object_bytes st c (s, i) \<inter> object_bytes st c' (s', i')"
    using assms(6) by (simp add: object_bytes_def)
  with slab_objects_separate [OF assms(1-5) ne] show False by blast
qed

lemma repr_alloc:
  assumes "slab_repr Z st v P F" and "c \<in> sv_caches v" and "f AND ALLOC_NORMAL \<noteq> 0"
  shows "slab_cache_alloc c f st = Some (Inr (None, st)) \<or>
    (\<exists>p st' P' F'. slab_cache_alloc c f st = Some (Inr (Some p, st')) \<and> (c, p) \<notin> sv_objects v \<and>
      slab_repr Z st' (v\<lparr>sv_objects := insert (c, p) (sv_objects v)\<rparr>) P' F')"
proof -
  note R = slab_reprD [OF assms(1)]
  let ?C = "sv_caches v" and ?A = "sv_blocks v \<union> slab_pages (sv_caches v) (slab_members P F)"
  show ?thesis
  proof (cases "P c = [] \<and> \<not> (\<exists>r. aligned r SLAB_ORDER \<and>
      span (r, SLAB_ORDER) \<subseteq> free_frames ZONE_NORMAL (ss_pages st) ?A)")
    case True
    with slab_cache_alloc_result [OF R(2) assms(2) R(1) assms(3)] show ?thesis by simp
  next
    case False
    from slab_cache_alloc_result [OF R(2) assms(2) R(1) assms(3), unfolded if_not_P [OF False]]
    obtain s i st' P' F' A' where a: "slab_cache_alloc c f st = Some (Inr (Some (object_addr st c s i), st'))"
      "slab_inv st' Z ?C P' F' A'" "slabs_grow c (slab_members P F) ?A (slab_members P' F') A'"
      "(s, i) \<notin> live st P F c" "live st' P' F' c = insert (s, i) (live st P F c)"
      "\<forall>c' \<in> ?C. c' \<noteq> c \<longrightarrow> live st' P' F' c' = live st P F c'" "ss_caches st' = ss_caches st" "same_zones st st'"
      by blast
    have addr: "object_addr st' = object_addr st" by (simp add: fun_eq_iff object_addr_def a(7))
    have blocks: "A' = sv_blocks v \<union> slab_pages ?C (slab_members P' F') \<and>
        sv_blocks v \<inter> slab_pages ?C (slab_members P' F') = {}"
      using a(3) unfolding slabs_grow_def
    proof (elim disjE exE conjE)
      fix p assume "(p, SLAB_ORDER) \<notin> ?A" "unat p + 2 \<le> 0x38000" "A' = insert (p, SLAB_ORDER) ?A"
        "slab_members P' F' = (slab_members P F)(c := insert (slab_at p) (slab_members P F c))"
      then show ?thesis using slab_pages_insert [OF _ assms(2), of p "slab_members P F"] R(3) by auto
    qed (use R(3) in simp)
    have objs: "slab_objects st' ?C P' F' = insert (c, object_addr st c s i) (slab_objects st ?C P F)"
    proof -
      have "live st' P' F' c' = (if c' = c then insert (s, i) (live st P F c) else live st P F c')" if "c' \<in> ?C" for c'
        using a(5,6) that by simp
      then show ?thesis using assms(2) by (auto simp: slab_objects_def addr split: if_splits) blast+
    qed
    have "(c, object_addr st c s i) \<notin> sv_objects v"
    proof
      assume "(c, object_addr st c s i) \<in> sv_objects v"
      then obtain s' i' where "(s', i') \<in> live st P F c" "object_addr st c s i = object_addr st c s' i'"
        by (auto simp: R(4) slab_objects_def)
      then have "(c, s, i) = (c, s', i')"
        using object_addr_inj [OF a(2) assms(2,2), of s i s' i'] a(5) addr by simp
      with a(4) \<open>(s', i') \<in> _\<close> show False by simp
    qed
    moreover have "low_zone Z (ss_pages st')" using R(1) a(8) by (simp add: low_zone_def same_zones_def)
    ultimately show ?thesis using a(1,2) blocks objs R(4) unfolding slab_repr_def by force
  qed
qed

lemma repr_free:
  assumes "slab_repr Z st v P F" and "(c, p) \<in> sv_objects v"
  shows "\<exists>st' P' F'. slab_cache_free c p st = Inr st' \<and>
    slab_repr Z st' (v\<lparr>sv_objects := sv_objects v - {(c, p)}\<rparr>) P' F'"
proof -
  note R = slab_reprD [OF assms(1)]
  let ?C = "sv_caches v"
  from assms(2) obtain s i where ob: "c \<in> ?C" "(s, i) \<in> live st P F c" "p = object_addr st c s i"
    by (auto simp: R(4) slab_objects_def)
  from slab_cache_free_result [OF R(2) ob(1,2)] obtain st' P' F' where
    f: "slab_cache_free c p st = Inr st'"
      "slab_inv st' Z ?C P' F' (sv_blocks v \<union> slab_pages ?C (slab_members P F))"
      "live st' P' F' c = live st P F c - {(s, i)}" "\<forall>c' \<in> ?C. c' \<noteq> c \<longrightarrow> live st' P' F' c' = live st P F c'"
      "ss_caches st' = ss_caches st" "ss_pages st' = ss_pages st" "slab_members P' F' = slab_members P F"
    unfolding ob(3) by blast
  have addr: "object_addr st' = object_addr st" by (simp add: fun_eq_iff object_addr_def f(5))
  have "slab_objects st' ?C P' F' = slab_objects st ?C P F - {(c, p)}"
  proof -
    have "(c', s', i') \<noteq> (c, s, i) \<longleftrightarrow> (c', object_addr st c' s' i') \<noteq> (c, p)"
      if "c' \<in> ?C" "(s', i') \<in> live st P F c'" for c' s' i'
      using object_addr_inj [OF R(2) that(1) ob(1) that(2) ob(2)] ob(3) by auto
    moreover have "live st' P' F' c' = (if c' = c then live st P F c - {(s, i)} else live st P F c')" if "c' \<in> ?C" for c'
      using f(3,4) that by simp
    ultimately show ?thesis by (fastforce simp: slab_objects_def addr split: if_splits)
  qed
  then have "slab_repr Z st' (v\<lparr>sv_objects := sv_objects v - {(c, p)}\<rparr>) P' F'"
    using R f(2,6,7) by (simp add: slab_repr_def)
  with f(1) show ?thesis by blast
qed

lemma repr_pages:
  assumes "slab_repr Z st v P F" and "owns Z pages A'" and "same_layout (ss_pages st) pages"
    and "A' = B \<union> slab_pages (sv_caches v) (slab_members P F)"
    and "B \<inter> slab_pages (sv_caches v) (slab_members P F) = {}"
  shows "slab_repr Z (st\<lparr>ss_pages := pages\<rparr>) (v\<lparr>sv_blocks := B\<rparr>) P F"
proof -
  note R = slab_reprD [OF assms(1)]
  have sub: "(sv_blocks v \<union> slab_pages (sv_caches v) (slab_members P F)) \<inter>
      slab_pages (sv_caches v) (slab_members P F) \<subseteq> A'" using assms(4) by blast
  note i = slab_inv_pages [OF R(2) assms(2,3) sub]
  have "slab_objects (st\<lparr>ss_pages := pages\<rparr>) (sv_caches v) P F = slab_objects st (sv_caches v) P F"
    by (rule slab_objects_cong) (simp_all add: i(2))
  moreover have "low_zone Z pages" using R(1) assms(3) by (simp add: low_zone_same)
  ultimately show ?thesis using i(1) R(4) assms(4,5) by (simp add: slab_repr_def)
qed

lemma repr_destroy:
  assumes "slab_repr Z st v P F" and "c \<in> sv_caches v" and "\<forall>p. (c, p) \<notin> sv_objects v"
  shows "\<exists>st'. slab_cache_destroy c st = Some (Inr st') \<and>
    slab_repr Z st' (v\<lparr>sv_caches := sv_caches v - {c}\<rparr>) P F"
proof -
  note R = slab_reprD [OF assms(1)]
  let ?C = "sv_caches v" and ?M = "slab_members P F"
  let ?A = "sv_blocks v \<union> slab_pages ?C ?M"
  have live: "live st P F c = {}" using assms(2,3) by (auto simp: R(4) slab_objects_def)
  from slab_cache_destroy_result [OF R(2) assms(2), unfolded if_P [OF live]] obtain st' where
    st': "slab_cache_destroy c st = Some (Inr st')" "slab_inv st' Z (?C - {c}) P F (?A - slab_blocks (P c))"
      "\<forall>c' \<in> ?C - {c}. live st' P F c' = live st P F c'" "ss_caches st' = ss_caches st" "same_zones st st'" by blast
  have "F c = []"
  proof (rule ccontr)
    assume "F c \<noteq> []"
    then obtain s where s: "s \<in> set (F c)" by (cases "F c") auto
    have "card (used st c s) = slots st c" using slab_invD(6,7) [OF R(2) assms(2) s] by (simp add: slab_ok_def)
    moreover have "0 < slots st c"
      using slab_invD(3) [OF R(2) assms(2)] by (simp add: slots_def cache_ok_def word_less_nat_alt)
    ultimately have "used st c s \<noteq> {}" by auto
    with s live show False by (auto simp: live_def)
  qed
  then have Mc: "?M c = set (P c)" by (simp add: slab_members_def)
  have apart: "slab_at q \<notin> set (P c)" if "c' \<in> ?C - {c}" "slab_at q \<in> ?M c'" for c' q
    using slab_unique(1,2) [OF R(2) assms(2), of c' "slab_at q"] that by (auto simp: slab_members_def)
  have pages: "slab_pages ?C ?M - slab_blocks (P c) = slab_pages (?C - {c}) ?M"
    using apart assms(2) Mc by (fastforce simp: slab_pages_def slab_blocks_def)
  have "slab_blocks (P c) \<subseteq> slab_pages ?C ?M" using Mc assms(2) by (auto simp: slab_pages_def slab_blocks_def)
  then have A: "?A - slab_blocks (P c) = sv_blocks v \<union> slab_pages (?C - {c}) ?M"
    using R(3) pages by blast
  have "slab_objects st' (?C - {c}) P F = slab_objects st (?C - {c}) P F"
    using st'(3,4) by (intro slab_objects_cong) simp_all
  also have "\<dots> = slab_objects st ?C P F" using live unfolding slab_objects_def by blast
  finally have "slab_repr Z st' (v\<lparr>sv_caches := ?C - {c}\<rparr>) P F"
    using R st'(2,5) pages unfolding A by (auto simp: slab_repr_def low_zone_def same_zones_def)
  with st'(1) show ?thesis by blast
qed

definition slab_good :: "zone_type set \<Rightarrow> slab_state \<times> slab_view \<Rightarrow> bool" where
  "slab_good Z s \<longleftrightarrow> (\<exists>P F. slab_repr Z (fst s) (snd s) P F)"

lemma slab_goodI: "slab_repr Z st v P F \<Longrightarrow> slab_good Z (st, v)"
  by (auto simp: slab_good_def)

text \<open>A legal call returns, and whatever it returns the state stands for the view again.\<close>

lemma slab_call_good:
  assumes "slab_good Z (st, v)" and "slab_legal v c"
  shows "\<exists>s'. slab_step (st, v) c s'" and "\<forall>s'. slab_step (st, v) c s' \<longrightarrow> slab_good Z s'"
proof -
  from assms(1) obtain P F where r: "slab_repr Z st v P F" by (auto simp: slab_good_def)
  note R = slab_reprD [OF r]
  have own: "owns Z (ss_pages st) (sv_blocks v \<union> slab_pages (sv_caches v) (slab_members P F))"
    by (rule slab_invD(1) [OF R(2)])
  have z: "ZONE_NORMAL \<in> Z" using R(1) by (simp add: low_zone_def)
  have "(\<exists>s'. slab_step (st, v) c s') \<and> (\<forall>s'. slab_step (st, v) c s' \<longrightarrow> slab_good Z s')"
  proof (cases c)
    case (Create d n al)
    with assms(2) repr_create [OF r, of d n al] show ?thesis
      by (auto intro: slab_step.intros slab_goodI elim!: slab_step.cases)
  next
    case (Destroy d)
    with assms(2) repr_destroy [OF r, of d] show ?thesis
      by (auto intro: slab_step.intros slab_goodI elim!: slab_step.cases)
  next
    case (New_object d f)
    with assms(2) repr_alloc [OF r, of d f] r show ?thesis
      by (auto intro: slab_step.intros slab_goodI elim!: slab_step.cases)
  next
    case (Free_object d p)
    with assms(2) repr_free [OF r, of d p] show ?thesis
      by (auto intro: slab_step.intros slab_goodI elim!: slab_step.cases)
  next
    case (Get_pages k f)
    with assms(2) have k: "k < MAX_ORDER" "f AND ALLOC_NORMAL \<noteq> 0" by simp_all
    note a = alloc_pages_result [OF own z k]
    have ok: "slab_good Z (st\<lparr>ss_pages := pages\<rparr>, v\<lparr>sv_blocks := insert (p, k) (sv_blocks v)\<rparr>)"
      if "alloc_pages k f (ss_pages st) = Inr (Some p, pages)" for p pages
    proof -
      from a that have p: "owns Z pages (insert (p, k) (sv_blocks v \<union> slab_pages (sv_caches v) (slab_members P F)))"
        "(p, k) \<notin> sv_blocks v \<union> slab_pages (sv_caches v) (slab_members P F)" "same_layout (ss_pages st) pages"
        by (auto split: if_splits)
      show ?thesis unfolding slab_good_def fst_conv snd_conv
        by (intro exI, rule repr_pages [OF r p(1,3)]) (use p(2) R(3) in auto)
    qed
    have none: "pages = ss_pages st" if "alloc_pages k f (ss_pages st) = Inr (None, pages)" for pages
      using a that by (auto split: if_splits)
    obtain res pages where "alloc_pages k f (ss_pages st) = Inr (res, pages)" using a by (auto split: if_splits)
    then show ?thesis using ok none assms(1) Get_pages
      by (cases res) (auto intro: slab_step.intros elim!: slab_step.cases)
  next
    case (Put_pages p k)
    with assms(2) have b: "(p, k) \<in> sv_blocks v" by simp
    then obtain pages where f: "free_pages p k (ss_pages st) = Inr pages" "same_layout (ss_pages st) pages"
      "owns Z pages (sv_blocks v \<union> slab_pages (sv_caches v) (slab_members P F) - {(p, k)})"
      using own free_pages_result [of "ss_pages st" Z _ _ p k] unfolding owns_def by blast
    have "slab_repr Z (st\<lparr>ss_pages := pages\<rparr>) (v\<lparr>sv_blocks := sv_blocks v - {(p, k)}\<rparr>) P F"
      by (rule repr_pages [OF r f(3,2)]) (use b R(3) in auto)
    with f(1) Put_pages show ?thesis
      by (auto intro: slab_step.intros slab_goodI elim!: slab_step.cases)
  qed
  then show "\<exists>s'. slab_step (st, v) c s'" "\<forall>s'. slab_step (st, v) c s' \<longrightarrow> slab_good Z s'" by blast+
qed

lemma slab_runs_good: "\<lbrakk>slab_runs s cs s'; slab_good Z s\<rbrakk> \<Longrightarrow> slab_good Z s'"
proof (induction rule: slab_runs.induct)
  case (slab_runs_Cons s c s1 cs s2)
  then show ?case using slab_call_good(2) [of Z "fst s" "snd s" c] by simp
qed

lemma slab_good_start:
  assumes "owns Z (ss_pages st) A" and "low_zone Z (ss_pages st)"
  shows "slab_good Z (st, \<lparr>sv_caches = {}, sv_objects = {}, sv_blocks = A\<rparr>)"
proof -
  have "slab_inv st Z {} (\<lambda>_. []) (\<lambda>_. []) A"
    using assms(1) by (simp add: slab_inv_def list_family_def disjoint_lists_def heads_def)
  then show ?thesis unfolding slab_good_def slab_repr_def
    using assms(2) by (intro exI [of _ "\<lambda>_. []"]) (simp add: slab_pages_def slab_objects_def)
qed

subsection \<open>What the clients see\<close>

definition object_range :: "slab_state \<Rightarrow> u32 \<times> u32 \<Rightarrow> nat set" where
  "object_range st ob = {unat (snd ob) ..< unat (snd ob) + unat (sc_object_size (ss_caches st (fst ob)))}"

definition frame_of :: "nat \<Rightarrow> nat" where
  "frame_of x = (x - unat PAGE_OFFSET) div unat PAGE_SIZE"

lemma good_objects_apart:
  assumes "slab_good Z (st, v)" and "ob \<in> sv_objects v" and "ob' \<in> sv_objects v" and "ob \<noteq> ob'"
  shows "object_range st ob \<inter> object_range st ob' = {}"
proof -
  from assms(1) obtain P F where "slab_repr Z st v P F" by (auto simp: slab_good_def)
  note R = slab_reprD [OF this]
  from assms(2) obtain c s i where 1: "ob = (c, object_addr st c s i)" "c \<in> sv_caches v" "(s, i) \<in> live st P F c"
    by (auto simp: R(4) slab_objects_def)
  from assms(3) obtain c' s' i' where 2: "ob' = (c', object_addr st c' s' i')" "c' \<in> sv_caches v" "(s', i') \<in> live st P F c'"
    by (auto simp: R(4) slab_objects_def)
  have "(c, s, i) \<noteq> (c', s', i')" using assms(4) 1(1) 2(1) by auto
  from slab_objects_separate [OF R(2) 1(2) 2(2) 1(3) 2(3) this] show ?thesis
    by (simp add: object_range_def object_bytes_def 1(1) 2(1))
qed

lemma good_object_frames:
  assumes "slab_good Z (st, v)" and "ob \<in> sv_objects v" and "x \<in> object_range st ob" and "b \<in> sv_blocks v"
  shows "frame_of x \<notin> span b"
proof -
  from assms(1) obtain P F where r: "slab_repr Z st v P F" by (auto simp: slab_good_def)
  note R = slab_reprD [OF r]
  let ?A = "sv_blocks v \<union> slab_pages (sv_caches v) (slab_members P F)"
  from assms(2) obtain c s i where o: "ob = (c, object_addr st c s i)" "c \<in> sv_caches v" "(s, i) \<in> live st P F c"
    by (auto simp: R(4) slab_objects_def)
  note L = live_slab [OF R(2) o(2,3)]
  obtain q where q: "s = slab_at q" "(q, SLAB_ORDER) \<in> ?A" "unat q + 2 \<le> 0x38000" "unat s = 0xC0000000 + 4096 * unat q"
    by (rule slab_ok_address [OF L(1)]) blast
  have "s \<in> slab_members P F c" using o(3) by (auto simp: live_def slab_members_def)
  with q(1,3) o(2) have "(q, SLAB_ORDER) \<in> slab_pages (sv_caches v) (slab_members P F)"
    by (auto simp: slab_pages_def)
  then have "(q, SLAB_ORDER) \<noteq> b" using R(3) assms(4) by blast
  then have "span (q, SLAB_ORDER) \<inter> span b = {}"
    using blocks_ok_disjoint [OF owns_blocks_ok [OF slab_invD(1) [OF R(2)]] q(2), of b] assms(4) by blast
  moreover have "frame_of x \<in> span (q, SLAB_ORDER)"
  proof -
    note a = object_addr_nat [OF L(1) slab_invD(3) [OF R(2) o(2)] L(2)]
    have "unat s \<le> x" "x < unat s + 8192"
      using assms(3) a by (auto simp: object_range_def o(1) algebra_simps)
    then obtain y where y: "x = 0xC0000000 + 4096 * unat q + y" "y < 8192"
      unfolding q(4) by (auto simp: le_iff_add)
    then have "(x - 0xC0000000) div 4096 = unat q + y div 4096" by simp
    moreover have "y div 4096 < 2" using y(2) by simp
    ultimately show ?thesis by (simp add: frame_of_def span_def SLAB_ORDER_def layout_values PAGE_OFFSET_def)
  qed
  ultimately show ?thesis by blast
qed

lemma good_blocks:
  assumes "slab_good Z (st, v)"
  shows "blocks_ok (sv_blocks v)" and "sv_caches v = {} \<Longrightarrow> owns Z (ss_pages st) (sv_blocks v)"
proof -
  from assms obtain P F where "slab_repr Z st v P F" by (auto simp: slab_good_def)
  note R = slab_reprD [OF this]
  note own = slab_invD(1) [OF R(2)]
  show "blocks_ok (sv_blocks v)" by (rule blocks_ok_subset [OF owns_blocks_ok [OF own]]) blast
  show "owns Z (ss_pages st) (sv_blocks v)" if "sv_caches v = {}"
    using own that by (simp add: slab_pages_def)
qed

subsection \<open>Properties\<close>

text \<open>
  C5: the two allocators under any sequence of legal calls of their clients, from a page allocator that
  has handed out the blocks \<open>A\<close> and no caches. The objects that clients hold share no byte with each
  other and lie in no page of a block that a client holds, the blocks do not overlap, and every legal
  call returns without an assertion. When all caches have been destroyed, the page allocator has back
  every page but those of the clients' blocks.
\<close>

theorem slab_history:
  assumes "owns Z (ss_pages st0) A" and "low_zone Z (ss_pages st0)"
    and "slab_runs (st0, \<lparr>sv_caches = {}, sv_objects = {}, sv_blocks = A\<rparr>) cs (st, v)"
  shows "(\<forall>ob \<in> sv_objects v. \<forall>ob' \<in> sv_objects v. ob \<noteq> ob' \<longrightarrow> object_range st ob \<inter> object_range st ob' = {}) \<and>
    (\<forall>ob \<in> sv_objects v. \<forall>x \<in> object_range st ob. \<forall>b \<in> sv_blocks v. frame_of x \<notin> span b) \<and>
    blocks_ok (sv_blocks v) \<and>
    (\<forall>c. slab_legal v c \<longrightarrow> (\<exists>s. slab_step (st, v) c s)) \<and>
    (sv_caches v = {} \<longrightarrow> owns Z (ss_pages st) (sv_blocks v))"
proof -
  have good: "slab_good Z (st, v)" by (rule slab_runs_good [OF assms(3) slab_good_start [OF assms(1,2)]])
  show ?thesis
    using good_objects_apart [OF good] good_object_frames [OF good] good_blocks [OF good] slab_call_good(1) [OF good]
    by blast
qed

theorem slab_history_witness:
  "\<exists>st v p. slab_runs (sample_slabs, \<lparr>sv_caches = {}, sv_objects = {}, sv_blocks = {(6, 1)}\<rparr>)
      [Create 0x100 24 8, New_object 0x100 ALLOC_NORMAL] (st, v) \<and> sv_objects v = {(0x100, p)} \<and>
    (\<forall>x \<in> object_range st (0x100, p). frame_of x \<notin> span (6, 1))"
proof -
  let ?u = "\<lparr>sv_caches = {}, sv_objects = {}, sv_blocks = {(6, 1)}\<rparr> :: slab_view"
  let ?w = "?u\<lparr>sv_caches := {0x100}\<rparr>"
  obtain st1 where st1: "slab_cache_create 0x100 24 8 sample_slabs = Inr st1"
    "slab_inv st1 {ZONE_NORMAL, ZONE_HIGH} {0x100} (\<lambda>_. []) (\<lambda>_. []) {(6, 1)}" "ss_pages st1 = sample_pages"
    by (rule sample_cache) blast
  have s1: "slab_step (sample_slabs, ?u) (Create 0x100 24 8) (st1, ?w)"
    using slab_step.intros(1) [OF st1(1), of ?u] by simp
  have low1: "low_zone {ZONE_NORMAL, ZONE_HIGH} (ss_pages st1)" using st1(3) sample_low by simp
  have "\<exists>r. aligned r SLAB_ORDER \<and> span (r, SLAB_ORDER) \<subseteq> free_frames ZONE_NORMAL (ss_pages st1) {(6, 1)}"
    using sample_run st1(3) by simp
  then have run: "\<not> ((\<lambda>_. []) (0x100 :: u32) = ([] :: u32 list) \<and> \<not> (\<exists>r. aligned r SLAB_ORDER \<and>
      span (r, SLAB_ORDER) \<subseteq> free_frames ZONE_NORMAL (ss_pages st1) {(6, 1)}))" by blast
  obtain p st where a: "slab_cache_alloc 0x100 ALLOC_NORMAL st1 = Some (Inr (Some p, st))"
    using slab_cache_alloc_result [OF st1(2) _ low1 normal_flag, of "0x100"] unfolding if_not_P [OF run] by blast
  let ?v = "?w\<lparr>sv_objects := insert (0x100, p) (sv_objects ?w)\<rparr>"
  have size: "object_size_ok 24 8" using sample_object_size by (simp add: object_size_ok_def)
  have runs: "slab_runs (sample_slabs, ?u) [Create 0x100 24 8, New_object 0x100 ALLOC_NORMAL] (st, ?v)"
  proof (rule slab_runs_Cons [OF _ s1 slab_runs_Cons [OF _ slab_step.intros(3) [OF a] slab_runs_Nil]])
    show "slab_legal (snd (sample_slabs, ?u)) (Create 0x100 24 8)" using size by simp
    show "slab_legal (snd (st1, ?w)) (New_object 0x100 ALLOC_NORMAL)" using normal_flag by simp
  qed
  have "owns {ZONE_NORMAL, ZONE_HIGH} (ss_pages sample_slabs) {(6, 1)}" "low_zone {ZONE_NORMAL, ZONE_HIGH} (ss_pages sample_slabs)"
    using sample_owns sample_low by (simp_all add: sample_slabs_def)
  from slab_history [OF this runs] have "\<forall>x \<in> object_range st (0x100, p). frame_of x \<notin> span (6, 1)" by simp
  with runs show ?thesis by (intro exI conjI) (assumption, simp_all)
qed

end
