(* ===== verification/Utility.thy ===== *)
theory Utility
  imports Prelude
begin

text \<open>
  \<open>kernel/utility.c\<close>: the byte loops \<open>memset\<close>, \<open>memcpy\<close>, \<open>memcmp\<close> and the printing of numbers,
  \<open>utoa\<close> and \<open>itoa\<close>. Memory is a function from 32-bit addresses to bytes; pointer arithmetic wraps as
  the addresses do. \<open>string_at m a s\<close> says that at \<open>a\<close> there is the zero-terminated string \<open>s\<close>.
  The readers of little-endian fields that the tables of the firmware need stand here as well.
\<close>

subsection \<open>Memory\<close>

type_synonym memory = "u32 \<Rightarrow> u8"

definition read16 :: "memory \<Rightarrow> u32 \<Rightarrow> u16" where
  "read16 m a = word_rcat [m (a + 1), m a]"

definition read32 :: "memory \<Rightarrow> u32 \<Rightarrow> u32" where
  "read32 m a = word_rcat [m (a + 3), m (a + 2), m (a + 1), m a]"

definition read64 :: "memory \<Rightarrow> u32 \<Rightarrow> u64" where
  "read64 m a = word_rcat [m (a + 7), m (a + 6), m (a + 5), m (a + 4), m (a + 3), m (a + 2), m (a + 1), m a]"

definition string_at :: "memory \<Rightarrow> u32 \<Rightarrow> u8 list \<Rightarrow> bool" where
  "string_at m a s \<longleftrightarrow> (\<forall>i < length s. m (a + of_nat i) = s ! i) \<and> 0 \<notin> set s \<and> m (a + of_nat (length s)) = 0"

subsection \<open>The code\<close>

lemma unat_rest: "(a :: u32) \<noteq> b \<Longrightarrow> unat (b - (a + 1)) < unat (b - a)"
proof -
  assume "a \<noteq> b"
  then have "b - a \<noteq> 0" by simp
  then have "unat (b - a - 1) < unat (b - a)" by (metis measure_unat)
  then show ?thesis by (simp add: diff_diff_eq)
qed

function memset_loop :: "u32 \<Rightarrow> u32 \<Rightarrow> u8 \<Rightarrow> memory \<Rightarrow> memory" where
  "memset_loop bgn fin v m =
     (if bgn \<noteq> fin then memset_loop (bgn + 1) fin v (m(bgn := v)) else m)"
  by pat_completeness auto
termination
  by (relation "measure (\<lambda>(b, e, v, m). unat (e - b))") (auto intro: unat_rest)

definition memset :: "u32 \<Rightarrow> u32 \<Rightarrow> u32 \<Rightarrow> memory \<Rightarrow> memory" where
  "memset p value sz m = memset_loop p (p + sz) (ucast value) m"

function memcpy_loop :: "u32 \<Rightarrow> u32 \<Rightarrow> u32 \<Rightarrow> memory \<Rightarrow> memory" where
  "memcpy_loop to src sz m =
     (if sz \<noteq> 0 then memcpy_loop (to + 1) (src + 1) (sz - 1) (m(to := m src)) else m)"
  by pat_completeness auto
termination
  by (relation "measure (\<lambda>(t, f, n, m). unat n)") (auto intro: measure_unat)

definition memcpy :: "u32 \<Rightarrow> u32 \<Rightarrow> u32 \<Rightarrow> memory \<Rightarrow> memory" where
  "memcpy dst src sz m = memcpy_loop dst src sz m"

function memcmp_loop :: "u32 \<Rightarrow> u32 \<Rightarrow> u32 \<Rightarrow> memory \<Rightarrow> int" where
  "memcmp_loop l e r m =
     (if l < e then
        (if m l \<noteq> m r then sint (m l) - sint (m r) else memcmp_loop (l + 1) e (r + 1) m)
      else 0)"
  by pat_completeness auto
termination
  by (relation "measure (\<lambda>(l, e, r, m). unat (e - l))") (auto intro: unat_rest)

definition memcmp :: "u32 \<Rightarrow> u32 \<Rightarrow> u32 \<Rightarrow> memory \<Rightarrow> int" where
  "memcmp l r sz m = memcmp_loop l (l + sz) r m"

definition digit_char :: "u32 \<Rightarrow> u8" where
  "digit_char rem = ucast (if rem < 10 then rem + 48 else rem + 97 - 10)"

text \<open>The loop that writes the digits, the lowest first; with base 1 it does not end.\<close>

partial_function (option) utoa_digits :: "u32 \<Rightarrow> u32 \<Rightarrow> u32 \<Rightarrow> memory \<Rightarrow> (u32 \<times> memory) outcome option" where
  "utoa_digits fin d base m =
     (if base = 0 then Some (Inl Divide_error)
      else
        (let m1 = m(fin := digit_char (d mod base)); d1 = d div base
         in if d1 \<noteq> 0 then utoa_digits (fin + 1) d1 base m1 else Some (Inr (fin + 1, m1))))"

declare utoa_digits.simps [code]

lemma reverse_step: "(b :: u32) < e \<Longrightarrow> unat (e - 1) - unat (b + 1) < unat e - unat b"
proof -
  assume "b < e"
  then have *: "unat b < unat e" by (simp add: word_less_nat_alt)
  then have "unat (e - 1) = unat e - 1" by (intro unat_minus_one) auto
  moreover have "unat (b + 1) = unat b + 1"
    using * unat_lt_2p32 [of e] unat_plus_no_wrap [of b 1] by (simp del: unat_lt_2p32)
  ultimately show ?thesis using * by linarith
qed

function utoa_reverse :: "u32 \<Rightarrow> u32 \<Rightarrow> memory \<Rightarrow> memory" where
  "utoa_reverse bgn fin m =
     (if bgn < fin then
        (let tmp = m bgn;
             m1 = m(bgn := m fin);
             m2 = m1(fin := tmp)
         in utoa_reverse (bgn + 1) (fin - 1) m2)
      else m)"
  by pat_completeness auto
termination
  by (relation "measure (\<lambda>(b, e, m). unat e - unat b)") (auto intro: reverse_step)

definition utoa :: "u32 \<Rightarrow> u32 \<Rightarrow> u32 \<Rightarrow> memory \<Rightarrow> memory outcome option" where
  "utoa buf d base m =
     (case utoa_digits buf d base m of
        None \<Rightarrow> None
      | Some (Inl e) \<Rightarrow> Some (Inl e)
      | Some (Inr (fin, m1)) \<Rightarrow> Some (Inr (utoa_reverse buf (fin - 1) (m1(fin := 0)))))"

definition itoa :: "u32 \<Rightarrow> u32 \<Rightarrow> u32 \<Rightarrow> memory \<Rightarrow> memory outcome option" where
  "itoa buf d base m =
     (if base = 10 \<and> d <s 0 then utoa (buf + 1) (- d) base (m(buf := 45)) else utoa buf d base m)"

declare memset_loop.simps [simp del] memcpy_loop.simps [simp del] memcmp_loop.simps [simp del]
  utoa_reverse.simps [simp del]


subsection \<open>Writing a list of bytes\<close>

definition store :: "u32 \<Rightarrow> u8 list \<Rightarrow> memory \<Rightarrow> memory" where
  "store a xs m = (\<lambda>z. if unat (z - a) < length xs then xs ! unat (z - a) else m z)"

lemma store_Nil [simp]: "store a [] m = m"
  by (simp add: store_def)

lemma word_offset_pred: "(x :: u32) \<noteq> 0 \<Longrightarrow> unat x = Suc (unat (x - 1))"
  by (metis Suc_pred' unat_gt_0 unat_minus_one)

lemma store_Cons:
  assumes "length xs < 2 ^ 32"
  shows "store a (x # xs) m = store (a + 1) xs (m(a := x))"
proof
  fix z
  show "store a (x # xs) m z = store (a + 1) xs (m(a := x)) z"
  proof (cases "z = a")
    case True
    have "unat (- 1 :: u32) = 2 ^ 32 - 1" by (simp add: unsigned_minus_1_eq_mask mask_eq_exp_minus_1)
    then have "\<not> unat (z - (a + 1)) < length xs" using assms True by simp
    then show ?thesis using True by (simp add: store_def)
  next
    case False
    then have "unat (z - a) = Suc (unat (z - a - 1))" by (intro word_offset_pred) simp
    then show ?thesis using False by (simp add: store_def diff_diff_eq)
  qed
qed

lemma unat_of_nat_less: "i < 2 ^ 32 \<Longrightarrow> unat (of_nat i :: u32) = i"
  by (simp add: unat_of_nat)

lemma offset_eq: "(z = a + of_nat i) \<longleftrightarrow> unat (z - a) = i" if "i < 2 ^ 32" for z a :: u32
proof
  assume "z = a + of_nat i"
  then show "unat (z - a) = i" using that by (simp add: unat_of_nat_less)
next
  assume "unat (z - a) = i"
  then have "z - a = of_nat i" by (metis unat_of_nat_less that word_unat_eq_iff)
  then show "z = a + of_nat i" by (simp add: algebra_simps)
qed

lemma store_update:
  assumes "i < length xs" and "length xs \<le> 2 ^ 32"
  shows "(store a xs m)(a + of_nat i := v) = store a (xs[i := v]) m"
proof
  fix z
  have "(z = a + of_nat i) = (unat (z - a) = i)" using assms by (intro offset_eq) simp
  then show "((store a xs m)(a + of_nat i := v)) z = store a (xs[i := v]) m z"
    using assms by (auto simp: store_def nth_list_update)
qed

lemma store_snoc:
  assumes "length xs < 2 ^ 32"
  shows "(store a xs m)(a + of_nat (length xs) := v) = store a (xs @ [v]) m"
proof
  fix z
  have "(z = a + of_nat (length xs)) = (unat (z - a) = length xs)" using assms by (intro offset_eq)
  then show "((store a xs m)(a + of_nat (length xs) := v)) z = store a (xs @ [v]) m z"
    by (auto simp: store_def nth_append)
qed

lemma store_outside:
  assumes "length xs \<le> unat (z - a)"
  shows "(store a xs m)(z := v) = store a xs (m(z := v))"
  using assms by (auto simp: store_def)

lemma store_read:
  "i < length xs \<Longrightarrow> length xs \<le> 2 ^ 32 \<Longrightarrow> store a xs m (a + of_nat i) = xs ! i"
  by (simp add: store_def unat_of_nat_less)

lemma store_other: "length xs \<le> unat (z - a) \<Longrightarrow> store a xs m z = m z"
  by (simp add: store_def)

lemma string_at_store:
  assumes "0 \<notin> set xs" and "length xs < 2 ^ 32"
  shows "string_at (store a (xs @ [0]) m) a xs"
  unfolding string_at_def
proof (intro conjI allI impI)
  fix i assume "i < length xs"
  then show "store a (xs @ [0]) m (a + of_nat i) = xs ! i"
    using assms by (subst store_read) (auto simp: nth_append)
next
  show "store a (xs @ [0]) m (a + of_nat (length xs)) = 0"
    using assms by (subst store_read) auto
qed (rule assms)

lemma string_at_frame:
  assumes "string_at m a s" and "\<And>i. i \<le> length s \<Longrightarrow> m' (a + of_nat i) = m (a + of_nat i)"
  shows "string_at m' a s"
  using assms unfolding string_at_def by auto

lemma string_at_Cons:
  "string_at m a (c # s) \<longleftrightarrow> m a = c \<and> c \<noteq> 0 \<and> string_at m (a + 1) s"
  unfolding string_at_def
  by (auto simp: less_Suc_eq_0_disj ac_simps)

lemma string_at_Nil [simp]: "string_at m a [] \<longleftrightarrow> m a = 0"
  by (simp add: string_at_def)

subsection \<open>The byte loops\<close>

lemma memset_loop_store: "memset_loop b e v m = store b (replicate (unat (e - b)) v) m"
proof (induction b e v m rule: memset_loop.induct)
  case (1 b e v m)
  show ?case
  proof (cases "b = e")
    case False
    then have "unat (e - b) = Suc (unat (e - (b + 1)))"
      using word_offset_pred [of "e - b"] by (simp add: diff_diff_eq)
    moreover from this have "unat (e - (b + 1)) < 2 ^ 32" by simp
    ultimately show ?thesis using 1 False
      by (subst memset_loop.simps) (simp add: store_Cons del: unat_lt_2p32 fun_upd_apply)
  qed (subst memset_loop.simps, simp)
qed

lemma memset_store: "memset p v n m = store p (replicate (unat n) (ucast v)) m"
  by (simp add: memset_def memset_loop_store)

lemma memcpy_loop_store:
  assumes "dst = src \<or> n \<le> dst - src"
  shows "memcpy_loop dst src n m = store dst (map (\<lambda>i. m (src + of_nat i)) [0..<unat n]) m"
  using assms
proof (induction dst src n m rule: memcpy_loop.induct)
  case (1 dst src n m)
  show ?case
  proof (cases "n = 0")
    case False
    then have n: "unat n = Suc (unat (n - 1))" by (rule word_offset_pred)
    let ?m = "m(dst := m src)" and ?k = "unat (n - 1)"
    have "n - 1 < n" using False by (simp add: word_less_nat_alt n)
    then have "dst + 1 = src + 1 \<or> n - 1 \<le> dst + 1 - (src + 1)" using 1(2) by auto
    from 1(1) [OF False this]
    have IH: "memcpy_loop (dst + 1) (src + 1) (n - 1) ?m =
      store (dst + 1) (map (\<lambda>i. ?m (src + 1 + of_nat i)) [0..<?k]) ?m" .
    have same: "?m (src + 1 + of_nat i) = m (src + of_nat (Suc i))" if "i < ?k" for i
    proof (cases "dst = src")
      case False
      have i: "unat (of_nat (Suc i) :: u32) = Suc i"
        using that n unat_lt_2p32 [of n] by (intro unat_of_nat_less) (simp del: unat_lt_2p32)
      from False 1(2) have "n \<le> dst - src" by simp
      then have "unat n \<le> unat (dst - src)" by (simp add: word_le_nat_alt)
      then have "dst - src \<noteq> of_nat (Suc i)" using i that n by auto
      then have "src + of_nat (Suc i) \<noteq> dst" by (metis add_diff_cancel_left')
      then show ?thesis by (simp add: ac_simps)
    qed (simp add: ac_simps)
    have "map (\<lambda>i. m (src + of_nat i)) [0..<unat n] = m src # map (\<lambda>i. m (src + of_nat (Suc i))) [0..<?k]"
      unfolding n by (simp add: map_upt_Suc del: upt_Suc)
    moreover have "map (\<lambda>i. m (src + of_nat (Suc i))) [0..<?k] = map (\<lambda>i. ?m (src + 1 + of_nat i)) [0..<?k]"
      using same by (intro map_cong) auto
    ultimately have bytes: "map (\<lambda>i. m (src + of_nat i)) [0..<unat n] =
      m src # map (\<lambda>i. ?m (src + 1 + of_nat i)) [0..<?k]" by (simp only:)
    show ?thesis unfolding bytes using False IH
      by (subst memcpy_loop.simps) (simp add: store_Cons del: fun_upd_apply)
  qed (subst memcpy_loop.simps, simp)
qed

lemma find_map_option: "find P (map f xs) = map_option f (find (\<lambda>x. P (f x)) xs)"
  by (induction xs) auto

lemma memcmp_loop_find:
  assumes "l \<le> e"
  shows "memcmp_loop l e r m = (case find (\<lambda>i. m (l + of_nat i) \<noteq> m (r + of_nat i)) [0..<unat (e - l)] of
    None \<Rightarrow> 0 | Some i \<Rightarrow> sint (m (l + of_nat i)) - sint (m (r + of_nat i)))"
  using assms
proof (induction l e r m rule: memcmp_loop.induct)
  case (1 l e r m)
  show ?case
  proof (cases "l < e")
    case True
    then have "e - l \<noteq> 0" by auto
    then have n: "unat (e - l) = Suc (unat (e - (l + 1)))"
      using word_offset_pred [of "e - l"] by (simp add: diff_diff_eq)
    have le: "l + 1 \<le> e" using True by (rule inc_le)
    have shift: "find P [Suc 0..<Suc k] = map_option Suc (find (\<lambda>i. P (Suc i)) [0..<k])" for P k
      unfolding map_Suc_upt [symmetric] by (rule find_map_option)
    show ?thesis
    proof (cases "m l = m r")
      case eq: True
      have "memcmp_loop l e r m = memcmp_loop (l + 1) e (r + 1) m"
        using True eq by (subst memcmp_loop.simps) simp
      also note 1(1) [OF True _ le]
      finally show ?thesis using eq unfolding n
        by (simp add: upt_conv_Cons shift algebra_simps map_option_case del: upt_Suc split: option.splits)
    next
      case False
      then show ?thesis using True unfolding n
        by (subst memcmp_loop.simps) (simp add: upt_conv_Cons del: upt_Suc)
    qed
  qed (use 1(2) in \<open>subst memcmp_loop.simps, simp\<close>)
qed


lemma memcpy_store:
  "dst = src \<or> n \<le> dst - src \<Longrightarrow>
    memcpy dst src n m = store dst (map (\<lambda>i. m (src + of_nat i)) [0..<unat n]) m"
  unfolding memcpy_def by (rule memcpy_loop_store)

subsection \<open>Numbers\<close>

text \<open>The digits of a number, the highest first, and the number a string of digits stands for.\<close>

fun digits :: "nat \<Rightarrow> nat \<Rightarrow> nat list" where
  "digits b n = (if b < 2 \<or> n < b then [n] else digits b (n div b) @ [n mod b])"

declare digits.simps [simp del]

definition digit_value :: "u8 \<Rightarrow> nat" where
  "digit_value c = (if c < 58 then unat c - 48 else unat c - 87)"

definition number_of :: "nat \<Rightarrow> u8 list \<Rightarrow> nat" where
  "number_of b s = foldl (\<lambda>v c. v * b + digit_value c) 0 s"

definition numeral_string :: "nat \<Rightarrow> nat \<Rightarrow> u8 list" where
  "numeral_string b n = map (\<lambda>k. digit_char (of_nat k)) (digits b n)"

lemma digits_less: "2 \<le> b \<Longrightarrow> k \<in> set (digits b n) \<Longrightarrow> k < b"
proof (induction b n rule: digits.induct)
  case (1 b n)
  show ?case
  proof (cases "n < b")
    case True
    with 1(2,3) show ?thesis by (subst (asm) digits.simps) simp
  next
    case False
    with 1(2,3) have "k \<in> set (digits b (n div b)) \<or> k = n mod b" by (subst (asm) digits.simps) auto
    with 1 False show ?thesis by auto
  qed
qed

lemma length_digits: "2 \<le> b \<Longrightarrow> n < b ^ k \<Longrightarrow> 0 < k \<Longrightarrow> length (digits b n) \<le> k"
proof (induction k arbitrary: n)
  case (Suc k)
  show ?case
  proof (cases "n < b \<or> k = 0")
    case True
    with Suc.prems have "n < b" by auto
    then show ?thesis by (subst digits.simps) simp
  next
    case False
    have "n div b < b ^ k" using Suc.prems(1,2) by (simp add: less_mult_imp_div_less mult.commute)
    with Suc False have "length (digits b (n div b)) \<le> k" by simp
    with False Suc.prems show ?thesis by (subst digits.simps) simp
  qed
qed simp

lemma length_digits_32:
  assumes "2 \<le> b" and "n < 2 ^ 32"
  shows "length (digits b n) \<le> 32"
proof -
  have "(2 :: nat) ^ 32 \<le> b ^ 32" using assms(1) by (rule power_mono) simp
  with assms show ?thesis by (intro length_digits) (auto simp del: power.simps)
qed

lemma digit_value_char: "k < 36 \<Longrightarrow> digit_value (digit_char (of_nat k)) = k"
proof -
  have "\<forall>k \<in> set [0..<36]. digit_value (digit_char (of_nat k)) = k" by code_simp
  then show "k < 36 \<Longrightarrow> digit_value (digit_char (of_nat k)) = k" by simp
qed

lemma digit_char_nonzero: "k < 36 \<Longrightarrow> digit_char (of_nat k) \<noteq> 0"
proof -
  have "\<forall>k \<in> set [0..<36]. digit_char (of_nat k) \<noteq> 0" by code_simp
  then show "k < 36 \<Longrightarrow> digit_char (of_nat k) \<noteq> 0" by simp
qed

lemma number_of_numeral_string:
  assumes "2 \<le> b" and "b \<le> 36"
  shows "number_of b (numeral_string b n) = n"
  using assms
proof (induction b n rule: digits.induct)
  case (1 b n)
  show ?case
  proof (cases "n < b")
    case True
    then have "n < 36" using 1(3) by simp
    with True show ?thesis
      by (simp add: numeral_string_def number_of_def digits.simps [of b n] digit_value_char)
  next
    case False
    then have "number_of b (numeral_string b (n div b)) = n div b" using 1 by simp
    moreover have "n mod b < 36" using 1(2,3) using mod_less_divisor [of b n] by linarith
    ultimately show ?thesis using False 1(2)
      by (simp add: numeral_string_def number_of_def digits.simps [of b n] digit_value_char)
  qed
qed

lemma numeral_string_nonzero:
  assumes "2 \<le> b" and "b \<le> 36"
  shows "0 \<notin> set (numeral_string b n)"
proof
  assume "0 \<in> set (numeral_string b n)"
  then obtain k where "k \<in> set (digits b n)" and "digit_char (of_nat k) = 0"
    by (auto simp: numeral_string_def)
  then show False using digits_less [OF assms(1)] assms(2) digit_char_nonzero [of k] by force
qed

lemma utoa_digits_store:
  assumes "2 \<le> unat base"
  shows "utoa_digits fin d base m = Some (Inr (fin + of_nat (length (digits (unat base) (unat d))),
    store fin (rev (numeral_string (unat base) (unat d))) m))"
proof (induction "unat d" arbitrary: fin d m rule: less_induct)
  case less
  let ?b = "unat base" and ?d = "d div base"
  have b0: "base \<noteq> 0" using assms by auto
  have dm: "unat (d div base) = unat d div ?b" "d mod base = of_nat (unat d mod ?b)"
    by (simp_all add: unat_div word_arith_nat_mod)
  show ?case
  proof (cases "unat d < ?b")
    case True
    then have "unat ?d = 0" by (simp add: dm)
    then have "?d = 0" by (simp add: unat_eq_0)
    moreover have "d mod base = d" using True dm(2) by simp
    ultimately show ?thesis using True b0
      by (subst utoa_digits.simps)
        (simp add: Let_def digits.simps [of ?b "unat d"] numeral_string_def store_Cons)
  next
    case False
    let ?m = "m(fin := digit_char (d mod base))" and ?ds = "digits ?b (unat d div ?b)"
    have ne: "?d \<noteq> 0"
    proof
      assume "?d = 0"
      then have "unat d div ?b = 0" using dm(1) by simp
      with False assms show False by (simp add: div_eq_0_iff)
    qed
    have lt: "unat ?d < unat d" using False assms by (simp add: dm)
    have len: "length ?ds < 2 ^ 32"
      using length_digits_32 [of ?b "unat d div ?b"] assms
      by (simp add: less_le_trans le_less_trans [OF div_le_dividend])
    have ds: "digits ?b (unat d) = ?ds @ [unat d mod ?b]"
      using False assms by (subst digits.simps) simp
    have "utoa_digits fin d base m = utoa_digits (fin + 1) ?d base ?m"
      using b0 ne by (subst utoa_digits.simps) (simp add: Let_def)
    also note less [OF lt, of "fin + 1" ?m]
    finally show ?thesis using len
      by (simp add: ds numeral_string_def dm(1) dm(2) [symmetric] store_Cons add.assoc del: fun_upd_apply)
  qed
qed


lemma utoa_reverse_store:
  assumes "unat b + length xs \<le> 2 ^ 32" and "xs \<noteq> [] \<or> b \<noteq> 0"
  shows "utoa_reverse b (b + of_nat (length xs) - 1) (store b xs m) = store b (rev xs) m"
  using assms
proof (induction "length xs" arbitrary: xs b m rule: less_induct)
  case less
  consider "xs = []" | x where "xs = [x]" | x ys y where "xs = x # ys @ [y]"
    by (metis neq_Nil_conv rev_exhaust)
  then show ?case
  proof cases
    case 1
    with less.prems have "b \<noteq> 0" by simp
    then have "\<not> b < b - 1" using word_offset_pred [of b] by (simp add: word_less_nat_alt)
    with 1 show ?thesis by (subst utoa_reverse.simps) simp
  next
    case 2
    then show ?thesis by (subst utoa_reverse.simps) simp
  next
    case (3 x ys y)
    let ?n = "length ys" and ?e = "b + of_nat (length xs) - 1"
    have n: "unat b + ?n + 2 \<le> 2 ^ 32" using less.prems 3 by simp
    have e: "?e = b + of_nat (Suc ?n)" using 3 by simp
    have ue: "unat ?e = unat b + Suc ?n" unfolding e
      using n by (subst unat_plus_no_wrap) (simp_all add: unat_of_nat_less del: of_nat_Suc)
    have lt: "b < ?e" by (simp add: word_less_nat_alt ue)
    have b1: "unat (b + 1) = unat b + 1" using n by (subst unat_plus_no_wrap) simp_all
    let ?m = "store b xs m"
    have reads: "?m b = x" "?m ?e = y"
      unfolding e using n 3 by (auto simp: store_def nth_append unat_of_nat_less simp del: of_nat_Suc)
    have "(?m(b := y))(?e := x) = store b (y # ys @ [x]) m"
    proof -
      have "?m(b := y) = store b (y # ys @ [y]) m"
        using store_update [of 0 xs b m y] n 3 by simp
      moreover have "(store b (y # ys @ [y]) m)(?e := x) = store b (y # ys @ [x]) m"
        unfolding e using store_update [of "Suc ?n" "y # ys @ [y]" b m x] n by (simp del: of_nat_Suc)
      ultimately show ?thesis by simp
    qed
    also have "\<dots> = (store (b + 1) ys (m(b := y)))(b + 1 + of_nat ?n := x)"
      using n by (subst store_snoc) (simp_all add: store_Cons)
    also have "\<dots> = store (b + 1) ys ((m(b := y))(b + 1 + of_nat ?n := x))"
      using n by (intro store_outside) (simp add: unat_of_nat_less)
    finally have m2: "(?m(b := y))(?e := x) = store (b + 1) ys ((m(b := y))(?e := x))" (is "_ = store _ _ ?m2")
      using e by (simp add: ac_simps)
    have "utoa_reverse b ?e ?m = utoa_reverse (b + 1) (b + 1 + of_nat ?n - 1) (store (b + 1) ys ?m2)"
      using lt reads m2 by (subst utoa_reverse.simps) (simp add: Let_def 3)
    also have "\<dots> = store (b + 1) (rev ys) ?m2"
      using less.hyps [of ys "b + 1" ?m2] n b1 3 by (simp add: unat_gt_0 [symmetric])
    also have "\<dots> = (store (b + 1) (rev ys) (m(b := y)))(b + 1 + of_nat ?n := x)"
      using n e by (subst store_outside [of "rev ys"]) (simp_all add: unat_of_nat_less ac_simps)
    also have "\<dots> = store b (rev xs) m"
      using store_snoc [of "rev ys" "b + 1" "m(b := y)" x] n 3 by (simp add: store_Cons)
    finally show ?thesis .
  qed
qed

lemma length_numeral_string: "length (numeral_string b n) = length (digits b n)"
  by (simp add: numeral_string_def)

lemma digits_nonempty [simp]: "digits b n \<noteq> []"
  by (subst digits.simps) simp

lemma utoa_store:
  assumes "2 \<le> unat base" and "unat buf + 33 \<le> 2 ^ 32"
  shows "utoa buf d base m = Some (Inr (store buf (numeral_string (unat base) (unat d) @ [0]) m))"
proof -
  let ?s = "numeral_string (unat base) (unat d)"
  have len: "length ?s \<le> 32" "?s \<noteq> []"
    using length_digits_32 [OF assms(1), of "unat d"] by (simp_all add: numeral_string_def)
  have "(store buf (rev ?s) m)(buf + of_nat (length ?s) := 0) =
      store buf (rev ?s) (m(buf + of_nat (length ?s) := 0))"
    using len by (intro store_outside) (simp add: unat_of_nat_less)
  moreover have "utoa_reverse buf (buf + of_nat (length ?s) - 1) (store buf (rev ?s) m') = store buf ?s m'" for m'
    using utoa_reverse_store [of buf "rev ?s" m'] assms(2) len by simp
  moreover have "store buf ?s (m(buf + of_nat (length ?s) := 0)) = store buf (?s @ [0]) m"
    using len store_snoc [of ?s buf m 0] by (simp add: store_outside unat_of_nat_less)
  ultimately show ?thesis
    by (simp add: utoa_def utoa_digits_store [OF assms(1)] length_numeral_string)
qed

lemma uint_lt_2p32: "0 \<le> uint (d :: u32)" "uint (d :: u32) < 4294967296"
  using uint_lt2p [of d] by simp_all

lemma sint_u32: "sint (d :: u32) = (if uint d < 2 ^ 31 then uint d else uint d - 2 ^ 32)"
proof -
  have "sint d = (uint d + 2 ^ 31) mod 2 ^ 32 - 2 ^ 31"
    by (simp add: sint_uint signed_take_bit_eq_take_bit_shift take_bit_eq_mod)
  moreover have "(uint d + 2 ^ 31) mod 2 ^ 32 = (if uint d < 2 ^ 31 then uint d + 2 ^ 31 else uint d - 2 ^ 31)"
    using uint_lt_2p32 [of d] mod_add_self2 [of "uint d - 2 ^ 31" "2 ^ 32"]
    by (auto simp: mod_pos_pos_trivial add.commute)
  ultimately show ?thesis by simp
qed

lemma itoa_store:
  assumes "unat buf + 34 \<le> 2 ^ 32"
  shows "itoa buf d 10 m = Some (Inr (store buf ((if d <s 0 then [45] else []) @
    numeral_string 10 (nat \<bar>sint d\<bar>) @ [0]) m))"
proof (cases "d <s 0")
  case False
  then have "nat \<bar>sint d\<bar> = unat d" using uint_lt_2p32 [of d]
    by (auto simp: word_sless_alt sint_u32 split: if_splits)
  then show ?thesis using utoa_store [of 10 buf d m] False assms by (simp add: itoa_def)
next
  case True
  then have d0: "d \<noteq> 0" by auto
  have "sint d = uint d - 2 ^ 32" using True uint_lt_2p32 [of d] by (auto simp: word_sless_alt sint_u32 split: if_splits)
  moreover have "unat (- d) = 2 ^ 32 - unat d"
    using unat_sub_if' [of 0 d] d0 by (simp add: unat_eq_0)
  ultimately have n: "nat \<bar>sint d\<bar> = unat (- d)"
    using uint_lt_2p32 [of d] by (simp add: nat_diff_distrib)
  have "unat buf + unat (1 :: u32) < 2 ^ LENGTH(32)" using assms by simp
  from unat_plus_no_wrap [OF this] have "unat (buf + 1) + 33 \<le> 2 ^ 32" using assms by simp
  then have "utoa (buf + 1) (- d) 10 (m(buf := 45)) =
      Some (Inr (store (buf + 1) (numeral_string 10 (unat (- d)) @ [0]) (m(buf := 45))))"
    using utoa_store [of 10 "buf + 1" "- d"] by simp
  moreover have "length (numeral_string 10 (unat (- d)) @ [0]) < 2 ^ 32"
    using length_digits_32 [of 10 "unat (- d)"] by (simp add: numeral_string_def)
  ultimately show ?thesis using True by (simp add: itoa_def n store_Cons)
qed

subsection \<open>Properties\<close>

text \<open>
  C34: for a base from 2 to 36 and a buffer that does not run over the end of the address space,
  \<open>utoa\<close> returns; the buffer holds a zero-terminated string that reads back, in that base, as the
  number; the string has at most 32 characters, at most 10 from base 10 on (so the 20 bytes of
  \<open>printf\<close> are enough), and no byte behind its end is written.
\<close>

theorem utoa_reads_back:
  assumes "2 \<le> unat base" and "unat base \<le> 36" and "unat buf + 33 \<le> 2 ^ 32"
  shows "\<exists>m' s. utoa buf d base m = Some (Inr m') \<and> string_at m' buf s \<and>
    number_of (unat base) s = unat d \<and> length s \<le> 32 \<and> (10 \<le> unat base \<longrightarrow> length s \<le> 10) \<and>
    (\<forall>z. length s < unat (z - buf) \<longrightarrow> m' z = m z)"
proof -
  let ?s = "numeral_string (unat base) (unat d)"
  have len: "length ?s \<le> 32"
    using length_digits_32 [OF assms(1), of "unat d"] by (simp add: numeral_string_def)
  have "length ?s \<le> 10" if "10 \<le> unat base"
  proof -
    have "(10 :: nat) ^ 10 \<le> unat base ^ 10" using that by (rule power_mono) simp
    then have "unat d < unat base ^ 10" using unat_lt_2p32 [of d] by (simp del: unat_lt_2p32)
    then show ?thesis using assms(1) by (simp add: length_numeral_string length_digits)
  qed
  moreover have "store buf (?s @ [0]) m z = m z" if "length ?s < unat (z - buf)" for z
    using that by (simp add: store_other)
  moreover have "string_at (store buf (?s @ [0]) m) buf ?s"
    using len numeral_string_nonzero [OF assms(1,2)] by (intro string_at_store) simp_all
  ultimately show ?thesis
    using utoa_store [OF assms(1,3), of d m] number_of_numeral_string [OF assms(1,2)] len by blast
qed

theorem utoa_reads_back_witness:
  "\<exists>m' s. utoa 0x1000 48879 16 (\<lambda>_. 0xFF) = Some (Inr m') \<and> string_at m' 0x1000 s \<and>
    number_of 16 s = 48879 \<and> length s \<le> 10"
proof -
  have "2 \<le> unat (16 :: u32)" "unat (16 :: u32) \<le> 36" "unat (0x1000 :: u32) + 33 \<le> 2 ^ 32" by simp_all
  from utoa_reads_back [OF this, of 48879 "\<lambda>_. 0xFF"] show ?thesis by auto
qed

lemma memcmp_find:
  assumes "unat l + unat n < 2 ^ 32"
  shows "memcmp l r n m = (case find (\<lambda>i. m (l + of_nat i) \<noteq> m (r + of_nat i)) [0..<unat n] of
    None \<Rightarrow> 0 | Some i \<Rightarrow> sint (m (l + of_nat i)) - sint (m (r + of_nat i)))"
proof -
  have "unat (l + n) = unat l + unat n" using assms by (subst unat_plus_no_wrap) simp_all
  then have "l \<le> l + n" by (simp add: word_le_nat_alt)
  from memcmp_loop_find [OF this, of r m] show ?thesis by (simp add: memcmp_def)
qed

lemma memcmp_first_difference:
  assumes "unat l + unat n < 2 ^ 32" and "i < unat n" and "m (l + of_nat i) \<noteq> m (r + of_nat i)"
    and "\<forall>j < i. m (l + of_nat j) = m (r + of_nat j)"
  shows "memcmp l r n m = sint (m (l + of_nat i)) - sint (m (r + of_nat i))"
proof -
  have "find (\<lambda>i. m (l + of_nat i) \<noteq> m (r + of_nat i)) [0..<unat n] = Some i"
    using assms(2-4) by (subst find_Some_iff) (intro exI [of _ i], simp)
  then show ?thesis by (simp add: memcmp_find [OF assms(1)])
qed

lemma memcmp_eq_0_iff:
  assumes "unat l + unat n < 2 ^ 32"
  shows "memcmp l r n m = 0 \<longleftrightarrow> (\<forall>i < unat n. m (l + of_nat i) = m (r + of_nat i))"
proof
  assume eq: "memcmp l r n m = 0"
  show "\<forall>i < unat n. m (l + of_nat i) = m (r + of_nat i)"
  proof (cases "find (\<lambda>i. m (l + of_nat i) \<noteq> m (r + of_nat i)) [0..<unat n]")
    case None
    then show ?thesis by (simp add: find_None_iff)
  next
    case (Some i)
    then have ne: "m (l + of_nat i) \<noteq> m (r + of_nat i)" by (auto simp: find_Some_iff)
    from eq Some have "sint (m (l + of_nat i)) = sint (m (r + of_nat i))"
      by (simp add: memcmp_find [OF assms])
    with ne show ?thesis by (simp add: signed_word_eqI)
  qed
next
  assume "\<forall>i < unat n. m (l + of_nat i) = m (r + of_nat i)"
  then have "find (\<lambda>i. m (l + of_nat i) \<noteq> m (r + of_nat i)) [0..<unat n] = None"
    by (simp add: find_None_iff)
  then show "memcmp l r n m = 0" by (simp add: memcmp_find [OF assms])
qed

lemma apart_offset:
  assumes "n \<le> a - b" and "n \<le> b - a" and "i < unat n"
  shows "\<not> b + of_nat i - a < (n :: u32)"
proof -
  let ?k = "b - a"
  have "?k \<noteq> 0" using assms by auto
  then have "unat (- ?k) = 2 ^ 32 - unat ?k" using unat_sub_if' [of 0 ?k] by (simp add: unat_eq_0)
  then have "unat n + unat ?k \<le> 2 ^ 32"
    using assms(1) unat_lt_2p32 [of ?k] by (simp add: word_le_nat_alt del: unat_lt_2p32)
  then have le: "unat ?k + i < 2 ^ 32" using assms(3) by simp
  then have "unat (?k + of_nat i) = unat ?k + i"
    by (subst unat_plus_no_wrap) (simp_all add: unat_of_nat_less)
  then have "\<not> ?k + of_nat i < n" using assms(2) by (simp add: word_less_nat_alt word_le_nat_alt)
  then show ?thesis by (simp add: algebra_simps)
qed

text \<open>
  \<open>memcmp\<close> returns 0 exactly when the two areas hold the same bytes, and otherwise the
  difference of the first bytes that differ, read as signed characters; \<open>memcpy\<close> between two areas
  that do not overlap leaves at the destination the bytes the source held and changes no other
  byte, so that the two areas compare as equal.
\<close>

lemma memcpy_memcmp:
  assumes "n \<le> dst - src" and "n \<le> src - dst" and "unat dst + unat n < 2 ^ 32"
  shows "memcpy dst src n m = (\<lambda>z. if z - dst < n then m (src + (z - dst)) else m z) \<and>
    memcmp dst src n (memcpy dst src n m) = 0 \<and>
    (memcmp dst src n m = 0 \<longleftrightarrow> (\<forall>i < unat n. m (dst + of_nat i) = m (src + of_nat i))) \<and>
    (\<forall>i < unat n. (\<forall>j < i. m (dst + of_nat j) = m (src + of_nat j)) \<longrightarrow>
      m (dst + of_nat i) \<noteq> m (src + of_nat i) \<longrightarrow>
      memcmp dst src n m = sint (m (dst + of_nat i)) - sint (m (src + of_nat i)))"
proof (intro conjI)
  show copy: "memcpy dst src n m = (\<lambda>z. if z - dst < n then m (src + (z - dst)) else m z)"
    using memcpy_store [of dst src n m] assms(1)
    by (auto simp: store_def word_less_nat_alt fun_eq_iff)
  have "memcpy dst src n m (dst + of_nat i) = memcpy dst src n m (src + of_nat i)" if "i < unat n" for i
  proof -
    have "unat (of_nat i :: u32) = i" using that unat_lt_2p32 [of n]
      by (intro unat_of_nat_less) (simp del: unat_lt_2p32)
    then show ?thesis using apart_offset [OF assms(1,2) that] that
      by (simp add: copy word_less_nat_alt)
  qed
  then show "memcmp dst src n (memcpy dst src n m) = 0"
    by (simp add: memcmp_eq_0_iff [OF assms(3)])
  show "memcmp dst src n m = 0 \<longleftrightarrow> (\<forall>i < unat n. m (dst + of_nat i) = m (src + of_nat i))"
    by (rule memcmp_eq_0_iff [OF assms(3)])
  show "\<forall>i < unat n. (\<forall>j < i. m (dst + of_nat j) = m (src + of_nat j)) \<longrightarrow>
      m (dst + of_nat i) \<noteq> m (src + of_nat i) \<longrightarrow>
      memcmp dst src n m = sint (m (dst + of_nat i)) - sint (m (src + of_nat i))"
    using memcmp_first_difference [OF assms(3)] by blast
qed

lemma memcpy_memcmp_witness:
  "memcmp 0x2000 0x1000 4 (memcpy 0x2000 0x1000 4 (\<lambda>z. ucast z)) = 0"
proof -
  have "(4 :: u32) \<le> 0x2000 - 0x1000" "(4 :: u32) \<le> 0x1000 - 0x2000"
    "unat (0x2000 :: u32) + unat (4 :: u32) < 2 ^ 32" by simp_all
  from memcpy_memcmp [OF this, of "\<lambda>z. ucast z"] show ?thesis by blast
qed

end
