(* ===== verification/Ports.thy ===== *)
theory Ports
  imports Prelude
begin

text \<open>
  \<open>kernel/arch/x86/ioport.c\<close>: the six accessors of the I/O ports, one \<open>in\<close> or \<open>out\<close> instruction
  each. The devices behind the ports are not code: they are a function that answers a read from
  everything that was read and written before, and the log keeps all accesses, the latest first.
\<close>

datatype port_event =
    Out8 u16 u8 | In8 u16 | Out16 u16 u16 | In16 u16 | Out32 u16 u32 | In32 u16

record ports =
  pt_log :: "port_event list"
  pt_device :: "port_event list \<Rightarrow> u16 \<Rightarrow> u32"

definition log_event :: "port_event \<Rightarrow> ports \<Rightarrow> ports" where
  "log_event e w = w\<lparr>pt_log := e # pt_log w\<rparr>"

definition out8 :: "u16 \<Rightarrow> u8 \<Rightarrow> ports \<Rightarrow> ports" where
  "out8 port b w = log_event (Out8 port b) w"

definition in8 :: "u16 \<Rightarrow> ports \<Rightarrow> u8 \<times> ports" where
  "in8 port w = (ucast (pt_device w (pt_log w) port), log_event (In8 port) w)"

definition out16 :: "u16 \<Rightarrow> u16 \<Rightarrow> ports \<Rightarrow> ports" where
  "out16 port v w = log_event (Out16 port v) w"

definition in16 :: "u16 \<Rightarrow> ports \<Rightarrow> u16 \<times> ports" where
  "in16 port w = (ucast (pt_device w (pt_log w) port), log_event (In16 port) w)"

definition out32 :: "u16 \<Rightarrow> u32 \<Rightarrow> ports \<Rightarrow> ports" where
  "out32 port v w = log_event (Out32 port v) w"

definition in32 :: "u16 \<Rightarrow> ports \<Rightarrow> u32 \<times> ports" where
  "in32 port w = (pt_device w (pt_log w) port, log_event (In32 port) w)"

lemmas ports_defs = log_event_def out8_def in8_def out16_def in16_def out32_def in32_def

text \<open>What has been written to a byte port, in the order of the writes.\<close>

fun written :: "u16 \<Rightarrow> port_event list \<Rightarrow> u8 list" where
  "written p [] = []"
| "written p (Out8 q b # es) = (if q = p then written p es @ [b] else written p es)"
| "written p (e # es) = written p es"

lemma written_append: "written p (xs @ ys) = written p ys @ written p xs"
  by (induction p xs rule: written.induct) simp_all

lemma out8_fields [simp]:
  "pt_log (out8 p b w) = Out8 p b # pt_log w" "pt_device (out8 p b w) = pt_device w"
  by (simp_all add: ports_defs)

lemma in8_fields [simp]:
  "fst (in8 p w) = ucast (pt_device w (pt_log w) p)"
  "pt_log (snd (in8 p w)) = In8 p # pt_log w" "pt_device (snd (in8 p w)) = pt_device w"
  by (simp_all add: ports_defs)

end
