(* ===== verification/Console.thy ===== *)
theory Console
  imports Linked_List Kernel Utility Ports
begin

text \<open>
  \<open>kernel/console.c\<close>, \<open>kernel/arch/x86/vga_console.c\<close>, \<open>kernel/arch/x86/serial_console.c\<close> and
  \<open>kernel/io.c\<close>: the list of consoles, the two consoles of the kernel and the formatted output. A
  console is named by its constructor; \<open>console_write\<close> is the call through the \<open>write\<close> pointer of
  its structure. The video memory is a memory of its own, addressed from \<open>VMEM\<close> on.
\<close>

subsection \<open>The list of consoles\<close>

datatype console = Vga_console | Serial_console
datatype console_node = Consoles | Console_link console

definition consoles :: "console_node list_heap \<Rightarrow> console_node list_heap" where
  "consoles h = h\<lparr>lh_next := (lh_next h)(Consoles := Consoles), lh_prev := (lh_prev h)(Consoles := Consoles)\<rparr>"

definition register_console :: "console \<Rightarrow> console_node list_heap \<Rightarrow> console_node list_heap" where
  "register_console k h = list_insert_before Consoles (Console_link k) h"

definition unregister_console :: "console \<Rightarrow> console_node list_heap \<Rightarrow> console_node list_heap" where
  "unregister_console k h = list_remove (Console_link k) h"

subsection \<open>The screen\<close>

record devices =
  dv_video :: memory
  dv_row :: u32
  dv_col :: u32
  dv_ports :: ports

definition ROWS :: u32 where "ROWS = 24"
definition COLS :: u32 where "COLS = 80"
definition ATTR :: u8 where "ATTR = 7"

definition cell_offset :: "devices \<Rightarrow> u32" where
  "cell_offset d = (dv_col d + dv_row d * COLS) * 2"

function newline_loop :: "u32 \<Rightarrow> u32 \<Rightarrow> u32 \<Rightarrow> memory \<Rightarrow> memory" where
  "newline_loop shift i n v =
     (if i \<noteq> n then
        (let v1 = v(shift + i := 0);
             v2 = v1(shift + i + 1 := ATTR)
         in newline_loop shift (i + 1) n v2)
      else v)"
  by pat_completeness auto
termination
  by (relation "measure (\<lambda>(s, i, n, v). unat (n - i))") (auto intro: unat_rest)

declare newline_loop.simps [simp del]

definition newline :: "devices \<Rightarrow> devices" where
  "newline d =
     (let shift = cell_offset d;
          d1 = d\<lparr>dv_video := newline_loop shift 0 (COLS - dv_col d) (dv_video d)\<rparr>;
          d2 = d1\<lparr>dv_col := 0\<rparr>
      in d2\<lparr>dv_row := (dv_row d2 + 1) mod ROWS\<rparr>)"

definition vga_putchar :: "u8 \<Rightarrow> devices \<Rightarrow> devices" where
  "vga_putchar c d =
     (let shift = cell_offset d
      in if c = 10 then newline d
         else
           (let d1 = d\<lparr>dv_video := (dv_video d)(shift := c AND 0xFF)\<rparr>;
                d2 = d1\<lparr>dv_video := (dv_video d1)(shift + 1 := ATTR)\<rparr>;
                d3 = d2\<lparr>dv_col := dv_col d2 + 1\<rparr>
            in if dv_col d3 = COLS then newline d3 else d3))"

definition vga_write :: "u8 list \<Rightarrow> devices \<Rightarrow> devices" where
  "vga_write data d = fold vga_putchar data d"

definition init_vga_console :: "console_node list_heap \<times> devices \<Rightarrow> console_node list_heap \<times> devices" where
  "init_vga_console = (\<lambda>(h, d).
     (register_console Vga_console h, d\<lparr>dv_video := memset 0 0 (ROWS * COLS * 2) (dv_video d)\<rparr>))"

subsection \<open>The serial line\<close>

definition SERIAL_PORT_IO_BASE :: u16 where "SERIAL_PORT_IO_BASE = 0x3F8"
definition REG_DATA :: u16 where "REG_DATA = SERIAL_PORT_IO_BASE"
definition REG_DLL :: u16 where "REG_DLL = SERIAL_PORT_IO_BASE"
definition REG_IER :: u16 where "REG_IER = SERIAL_PORT_IO_BASE + 1"
definition REG_DLH :: u16 where "REG_DLH = SERIAL_PORT_IO_BASE + 1"
definition REG_FCR :: u16 where "REG_FCR = SERIAL_PORT_IO_BASE + 2"
definition REG_LCR :: u16 where "REG_LCR = SERIAL_PORT_IO_BASE + 3"
definition REG_LSR :: u16 where "REG_LSR = SERIAL_PORT_IO_BASE + 5"
definition FCR_EFIFO :: u32 where "FCR_EFIFO = BITU 0"
definition FCR_14BYTES :: u32 where "FCR_14BYTES = BITU 6 OR BITU 7"
definition LCR_8BIT :: u32 where "LCR_8BIT = BITU 0 OR BITU 1"
definition LCR_DLAB :: u32 where "LCR_DLAB = BITU 7"
definition LSR_TX_READY :: u32 where "LSR_TX_READY = BITU 5"

lemmas serial_defs = SERIAL_PORT_IO_BASE_def REG_DATA_def REG_DLL_def REG_IER_def REG_DLH_def
  REG_FCR_def REG_LCR_def REG_LSR_def FCR_EFIFO_def FCR_14BYTES_def LCR_8BIT_def LCR_DLAB_def
  LSR_TX_READY_def BITU_def

partial_function (option) serial_wait :: "ports \<Rightarrow> ports option" where
  "serial_wait w =
     (let (lsr, w1) = in8 REG_LSR w
      in if ucast lsr AND LSR_TX_READY = 0 then serial_wait w1 else Some w1)"

declare serial_wait.simps [code]

definition serial_putchar :: "u8 \<Rightarrow> ports \<Rightarrow> ports option" where
  "serial_putchar c w = map_option (out8 REG_DATA c) (serial_wait w)"

fun serial_write :: "u8 list \<Rightarrow> ports \<Rightarrow> ports option" where
  "serial_write [] w = Some w"
| "serial_write (c # cs) w =
     (case serial_putchar c w of None \<Rightarrow> None | Some w1 \<Rightarrow> serial_write cs w1)"

definition init_polling_mode :: "ports \<Rightarrow> ports" where
  "init_polling_mode w =
     (let w1 = out8 REG_IER 0 w;
          w2 = out8 REG_LCR (ucast LCR_DLAB) w1;
          w3 = out8 REG_DLL 0x0C w2;
          w4 = out8 REG_DLH 0x00 w3;
          w5 = out8 REG_LCR (ucast LCR_8BIT) w4
      in out8 REG_FCR (ucast (FCR_EFIFO OR FCR_14BYTES)) w5)"

definition init_serial_console :: "console_node list_heap \<times> devices \<Rightarrow> console_node list_heap \<times> devices" where
  "init_serial_console = (\<lambda>(h, d).
     (register_console Serial_console h, d\<lparr>dv_ports := init_polling_mode (dv_ports d)\<rparr>))"

subsection \<open>Output to every console\<close>

definition console_write :: "console \<Rightarrow> u8 list \<Rightarrow> devices \<Rightarrow> devices option" where
  "console_write k data d =
     (case k of
        Vga_console \<Rightarrow> Some (vga_write data d)
      | Serial_console \<Rightarrow> map_option (\<lambda>w. d\<lparr>dv_ports := w\<rparr>) (serial_write data (dv_ports d)))"

partial_function (option) putchar_loop ::
  "console_node list_heap \<Rightarrow> console_node \<Rightarrow> u8 \<Rightarrow> devices \<Rightarrow> devices option" where
  "putchar_loop h it ch d =
     (case it of
        Consoles \<Rightarrow> Some d
      | Console_link k \<Rightarrow>
          (case console_write k [ch] d of
             None \<Rightarrow> None
           | Some d1 \<Rightarrow> putchar_loop h (lh_next h it) ch d1))"

declare putchar_loop.simps [code]

definition putchar :: "console_node list_heap \<Rightarrow> u32 \<Rightarrow> devices \<Rightarrow> devices option" where
  "putchar h c d = putchar_loop h (lh_next h Consoles) (ucast c) d"

partial_function (option) puts_no_newline ::
  "console_node list_heap \<Rightarrow> u32 \<Rightarrow> memory \<Rightarrow> devices \<Rightarrow> devices option" where
  "puts_no_newline h asciz m d =
     (if m asciz \<noteq> 0 then
        (case putchar h (scast (m asciz)) d of
           None \<Rightarrow> None
         | Some d1 \<Rightarrow> puts_no_newline h (asciz + 1) m d1)
      else Some d)"

declare puts_no_newline.simps [code]

definition puts :: "console_node list_heap \<Rightarrow> u32 \<Rightarrow> memory \<Rightarrow> devices \<Rightarrow> devices option" where
  "puts h asciz m d =
     (case puts_no_newline h asciz m d of None \<Rightarrow> None | Some d1 \<Rightarrow> putchar h 10 d1)"

text \<open>
  One directive of \<open>printf\<close>, \<open>c\<close> being the character behind the percent sign; \<open>buffer\<close> is the address
  of the local array. An argument that was not passed is a wild access.
\<close>

definition print_number ::
  "console_node list_heap \<Rightarrow> u32 \<Rightarrow> memory outcome option \<Rightarrow> devices \<Rightarrow> (memory \<times> devices) outcome option" where
  "print_number h buffer r d =
     (case r of
        None \<Rightarrow> None
      | Some (Inl e) \<Rightarrow> Some (Inl e)
      | Some (Inr m1) \<Rightarrow> map_option (\<lambda>d1. Inr (m1, d1)) (puts_no_newline h buffer m1 d))"

definition printf_directive ::
  "console_node list_heap \<Rightarrow> u32 \<Rightarrow> u32 \<Rightarrow> u32 list \<Rightarrow> memory \<Rightarrow> devices \<Rightarrow>
     (u32 list \<times> memory \<times> devices) outcome option" where
  "printf_directive h buffer c args m d =
     (if c \<in> {117, 120, 100, 115, 99} then
        (case args of
           [] \<Rightarrow> Some (Inl Wild)
         | value # rest \<Rightarrow>
             map_option (map_sum id (Pair rest))
               (if c = 117 \<or> c = 120 then
                  print_number h buffer (utoa buffer value (if c = 120 then 16 else 10) m) d
                else if c = 100 then
                  print_number h buffer (itoa buffer value (if c = 120 then 16 else 10) m) d
                else if c = 115 then map_option (\<lambda>d1. Inr (m, d1)) (puts_no_newline h value m d)
                else map_option (\<lambda>d1. Inr (m, d1)) (putchar h value d)))
      else map_option (\<lambda>d1. Inr (args, m, d1)) (putchar h c d))"

partial_function (option) printf ::
  "console_node list_heap \<Rightarrow> u32 \<Rightarrow> u32 \<Rightarrow> u32 list \<Rightarrow> memory \<Rightarrow> devices \<Rightarrow>
     (memory \<times> devices) outcome option" where
  "printf h buffer fmt args m d =
     (let c = scast (m fmt) :: u32
      in if c = 0 then Some (Inr (m, d))
         else if c \<noteq> 37 then
           (case putchar h c d of
              None \<Rightarrow> None
            | Some d1 \<Rightarrow> printf h buffer (fmt + 1) args m d1)
         else
           (case printf_directive h buffer (scast (m (fmt + 1))) args m d of
              None \<Rightarrow> None
            | Some (Inl e) \<Rightarrow> Some (Inl e)
            | Some (Inr (args1, m1, d1)) \<Rightarrow> printf h buffer (fmt + 2) args1 m1 d1))"

declare printf.simps [code]


subsection \<open>The text goes to every console\<close>

fun broadcast :: "console list \<Rightarrow> u8 \<Rightarrow> devices \<Rightarrow> devices option" where
  "broadcast [] ch d = Some d"
| "broadcast (k # ks) ch d =
     (case console_write k [ch] d of None \<Rightarrow> None | Some d1 \<Rightarrow> broadcast ks ch d1)"

fun emit :: "console list \<Rightarrow> u8 list \<Rightarrow> devices \<Rightarrow> devices option" where
  "emit ks [] d = Some d"
| "emit ks (c # cs) d = (case broadcast ks c d of None \<Rightarrow> None | Some d1 \<Rightarrow> emit ks cs d1)"

definition registered :: "console_node list_heap \<Rightarrow> console list \<Rightarrow> bool" where
  "registered h ks \<longleftrightarrow> list_rep h Consoles (map Console_link ks)"

lemma putchar_loop_broadcast:
  "dlseg h p (map Console_link ks) Consoles \<Longrightarrow> putchar_loop h (lh_next h p) ch d = broadcast ks ch d"
proof (induction ks arbitrary: p d)
  case Nil
  then have "lh_next h p = Consoles" by simp
  then show ?case by (subst putchar_loop.simps) simp
next
  case (Cons k ks)
  then have "lh_next h p = Console_link k" and "dlseg h (Console_link k) (map Console_link ks) Consoles"
    by simp_all
  with Cons.IH show ?case by (subst putchar_loop.simps) (simp split: option.split)
qed

lemma ucast_scast [simp]: "ucast (scast (c :: u8) :: u32) = c"
  by (rule bit_word_eqI) (auto simp: bit_simps)

lemma scast_eqD: "(scast (c :: u8) :: u32) = w \<Longrightarrow> c = ucast w"
  by auto

lemma putchar_broadcast:
  "registered h ks \<Longrightarrow> putchar h c d = broadcast ks (ucast c) d"
  by (simp add: putchar_def registered_def list_rep_def putchar_loop_broadcast)

lemma puts_no_newline_emit:
  assumes "registered h ks"
  shows "string_at m a s \<Longrightarrow> puts_no_newline h a m d = emit ks s d"
proof (induction s arbitrary: a d)
  case Nil
  then show ?case by (subst puts_no_newline.simps) simp
next
  case (Cons c s)
  then have "m a = c" "c \<noteq> 0" "string_at m (a + 1) s" by (simp_all add: string_at_Cons)
  with Cons.IH show ?case
    by (subst puts_no_newline.simps) (simp add: putchar_broadcast [OF assms] split: option.split)
qed

lemma emit_append:
  "emit ks (s @ t) d = (case emit ks s d of None \<Rightarrow> None | Some d1 \<Rightarrow> emit ks t d1)"
  by (induction s arbitrary: d) (auto split: option.split)

lemma puts_emit:
  "registered h ks \<Longrightarrow> string_at m a s \<Longrightarrow> puts h a m d = emit ks (s @ [10]) d"
  by (simp add: puts_def puts_no_newline_emit putchar_broadcast emit_append split: option.split)

subsection \<open>What \<open>printf\<close> prints\<close>

text \<open>
  \<open>prints m buffer fs args out\<close>: the format \<open>fs\<close> with the arguments \<open>args\<close> stands for the text \<open>out\<close>,
  the strings being read from the memory \<open>m\<close> outside the 20 bytes of the buffer. A format that ends
  in a percent sign stands for nothing.
\<close>

definition apart :: "u32 \<Rightarrow> u32 \<Rightarrow> u8 list \<Rightarrow> bool" where
  "apart buffer a s \<longleftrightarrow> (\<forall>i \<le> length s. 20 \<le> unat (a + of_nat i - buffer))"

inductive prints :: "memory \<Rightarrow> u32 \<Rightarrow> u8 list \<Rightarrow> u32 list \<Rightarrow> u8 list \<Rightarrow> bool" for m buffer where
  prints_end: "prints m buffer [] args []"
| prints_char: "\<lbrakk>c \<noteq> 37; prints m buffer fs args out\<rbrakk> \<Longrightarrow> prints m buffer (c # fs) args (c # out)"
| prints_unsigned: "prints m buffer fs args out \<Longrightarrow>
    prints m buffer (37 # 117 # fs) (v # args) (numeral_string 10 (unat v) @ out)"
| prints_hex: "prints m buffer fs args out \<Longrightarrow>
    prints m buffer (37 # 120 # fs) (v # args) (numeral_string 16 (unat v) @ out)"
| prints_decimal: "prints m buffer fs args out \<Longrightarrow>
    prints m buffer (37 # 100 # fs) (v # args)
      ((if v <s 0 then [45] else []) @ numeral_string 10 (nat \<bar>sint v\<bar>) @ out)"
| prints_string: "\<lbrakk>string_at m a s; apart buffer a s; prints m buffer fs args out\<rbrakk> \<Longrightarrow>
    prints m buffer (37 # 115 # fs) (a # args) (s @ out)"
| prints_letter: "prints m buffer fs args out \<Longrightarrow>
    prints m buffer (37 # 99 # fs) (v # args) (ucast v # out)"
| prints_other: "\<lbrakk>c \<notin> {117, 120, 100, 115, 99}; prints m buffer fs args out\<rbrakk> \<Longrightarrow>
    prints m buffer (37 # c # fs) args (c # out)"

definition same_outside :: "u32 \<Rightarrow> memory \<Rightarrow> memory \<Rightarrow> bool" where
  "same_outside buffer m m' \<longleftrightarrow> (\<forall>z. 20 \<le> unat (z - buffer) \<longrightarrow> m' z = m z)"

lemma same_outside_refl [simp]: "same_outside buffer m m"
  by (simp add: same_outside_def)

lemma same_outside_trans: "same_outside b m m1 \<Longrightarrow> same_outside b m1 m2 \<Longrightarrow> same_outside b m m2"
  by (simp add: same_outside_def)

lemma string_at_outside:
  "\<lbrakk>string_at m a s; apart buffer a s; same_outside buffer m m'\<rbrakk> \<Longrightarrow> string_at m' a s"
  by (rule string_at_frame) (simp_all add: apart_def same_outside_def)

lemma apart_tail: "apart buffer a (c # s) \<Longrightarrow> apart buffer (a + 1) s"
  unfolding apart_def
proof (intro allI impI)
  fix i assume *: "\<forall>i \<le> length (c # s). 20 \<le> unat (a + of_nat i - buffer)" and "i \<le> length s"
  then have "20 \<le> unat (a + of_nat (Suc i) - buffer)" by (auto simp del: of_nat_Suc)
  moreover have "a + of_nat (Suc i) = a + 1 + of_nat i" by simp
  ultimately show "20 \<le> unat (a + 1 + of_nat i - buffer)" by (simp only:)
qed

lemma store_same_outside: "length xs \<le> 20 \<Longrightarrow> same_outside buffer m (store buffer xs m)"
  by (simp add: same_outside_def store_other)

lemma numeral_string_facts:
  assumes "10 \<le> b" and "b \<le> 36" and "v < 2 ^ 32"
  shows "0 \<notin> set (numeral_string b v)" and "length (numeral_string b v) \<le> 10"
proof -
  show "0 \<notin> set (numeral_string b v)" using assms by (intro numeral_string_nonzero) simp_all
  have "(10 :: nat) ^ 10 \<le> b ^ 10" using assms(1) by (rule power_mono) simp
  then have "v < b ^ 10" using assms(3) by simp
  then show "length (numeral_string b v) \<le> 10"
    using assms by (simp add: length_numeral_string length_digits)
qed

lemma print_number_emit:
  assumes "registered h ks" and "0 \<notin> set s" and "length s < 20"
  shows "print_number h buffer (Some (Inr (store buffer (s @ [0]) m))) d =
    map_option (\<lambda>d1. Inr (store buffer (s @ [0]) m, d1)) (emit ks s d)"
proof -
  have "string_at (store buffer (s @ [0]) m) buffer s" using assms(2,3) by (intro string_at_store) simp_all
  then show ?thesis by (simp add: print_number_def puts_no_newline_emit [OF assms(1)])
qed


lemma nat_abs_sint_lt: "nat \<bar>sint (v :: u32)\<bar> < 2 ^ 32"
  using uint_lt_2p32 [of v] by (auto simp: sint_u32)

lemma directive_number:
  assumes "registered h ks" and "unat buffer + 34 \<le> 2 ^ 32"
  shows "c = 117 \<or> c = 120 \<Longrightarrow> \<exists>m1. same_outside buffer m m1 \<and>
      (\<forall>d. printf_directive h buffer c (v # args) m d = map_option (\<lambda>d1. Inr (args, m1, d1))
        (emit ks (numeral_string (if c = 120 then 16 else 10) (unat v)) d))"
    and "\<exists>m1. same_outside buffer m m1 \<and>
      (\<forall>d. printf_directive h buffer 100 (v # args) m d = map_option (\<lambda>d1. Inr (args, m1, d1))
        (emit ks ((if v <s 0 then [45] else []) @ numeral_string 10 (nat \<bar>sint v\<bar>)) d))"
proof -
  assume c: "c = 117 \<or> c = 120"
  let ?b = "if c = 120 then 16 else 10 :: u32"
  let ?s = "numeral_string (if c = 120 then 16 else 10) (unat v)"
  have s: "0 \<notin> set ?s" "length ?s \<le> 10" by (rule numeral_string_facts; simp)+
  have "utoa buffer v ?b m = Some (Inr (store buffer (?s @ [0]) m))"
    using utoa_store [of ?b buffer v m] assms(2) by auto
  then show "\<exists>m1. same_outside buffer m m1 \<and>
      (\<forall>d. printf_directive h buffer c (v # args) m d = map_option (\<lambda>d1. Inr (args, m1, d1)) (emit ks ?s d))"
    using c s print_number_emit [OF assms(1), of ?s buffer m]
    by (intro exI [of _ "store buffer (?s @ [0]) m"])
      (auto simp: printf_directive_def option.map_comp o_def store_same_outside)
next
  let ?s = "(if v <s 0 then [45] else []) @ numeral_string 10 (nat \<bar>sint v\<bar>)"
  have s: "0 \<notin> set ?s" "length ?s \<le> 11"
    using numeral_string_facts [of 10 "nat \<bar>sint v\<bar>"] nat_abs_sint_lt [of v] by auto
  have "itoa buffer v 10 m = Some (Inr (store buffer (?s @ [0]) m))"
    using itoa_store [OF assms(2), of v m] by simp
  then show "\<exists>m1. same_outside buffer m m1 \<and>
      (\<forall>d. printf_directive h buffer 100 (v # args) m d = map_option (\<lambda>d1. Inr (args, m1, d1)) (emit ks ?s d))"
    using s print_number_emit [OF assms(1), of ?s buffer m]
    by (intro exI [of _ "store buffer (?s @ [0]) m"])
      (simp add: printf_directive_def option.map_comp o_def store_same_outside)
qed

lemma printf_directive_step:
  assumes "string_at m fmt (37 # c # fs)"
    and "printf_directive h buffer (scast c) args m d = map_option (\<lambda>d1. Inr (args1, m1, d1)) (emit ks s d)"
    and "\<And>d1. printf h buffer (fmt + 2) args1 m1 d1 = map_option (\<lambda>d2. Inr (m2, d2)) (emit ks out d1)"
  shows "printf h buffer fmt args m d = map_option (\<lambda>d2. Inr (m2, d2)) (emit ks (s @ out) d)"
proof -
  have "m fmt = 37" "m (fmt + 1) = c" using assms(1) by (simp_all add: string_at_Cons)
  moreover have "(scast (37 :: u8) :: u32) = 37" by simp
  ultimately show ?thesis
    by (subst printf.simps) (simp add: assms(2,3) emit_append Let_def split: option.split)
qed

lemma printf_directive_case:
  assumes "\<exists>m1. same_outside buffer m m1 \<and> (\<forall>d. printf_directive h buffer (scast c) args m d =
      map_option (\<lambda>d1. Inr (args1, m1, d1)) (emit ks s d))"
    and "\<And>fmt m. \<lbrakk>same_outside buffer m0 m; string_at m fmt fs; apart buffer fmt fs\<rbrakk> \<Longrightarrow>
      \<exists>m2. same_outside buffer m m2 \<and>
        (\<forall>d. printf h buffer fmt args1 m d = map_option (\<lambda>d2. Inr (m2, d2)) (emit ks out d))"
    and "same_outside buffer m0 m" and "string_at m fmt (37 # c # fs)" and "apart buffer fmt (37 # c # fs)"
  shows "\<exists>m2. same_outside buffer m m2 \<and>
    (\<forall>d. printf h buffer fmt args m d = map_option (\<lambda>d2. Inr (m2, d2)) (emit ks (s @ out) d))"
proof -
  obtain m1 where m1: "same_outside buffer m m1" "\<And>d. printf_directive h buffer (scast c) args m d =
      map_option (\<lambda>d1. Inr (args1, m1, d1)) (emit ks s d)"
    using assms(1) by blast
  have tail: "string_at m (fmt + 1 + 1) fs" "apart buffer (fmt + 1 + 1) fs"
    using assms(4) apart_tail [OF apart_tail [OF assms(5)]] by (simp_all add: string_at_Cons)
  have "string_at m1 (fmt + 1 + 1) fs" by (rule string_at_outside [OF tail m1(1)])
  from assms(2) [OF same_outside_trans [OF assms(3) m1(1)] this tail(2)]
  obtain m2 where m2: "same_outside buffer m1 m2"
    "\<And>d. printf h buffer (fmt + 2) args1 m1 d = map_option (\<lambda>d2. Inr (m2, d2)) (emit ks out d)"
    by (auto simp: add.assoc)
  have "printf h buffer fmt args m d = map_option (\<lambda>d2. Inr (m2, d2)) (emit ks (s @ out) d)" for d
    by (rule printf_directive_step [OF assms(4) m1(2) m2(2)])
  with same_outside_trans [OF m1(1) m2(1)] show ?thesis by blast
qed

lemma printf_emit:
  assumes "prints m0 buffer fs args out" and "registered h ks" and "unat buffer + 34 \<le> 2 ^ 32"
    and "same_outside buffer m0 m" and "string_at m fmt fs" and "apart buffer fmt fs"
  shows "\<exists>m2. same_outside buffer m m2 \<and>
    (\<forall>d. printf h buffer fmt args m d = map_option (\<lambda>d2. Inr (m2, d2)) (emit ks out d))"
  using assms(1,4-6)
proof (induction arbitrary: fmt m rule: prints.induct)
  case (prints_end args)
  then show ?case by (intro exI [of _ m] conjI allI; (subst printf.simps)?) simp_all
next
  case (prints_char c fs args out)
  then have c: "m fmt = c" "c \<noteq> 0" "string_at m (fmt + 1) fs" by (simp_all add: string_at_Cons)
  obtain m2 where m2: "same_outside buffer m m2"
    "\<And>d. printf h buffer (fmt + 1) args m d = map_option (\<lambda>d2. Inr (m2, d2)) (emit ks out d)"
    using prints_char.IH [OF prints_char.prems(1) c(3) apart_tail [OF prints_char.prems(3)]] by blast
  have "scast c \<noteq> (0 :: u32)" "scast c \<noteq> (37 :: u32)"
    using scast_eqD [of c 0] scast_eqD [of c 37] c(2) prints_char.hyps(1) by auto
  then have "printf h buffer fmt args m d = map_option (\<lambda>d2. Inr (m2, d2)) (emit ks (c # out) d)" for d
    by (subst printf.simps)
      (simp add: c(1) Let_def putchar_broadcast [OF assms(2)] m2(2) split: option.split)
  with m2(1) show ?case by blast
next
  case (prints_unsigned fs args out v)
  show ?case
    by (rule printf_directive_case [OF _ prints_unsigned.IH prints_unsigned.prems])
      (use directive_number(1) [OF assms(2,3), of 117 m v args] in simp)
next
  case (prints_hex fs args out v)
  show ?case
    by (rule printf_directive_case [OF _ prints_hex.IH prints_hex.prems])
      (use directive_number(1) [OF assms(2,3), of 120 m v args] in simp)
next
  case (prints_decimal fs args out v)
  show ?case unfolding append_assoc [symmetric]
    by (rule printf_directive_case [OF _ prints_decimal.IH prints_decimal.prems])
      (use directive_number(2) [OF assms(2,3), of m v args] in simp)
next
  case (prints_string a s fs args out)
  have "string_at m a s" by (rule string_at_outside [OF prints_string.hyps(1,2) prints_string.prems(1)])
  then have "\<forall>d. printf_directive h buffer (scast (115 :: u8)) (a # args) m d =
      map_option (\<lambda>d1. Inr (args, m, d1)) (emit ks s d)"
    by (simp add: printf_directive_def puts_no_newline_emit [OF assms(2)] option.map_comp o_def)
  then show ?case
    by (intro printf_directive_case [OF _ prints_string.IH prints_string.prems] exI [of _ m]) simp_all
next
  case (prints_letter fs args out v)
  have "\<forall>d. printf_directive h buffer (scast (99 :: u8)) (v # args) m d =
      map_option (\<lambda>d1. Inr (args, m, d1)) (emit ks [ucast v] d)"
    by (simp add: printf_directive_def putchar_broadcast [OF assms(2)] option.map_comp o_def
        split: option.split)
  then have "\<exists>m2. same_outside buffer m m2 \<and>
      (\<forall>d. printf h buffer fmt (v # args) m d = map_option (\<lambda>d2. Inr (m2, d2)) (emit ks ([ucast v] @ out) d))"
    by (intro printf_directive_case [OF _ prints_letter.IH prints_letter.prems] exI [of _ m]) simp_all
  then show ?case by simp
next
  case (prints_other c fs args out)
  have "scast c \<notin> {117, 120, 100, 115, 99 :: u32}"
    using prints_other.hyps(1) by (auto dest: scast_eqD)
  then have "\<forall>d. printf_directive h buffer (scast c) args m d =
      map_option (\<lambda>d1. Inr (args, m, d1)) (emit ks [c] d)"
    by (simp add: printf_directive_def putchar_broadcast [OF assms(2)] split: option.split)
  then have "\<exists>m2. same_outside buffer m m2 \<and>
      (\<forall>d. printf h buffer fmt args m d = map_option (\<lambda>d2. Inr (m2, d2)) (emit ks ([c] @ out) d))"
    by (intro printf_directive_case [OF _ prints_other.IH prints_other.prems] exI [of _ m]) simp_all
  then show ?case by simp
qed


subsection \<open>The serial line\<close>

text \<open>
  The transmitter is ready after some number of polls, whatever happened before: what the loop of
  \<open>putchar\<close> relies on. \<open>paced\<close> says that every data byte was written directly after a poll that
  found the transmitter ready.
\<close>

definition tx_ready :: "ports \<Rightarrow> port_event list \<Rightarrow> bool" where
  "tx_ready w es \<longleftrightarrow> (ucast (ucast (pt_device w es REG_LSR) :: u8) :: u32) AND LSR_TX_READY \<noteq> 0"

definition transmits :: "ports \<Rightarrow> bool" where
  "transmits w \<longleftrightarrow> (\<forall>es. \<exists>n. tx_ready w (replicate n (In8 REG_LSR) @ es))"

definition paced :: "ports \<Rightarrow> port_event list \<Rightarrow> bool" where
  "paced w es \<longleftrightarrow> (\<forall>xs b ys. es = xs @ Out8 REG_DATA b # ys \<longrightarrow>
     (\<exists>zs. ys = In8 REG_LSR # zs \<and> tx_ready w zs))"

lemma log_update_ready [simp]:
  "tx_ready (w\<lparr>pt_log := es\<rparr>) = tx_ready w"
  "transmits (w\<lparr>pt_log := es\<rparr>) = transmits w"
  "paced (w\<lparr>pt_log := es\<rparr>) = paced w"
  by (simp_all add: tx_ready_def transmits_def paced_def fun_eq_iff)

lemma serial_wait_ready:
  assumes "tx_ready w (replicate n (In8 REG_LSR) @ pt_log w)"
  shows "\<exists>k. tx_ready w (replicate k (In8 REG_LSR) @ pt_log w) \<and>
    serial_wait w = Some (w\<lparr>pt_log := In8 REG_LSR # replicate k (In8 REG_LSR) @ pt_log w\<rparr>)"
  using assms
proof (induction n arbitrary: w)
  case 0
  then show ?case
    by (intro exI [of _ 0], subst serial_wait.simps) (simp add: tx_ready_def ports_defs Let_def)
next
  case (Suc n)
  show ?case
  proof (cases "tx_ready w (pt_log w)")
    case True
    then show ?thesis
      by (intro exI [of _ 0], subst serial_wait.simps) (simp add: tx_ready_def ports_defs Let_def)
  next
    case False
    let ?w = "w\<lparr>pt_log := In8 REG_LSR # pt_log w\<rparr>"
    have "tx_ready ?w (replicate n (In8 REG_LSR) @ pt_log ?w)"
      using Suc.prems by (simp add: replicate_app_Cons_same)
    from Suc.IH [OF this] obtain k where k: "tx_ready ?w (replicate k (In8 REG_LSR) @ pt_log ?w)"
      "serial_wait ?w = Some (?w\<lparr>pt_log := In8 REG_LSR # replicate k (In8 REG_LSR) @ pt_log ?w\<rparr>)" by blast
    have "serial_wait w = serial_wait ?w"
      using False by (subst serial_wait.simps) (simp add: tx_ready_def ports_defs Let_def)
    with k show ?thesis
      by (intro exI [of _ "Suc k"]) (simp add: replicate_app_Cons_same)
  qed
qed

lemma written_polls [simp]: "written p (replicate n (In8 q) @ es) = written p es"
  by (induction n) simp_all

lemma paced_append_polls:
  assumes "paced w es" and "tx_ready w (replicate k (In8 REG_LSR) @ es)"
  shows "paced w (Out8 REG_DATA b # In8 REG_LSR # replicate k (In8 REG_LSR) @ es)"
  unfolding paced_def
proof (intro allI impI)
  fix xs c ys
  assume eq: "Out8 REG_DATA b # In8 REG_LSR # replicate k (In8 REG_LSR) @ es = xs @ Out8 REG_DATA c # ys"
  have polls: "\<exists>us. es = us @ Out8 REG_DATA c # ys"
    if "replicate n (In8 REG_LSR) @ es = vs @ Out8 REG_DATA c # ys" for n vs
    using that
  proof (induction n arbitrary: vs)
    case (Suc n)
    then show ?case by (cases vs) auto
  qed auto
  show "\<exists>zs. ys = In8 REG_LSR # zs \<and> tx_ready w zs"
  proof (cases xs)
    case Nil
    with eq assms(2) show ?thesis by auto
  next
    case (Cons x xs')
    with eq have "replicate (Suc k) (In8 REG_LSR) @ es = xs' @ Out8 REG_DATA c # ys" by simp
    from polls [OF this] obtain us where "es = us @ Out8 REG_DATA c # ys" by blast
    with assms(1) show ?thesis unfolding paced_def by blast
  qed
qed

lemma serial_write_transmits:
  assumes "transmits w" and "paced w (pt_log w)"
  shows "\<exists>es. serial_write data w = Some (w\<lparr>pt_log := es\<rparr>) \<and> paced w es \<and>
    written REG_DATA es = written REG_DATA (pt_log w) @ data"
  using assms
proof (induction data arbitrary: w)
  case Nil
  then show ?case by (intro exI [of _ "pt_log w"]) simp
next
  case (Cons c cs)
  obtain k where k: "tx_ready w (replicate k (In8 REG_LSR) @ pt_log w)"
    "serial_wait w = Some (w\<lparr>pt_log := In8 REG_LSR # replicate k (In8 REG_LSR) @ pt_log w\<rparr>)"
    using serial_wait_ready Cons.prems(1) unfolding transmits_def by blast
  let ?es = "Out8 REG_DATA c # In8 REG_LSR # replicate k (In8 REG_LSR) @ pt_log w"
  let ?w = "w\<lparr>pt_log := ?es\<rparr>"
  have "transmits ?w" "paced ?w (pt_log ?w)"
    using Cons.prems(1) paced_append_polls [OF Cons.prems(2) k(1)] by simp_all
  from Cons.IH [OF this] obtain es where
    "serial_write cs ?w = Some (?w\<lparr>pt_log := es\<rparr>)" "paced ?w es"
    "written REG_DATA es = written REG_DATA ?es @ cs" by auto
  then show ?case
    by (intro exI [of _ es]) (simp add: serial_putchar_def k(2) ports_defs)
qed

text \<open>The same through the list of consoles: the line is one of them, registered once.\<close>

definition line_ok :: "devices \<Rightarrow> bool" where
  "line_ok d \<longleftrightarrow> transmits (dv_ports d) \<and> paced (dv_ports d) (pt_log (dv_ports d))"

definition line_text :: "devices \<Rightarrow> u8 list" where
  "line_text d = written REG_DATA (pt_log (dv_ports d))"

lemma vga_ports: "dv_ports (vga_write data d) = dv_ports d"
proof (induction data arbitrary: d)
  case (Cons c cs)
  have "dv_ports (vga_putchar c d) = dv_ports d" by (simp add: vga_putchar_def newline_def Let_def)
  with Cons show ?case by (simp add: vga_write_def)
qed (simp add: vga_write_def)

lemma console_write_line:
  assumes "line_ok d"
  shows "\<exists>d1. console_write k data d = Some d1 \<and> line_ok d1 \<and>
    line_text d1 = line_text d @ (if k = Serial_console then data else [])"
proof (cases k)
  case Vga_console
  then show ?thesis using assms by (simp add: console_write_def line_ok_def line_text_def vga_ports)
next
  case Serial_console
  from assms obtain es where es: "serial_write data (dv_ports d) = Some ((dv_ports d)\<lparr>pt_log := es\<rparr>)"
    "paced (dv_ports d) es" "written REG_DATA es = written REG_DATA (pt_log (dv_ports d)) @ data"
    unfolding line_ok_def using serial_write_transmits by blast
  then show ?thesis using Serial_console assms
    by (simp add: console_write_def line_ok_def line_text_def)
qed

lemma broadcast_line:
  "line_ok d \<Longrightarrow> distinct ks \<Longrightarrow> \<exists>d1. broadcast ks c d = Some d1 \<and> line_ok d1 \<and>
    line_text d1 = line_text d @ (if Serial_console \<in> set ks then [c] else [])"
proof (induction ks arbitrary: d)
  case (Cons k ks)
  obtain d1 where d1: "console_write k [c] d = Some d1" "line_ok d1"
    "line_text d1 = line_text d @ (if k = Serial_console then [c] else [])"
    using console_write_line [OF Cons.prems(1)] by blast
  from Cons.IH [OF d1(2)] Cons.prems(2) obtain d2 where "broadcast ks c d1 = Some d2" "line_ok d2"
    "line_text d2 = line_text d1 @ (if Serial_console \<in> set ks then [c] else [])" by auto
  with d1 Cons.prems(2) show ?case by auto
qed simp

lemma emit_line:
  "line_ok d \<Longrightarrow> distinct ks \<Longrightarrow> \<exists>d1. emit ks s d = Some d1 \<and> line_ok d1 \<and>
    line_text d1 = line_text d @ (if Serial_console \<in> set ks then s else [])"
proof (induction s arbitrary: d)
  case (Cons c s)
  obtain d1 where "broadcast ks c d = Some d1" "line_ok d1"
    "line_text d1 = line_text d @ (if Serial_console \<in> set ks then [c] else [])"
    using broadcast_line [OF Cons.prems] by blast
  moreover from Cons.IH [OF this(2) Cons.prems(2)] obtain d2 where "emit ks s d1 = Some d2" "line_ok d2"
    "line_text d2 = line_text d1 @ (if Serial_console \<in> set ks then s else [])" by blast
  ultimately show ?case by auto
qed simp


subsection \<open>The screen\<close>

definition cursor_ok :: "devices \<Rightarrow> bool" where
  "cursor_ok d \<longleftrightarrow> dv_row d < ROWS \<and> dv_col d < COLS"

definition cursor :: "devices \<Rightarrow> nat" where
  "cursor d = unat (dv_row d) * 80 + unat (dv_col d)"

lemma cursor_bounds:
  assumes "cursor_ok d"
  shows "unat (dv_row d) < 24" and "unat (dv_col d) < 80" and "cursor d < 1920"
    and "cell_offset d = of_nat (2 * cursor d)"
proof -
  show b: "unat (dv_row d) < 24" "unat (dv_col d) < 80"
    using assms by (simp_all add: cursor_ok_def ROWS_def COLS_def word_less_nat_alt)
  then show "cursor d < 1920" by (simp add: cursor_def)
  show "cell_offset d = of_nat (2 * cursor d)"
    by (simp add: cell_offset_def cursor_def COLS_def algebra_simps)
qed

lemma newline_loop_frame:
  assumes "i \<le> n" and "unat s + unat n < 2 ^ 32"
    and "unat z < unat s + unat i \<or> unat s + unat n < unat z"
  shows "newline_loop s i n v z = v z"
  using assms
proof (induction s i n v rule: newline_loop.induct)
  case (1 s i n v)
  show ?case
  proof (cases "i = n")
    case False
    with 1(2) have "i < n" by simp
    then have i: "unat i < unat n" by (simp add: word_less_nat_alt)
    then have i1: "unat (i + 1) = unat i + 1" using 1(3) by (subst unat_plus_no_wrap) simp_all
    have a: "unat (s + i) = unat s + unat i" using 1(3) i by (subst unat_plus_no_wrap) simp_all
    have b: "unat (s + i + 1) = unat s + unat i + 1"
      using 1(3) i a by (subst unat_plus_no_wrap) simp_all
    have "z \<noteq> s + i" "z \<noteq> s + i + 1" using 1(4) a b i by auto
    moreover have "i + 1 \<le> n" using i i1 by (simp add: word_le_nat_alt)
    moreover have "unat z < unat s + unat (i + 1) \<or> unat s + unat n < unat z" using 1(4) i1 by auto
    ultimately have "newline_loop s (i + 1) n (v(s + i := 0, s + i + 1 := ATTR)) z = v z"
      using 1(1) [OF False refl refl] 1(3) by (simp del: fun_upd_apply) simp
    with False show ?thesis by (subst newline_loop.simps) (simp add: Let_def del: fun_upd_apply)
  qed (subst newline_loop.simps, simp)
qed

lemma newline_at_end: "dv_col d = COLS \<Longrightarrow> dv_video (newline d) = dv_video d"
  by (simp add: newline_def Let_def) (subst newline_loop.simps, simp)

lemma newline_state:
  assumes "unat (dv_row d) < 24" and "unat (dv_col d) \<le> 80"
  shows "dv_col (newline d) = 0" and "unat (dv_row (newline d)) = (unat (dv_row d) + 1) mod 24"
    and "unat z \<ge> 3840 \<Longrightarrow> dv_video (newline d) z = dv_video d z"
proof -
  show "dv_col (newline d) = 0" by (simp add: newline_def Let_def)
  show "unat (dv_row (newline d)) = (unat (dv_row d) + 1) mod 24"
    using assms(1) by (simp add: newline_def Let_def ROWS_def unat_mod unat_word_ariths)
  assume z: "unat z \<ge> 3840"
  show "dv_video (newline d) z = dv_video d z"
  proof (cases "dv_col d = COLS")
    case True
    then show ?thesis by (simp add: newline_at_end)
  next
    case False
    then have lt: "unat (dv_col d) < 80"
      using assms(2) by (simp add: word_unat_eq_iff COLS_def)
    let ?p = "unat (dv_row d) * 80 + unat (dv_col d)"
    have s: "cell_offset d = of_nat (2 * ?p)"
      by (simp add: cell_offset_def COLS_def algebra_simps)
    have us: "unat (cell_offset d) = 2 * ?p" unfolding s using assms by (intro unat_of_nat_less) simp
    have n: "unat (COLS - dv_col d) = 80 - unat (dv_col d)"
      using assms(2) by (subst unat_minus_no_wrap) (simp_all add: COLS_def word_le_nat_alt)
    have "newline_loop (cell_offset d) 0 (COLS - dv_col d) (dv_video d) z = dv_video d z"
      using assms lt z by (intro newline_loop_frame) (simp_all add: us n)
    then show ?thesis by (simp add: newline_def Let_def)
  qed
qed

lemma vga_putchar_cursor:
  assumes "cursor_ok d"
  shows "cursor_ok (vga_putchar c d)" (is ?ok)
    and "c \<noteq> 10 \<Longrightarrow> cursor (vga_putchar c d) = (cursor d + 1) mod 1920" (is "_ \<Longrightarrow> ?cur")
    and "c \<noteq> 10 \<Longrightarrow> dv_video (vga_putchar c d) =
      (dv_video d)(of_nat (2 * cursor d) := c, of_nat (2 * cursor d) + 1 := ATTR)"
    and "3840 \<le> unat z \<Longrightarrow> dv_video (vga_putchar c d) z = dv_video d z"
proof -
  note b = cursor_bounds [OF assms]
  let ?d = "d\<lparr>dv_video := (dv_video d)(cell_offset d := c, cell_offset d + 1 := ATTR), dv_col := dv_col d + 1\<rparr>"
  have "(0xFF :: u8) = - 1" by simp
  then have and_ff: "c AND 0xFF = c" by (simp only: and.right_neutral)
  have put: "vga_putchar c d = (if c = 10 then newline d else if dv_col d + 1 = COLS then newline ?d else ?d)"
    by (simp add: vga_putchar_def Let_def and_ff)
  have col: "unat (dv_col d + 1) = unat (dv_col d) + 1" using b by (subst unat_plus_no_wrap) simp_all
  have nl: "cursor_ok (newline e)" if "unat (dv_row e) < 24" "unat (dv_col e) \<le> 80" for e
    using newline_state [OF that] by (simp add: cursor_ok_def ROWS_def COLS_def word_less_nat_alt)
  have wrap: "dv_col d + 1 = COLS \<longleftrightarrow> unat (dv_col d) + 1 = 80"
    using col by (simp add: word_unat_eq_iff COLS_def)
  have "cursor_ok ?d" if "dv_col d + 1 \<noteq> COLS"
    using that wrap b(1,2) col by (simp add: cursor_ok_def ROWS_def COLS_def word_less_nat_alt)
  moreover have "cursor_ok (newline d)" "cursor_ok (newline ?d)"
    using nl [of d] nl [of ?d] b(1,2) col by simp_all
  ultimately show ?ok unfolding put if_split [of cursor_ok] by blast
  show ?cur if "c \<noteq> 10"
  proof (cases "dv_col d + 1 = COLS")
    case True
    with wrap have "unat (dv_col d) = 79" by simp
    moreover have "unat (dv_row (newline ?d)) = (unat (dv_row d) + 1) mod 24" "dv_col (newline ?d) = 0"
      using newline_state(1,2) [of ?d] b col by simp_all
    moreover have "(x + 1) mod 24 * 80 = (x * 80 + 80) mod 1920" for x :: nat
      using mult_mod_left [of "x + 1" 24 80] by (simp add: add.commute)
    ultimately show ?thesis using True that by (simp add: put cursor_def ac_simps)
  next
    case False
    with wrap b(1,2) have "unat (dv_col d) < 79" by simp
    then have "cursor d + 1 < 1920" using b(1) by (simp add: cursor_def)
    then show ?thesis using False that col by (simp add: put cursor_def)
  qed
  show video: "dv_video (vga_putchar c d) =
      (dv_video d)(of_nat (2 * cursor d) := c, of_nat (2 * cursor d) + 1 := ATTR)" if "c \<noteq> 10"
    using that newline_at_end [of ?d] by (simp add: put b(4))
  show "dv_video (vga_putchar c d) z = dv_video d z" if z: "3840 \<le> unat z"
  proof (cases "c = 10")
    case True
    then show ?thesis unfolding put using newline_state(3) [of d z] b(1,2) z by simp
  next
    case False
    have "unat (of_nat (2 * cursor d) :: u32) = 2 * cursor d"
      using b(3) by (intro unat_of_nat_less) simp
    moreover from this have "unat (of_nat (2 * cursor d) + 1 :: u32) = 2 * cursor d + 1"
      using b(3) by (subst unat_plus_no_wrap) simp_all
    ultimately have "z \<noteq> of_nat (2 * cursor d)" "z \<noteq> of_nat (2 * cursor d) + 1"
      using z b(3) by auto
    then show ?thesis unfolding video [OF False] by simp
  qed
qed


lemma vga_write_bounds:
  "cursor_ok d \<Longrightarrow> cursor_ok (vga_write data d) \<and>
    (\<forall>z. 3840 \<le> unat z \<longrightarrow> dv_video (vga_write data d) z = dv_video d z)"
  by (induction data arbitrary: d) (simp_all add: vga_write_def vga_putchar_cursor)

lemma cell_neq:
  assumes "p < 1920" and "q < 1920" and "p \<noteq> q"
  shows "(of_nat (2 * p) :: u32) \<noteq> of_nat (2 * q)" and "(of_nat (2 * p) :: u32) \<noteq> of_nat (2 * q) + 1"
proof -
  have u: "unat (of_nat (2 * x) :: u32) = 2 * x" if "x < 1920" for x
    using that by (intro unat_of_nat_less) simp
  moreover from this have u1: "unat (of_nat (2 * q) + 1 :: u32) = 2 * q + 1"
    using assms(2) by (subst unat_plus_no_wrap) simp_all
  show "(of_nat (2 * p) :: u32) \<noteq> of_nat (2 * q)"
  proof
    assume "(of_nat (2 * p) :: u32) = of_nat (2 * q)"
    from arg_cong [OF this, of unat] have "2 * p = 2 * q" unfolding u [OF assms(1)] u [OF assms(2)] .
    with assms(3) show False by simp
  qed
  show "(of_nat (2 * p) :: u32) \<noteq> of_nat (2 * q) + 1"
  proof
    assume "(of_nat (2 * p) :: u32) = of_nat (2 * q) + 1"
    from arg_cong [OF this, of unat] have "2 * p = 2 * q + 1" unfolding u [OF assms(1)] u1 .
    then show False by presburger
  qed
qed

lemma mod_shift_neq: "i < (k :: nat) \<Longrightarrow> k < n \<Longrightarrow> (p + i) mod n \<noteq> (p + k) mod n"
proof
  assume "i < k" "k < n" "(p + i) mod n = (p + k) mod n"
  then have "n dvd (p + k) - (p + i)" using mod_eq_dvd_iff_nat [of "p + i" "p + k" n] by simp
  with \<open>i < k\<close> \<open>k < n\<close> show False by (auto dest: dvd_imp_le)
qed

lemma vga_write_text:
  "\<lbrakk>cursor_ok d; 10 \<notin> set data; length data \<le> 1920\<rbrakk> \<Longrightarrow>
    cursor (vga_write data d) = (cursor d + length data) mod 1920 \<and>
    (\<forall>i < length data. dv_video (vga_write data d) (of_nat (2 * ((cursor d + i) mod 1920))) = data ! i)"
proof (induction data rule: rev_induct)
  case Nil
  then show ?case using cursor_bounds(3) [of d] by (simp add: vga_write_def)
next
  case (snoc c data)
  let ?d = "vga_write data d"
  have ok: "cursor_ok ?d" using vga_write_bounds snoc.prems(1) by blast
  have c: "c \<noteq> 10" using snoc.prems(2) by auto
  from snoc have IH: "cursor ?d = (cursor d + length data) mod 1920"
    "\<And>i. i < length data \<Longrightarrow> dv_video ?d (of_nat (2 * ((cursor d + i) mod 1920))) = data ! i" by auto
  have put: "vga_write (data @ [c]) d = vga_putchar c ?d" by (simp add: vga_write_def)
  have "dv_video (vga_putchar c ?d) (of_nat (2 * ((cursor d + i) mod 1920))) = (data @ [c]) ! i"
    if "i < length (data @ [c])" for i
  proof (cases "i = length data")
    case True
    have "(of_nat (2 * cursor ?d) :: u32) \<noteq> of_nat (2 * cursor ?d) + 1" by simp
    then show ?thesis using True unfolding vga_putchar_cursor(3) [OF ok c] IH(1) by simp
  next
    case False
    with that have i: "i < length data" by simp
    have "(cursor d + i) mod 1920 \<noteq> cursor ?d"
      unfolding IH(1) using i snoc.prems(3) by (intro mod_shift_neq) simp_all
    then have "(of_nat (2 * ((cursor d + i) mod 1920)) :: u32) \<noteq> of_nat (2 * cursor ?d)"
      "(of_nat (2 * ((cursor d + i) mod 1920)) :: u32) \<noteq> of_nat (2 * cursor ?d) + 1"
      using cell_neq [of "(cursor d + i) mod 1920" "cursor ?d"] cursor_bounds(3) [OF ok] by simp_all
    then show ?thesis using IH(2) [OF i] i
      unfolding vga_putchar_cursor(3) [OF ok c] by (simp add: nth_append del: of_nat_mult)
  qed
  then show ?case
    using vga_putchar_cursor(2) [OF ok c] IH(1) unfolding put by (simp add: mod_Suc_eq del: of_nat_mult)
qed

subsection \<open>Properties\<close>

text \<open>
  C22: with a line that becomes ready, \<open>printf\<close> of a format and arguments that stand for a text
  returns; it has sent that text, character by character, to every registered console in the order
  of registration; when the serial console is registered, the bytes on the line are the bytes sent
  before followed by the text; in memory it has written at most the 20 bytes of its buffer.
\<close>

theorem printf_sends_text:
  assumes "registered h ks" and "line_ok d" and "prints m buffer fs args out"
    and "string_at m fmt fs" and "apart buffer fmt fs" and "unat buffer + 34 \<le> 2 ^ 32"
  shows "\<exists>m' d'. printf h buffer fmt args m d = Some (Inr (m', d')) \<and> emit ks out d = Some d' \<and>
    line_ok d' \<and> line_text d' = line_text d @ (if Serial_console \<in> set ks then out else []) \<and>
    (\<forall>z. 20 \<le> unat (z - buffer) \<longrightarrow> m' z = m z)"
proof -
  have "distinct ks" using assms(1) by (simp add: registered_def list_rep_def distinct_map)
  from emit_line [OF assms(2) this] obtain d' where d': "emit ks out d = Some d'" "line_ok d'"
    "line_text d' = line_text d @ (if Serial_console \<in> set ks then out else [])" by blast
  from printf_emit [OF assms(3,1,6) same_outside_refl assms(4,5)]
  obtain m2 where "same_outside buffer m m2" "printf h buffer fmt args m d = Some (Inr (m2, d'))"
    using d'(1) by auto
  with d' show ?thesis unfolding same_outside_def by blast
qed

definition sample_devices :: devices where
  "sample_devices = \<lparr>dv_video = \<lambda>_. 0, dv_row = 23, dv_col = 79,
     dv_ports = \<lparr>pt_log = [], pt_device = \<lambda>es p. if even (length es) then 0 else 0x20\<rparr>\<rparr>"

lemma sample_transmits: "transmits (dv_ports sample_devices)"
  unfolding transmits_def
proof
  fix es :: "port_event list"
  show "\<exists>n. tx_ready (dv_ports sample_devices) (replicate n (In8 REG_LSR) @ es)"
    by (rule exI [of _ "if even (length es) then 1 else 0"])
      (simp add: tx_ready_def sample_devices_def serial_defs)
qed

lemma sample_paced: "paced (dv_ports sample_devices) (pt_log (dv_ports sample_devices))"
  by (simp add: paced_def sample_devices_def)

text \<open>The format \<open>n=%d\<close> at \<open>0x2000\<close>, the buffer at \<open>0x1000\<close>, both consoles registered.\<close>

definition sample_format :: memory where
  "sample_format = store 0x2000 [110, 61, 37, 100, 0] (\<lambda>_. 1)"

definition sample_consoles :: "console_node list_heap" where
  "sample_consoles = register_console Serial_console (register_console Vga_console
     (consoles \<lparr>lh_next = \<lambda>n. n, lh_prev = \<lambda>n. n\<rparr>))"

lemma sample_registered: "registered sample_consoles [Vga_console, Serial_console]"
proof -
  let ?h = "consoles \<lparr>lh_next = \<lambda>n. n, lh_prev = \<lambda>n. n\<rparr>"
  have "list_rep ?h Consoles []" by (simp add: list_rep_def consoles_def)
  then have "list_rep (register_console Vga_console ?h) Consoles ([] @ [Console_link Vga_console])"
    unfolding register_console_def by (intro list_rep_insert_before) simp_all
  then have "list_rep sample_consoles Consoles (([] @ [Console_link Vga_console]) @ [Console_link Serial_console])"
    unfolding sample_consoles_def register_console_def [of Serial_console]
    by (intro list_rep_insert_before) simp_all
  then show ?thesis by (simp add: registered_def)
qed

lemma sample_apart: "apart 0x1000 0x2000 [110, 61, 37, 100]"
proof -
  have *: "\<forall>i \<in> set [0..<5]. 20 \<le> unat ((0x2000 :: u32) + of_nat i - 0x1000)" by code_simp
  show ?thesis unfolding apart_def
  proof (intro allI impI)
    fix i assume "i \<le> length [110 :: u8, 61, 37, 100]"
    then have "i \<in> set [0..<5]" by simp
    with * show "20 \<le> unat ((0x2000 :: u32) + of_nat i - 0x1000)" by blast
  qed
qed

theorem printf_sends_text_witness:
  "\<exists>m' d'. printf sample_consoles 0x1000 0x2000 [- 7] sample_format sample_devices = Some (Inr (m', d')) \<and>
    line_text d' = [110, 61, 45, 55]"
proof -
  have "prints sample_format 0x1000 [37, 100] [- 7]
      ((if (- 7 :: u32) <s 0 then [45] else []) @ numeral_string 10 (nat \<bar>sint (- 7 :: u32)\<bar>) @ [])"
    by (intro prints_decimal prints_end)
  then have "prints sample_format 0x1000 [37, 100] [- 7] ([45] @ numeral_string 10 7 @ [])"
    by (simp add: word_sless_alt)
  then have p: "prints sample_format 0x1000 [110, 61, 37, 100] [- 7] ([110, 61] @ [45] @ numeral_string 10 7 @ [])"
    by (simp add: prints_char)
  have n: "numeral_string 10 7 = [55]"
    by (simp add: numeral_string_def digits.simps digit_char_def)
  have "string_at sample_format 0x2000 [110, 61, 37, 100]"
    unfolding sample_format_def
    using string_at_store [of "[110, 61, 37, 100]" "0x2000" "\<lambda>_. 1"] by simp
  moreover have "line_ok sample_devices" using sample_transmits sample_paced by (simp add: line_ok_def)
  moreover have "unat (0x1000 :: u32) + 34 \<le> 2 ^ 32" by simp
  ultimately obtain m' d' where
    "printf sample_consoles 0x1000 0x2000 [- 7] sample_format sample_devices = Some (Inr (m', d'))"
    "line_text d' = line_text sample_devices @ [110, 61] @ [45] @ numeral_string 10 7 @ []"
    using printf_sends_text [OF sample_registered _ p _ sample_apart] by fastforce
  moreover have "line_text sample_devices = []" by (simp add: line_text_def sample_devices_def)
  ultimately show ?thesis using n by auto
qed

text \<open>
  C36: writing to the screen never touches a byte outside its 24 lines of 80 cells and keeps the
  cursor on the screen, whatever the text; a text without a newline of at most one screen is shown
  cell by cell from the cursor on, wrapping at the end of a line and of the screen.
\<close>

theorem vga_write_shows:
  assumes "cursor_ok d"
  shows "cursor_ok (vga_write data d) \<and>
    (\<forall>z. 3840 \<le> unat z \<longrightarrow> dv_video (vga_write data d) z = dv_video d z) \<and>
    (10 \<notin> set data \<and> length data \<le> 1920 \<longrightarrow>
      cursor (vga_write data d) = (cursor d + length data) mod 1920 \<and>
      (\<forall>i < length data. dv_video (vga_write data d) (of_nat (2 * ((cursor d + i) mod 1920))) = data ! i))"
  using vga_write_bounds [OF assms] vga_write_text [OF assms] by blast

theorem vga_write_shows_witness:
  "cursor (vga_write [65, 66] sample_devices) = 1 \<and> dv_video (vga_write [65, 66] sample_devices) 0 = 66"
proof -
  have c: "cursor_ok sample_devices" "cursor sample_devices = 1919"
    by (simp_all add: cursor_ok_def cursor_def sample_devices_def ROWS_def COLS_def)
  have "10 \<notin> set [65, 66 :: u8] \<and> length [65, 66 :: u8] \<le> 1920" by simp
  with vga_write_shows [OF c(1), of "[65, 66]"] have
    "cursor (vga_write [65, 66] sample_devices) = (1919 + 2) mod 1920"
    "\<forall>i < 2. dv_video (vga_write [65, 66] sample_devices) (of_nat (2 * ((1919 + i) mod 1920))) = [65, 66] ! i"
    unfolding c(2) by simp_all
  from this(1) this(2) [rule_format, of 1] show ?thesis by simp
qed

text \<open>
  C35: with a transmitter that becomes ready after finitely many polls, whatever happened before, the
  polling loop ends and \<open>write\<close> of the serial console returns; it sends exactly its data, in order,
  each byte directly after a poll that found the transmitter ready.
\<close>

theorem serial_write_sends:
  assumes "transmits w" and "paced w (pt_log w)"
  shows "\<exists>w'. serial_write data w = Some w' \<and> paced w' (pt_log w') \<and> pt_device w' = pt_device w \<and>
    written REG_DATA (pt_log w') = written REG_DATA (pt_log w) @ data"
  using serial_write_transmits [OF assms, of data] by (elim exE conjE) (intro exI conjI, assumption, simp_all)


theorem serial_write_sends_witness:
  "\<exists>w'. serial_write [65, 66] (dv_ports sample_devices) = Some w' \<and> written REG_DATA (pt_log w') = [65, 66]"
  using serial_write_sends [OF sample_transmits sample_paced, of "[65, 66]"]
  by (auto simp: sample_devices_def)

end
