(* ===== verification/Setup_Page_Alloc.thy ===== *)
theory Setup_Page_Alloc
  imports Page_Alloc Bootmem
begin

text \<open>
  \<open>kernel/arch/x86/setup_page_alloc.c\<close>: the page allocator is built from what the boot allocator
  knows. Every page of a zone is first marked as handed out with order 0, then the pages that
  \<open>boot_mem_is_free\<close> reports are freed one by one. The loops count \<open>pfn\<close> up to \<open>end_pfn\<close> with \<open>!=\<close>, on
  32-bit words. The outer option is \<open>None\<close> when a search of the boot allocator does not return.
\<close>

subsection \<open>The code\<close>

function init_areas :: "zone_type \<Rightarrow> nat \<Rightarrow> page_state \<Rightarrow> page_state" where
  "init_areas z i st =
     (if i < MAX_ORDER then init_areas z (i + 1) (links_map (list_init_head (Free_area z i)) st)
      else st)"
  by pat_completeness auto
termination
  by (relation "measure (\<lambda>(z, i, st). MAX_ORDER - i)") auto

lemma unat_count_down: "(a :: u32) \<noteq> b \<Longrightarrow> unat (b - (a + 1)) < unat (b - a)"
proof -
  assume "a \<noteq> b"
  then have "b - a \<noteq> 0" by simp
  then have "unat (b - a - 1) < unat (b - a)"
    by (metis measure_unat)
  then show ?thesis by (simp add: diff_diff_eq)
qed

lemma unat_next: "(a :: u32) < b \<Longrightarrow> unat (a + 1) = unat a + 1"
proof -
  assume "a < b"
  then have "unat a + 1 \<le> unat b" by (simp add: word_less_nat_alt)
  then have "unat a + unat (1 :: u32) < 2 ^ LENGTH(32)" using unat_lt_2p32 [of b] by (simp del: unat_lt_2p32)
  from unat_plus_no_wrap [OF this] show ?thesis by simp
qed

function init_pages :: "zone_type \<Rightarrow> u32 \<Rightarrow> u32 \<Rightarrow> page_state \<Rightarrow> page_state" where
  "init_pages z pfn end_pfn st =
     (if pfn \<noteq> end_pfn then
        (let page = pfn_to_page (pfn - nd_start_pfn st) st;
             st1 = links_map (list_init_head (Chain page)) st;
             st2 = st1\<lparr>pg_zone := (pg_zone st1)(page := z)\<rparr>
         in init_pages z (pfn + 1) end_pfn (set_order page (-1) st2))
      else st)"
  by pat_completeness auto
termination
  by (relation "measure (\<lambda>(z, pfn, end_pfn, st). unat (end_pfn - pfn))") (auto intro: unat_count_down)

function free_zone :: "boot_mem \<Rightarrow> u32 \<Rightarrow> u32 \<Rightarrow> u32 \<Rightarrow> page_state \<Rightarrow> (u32 \<times> page_state) outcome option" where
  "free_zone bm pfn end_pfn free st =
     (if pfn \<noteq> end_pfn then
        (case boot_mem_is_free bm (push_bit PAGE_SHIFT pfn) PAGE_SIZE of
           None \<Rightarrow> None
         | Some True \<Rightarrow>
             (case free_pages (pfn_to_page (pfn - nd_start_pfn st) st) 0 st of
                Inl e \<Rightarrow> Some (Inl e)
              | Inr st' \<Rightarrow> free_zone bm (pfn + 1) end_pfn (free + 1) st')
         | Some False \<Rightarrow> free_zone bm (pfn + 1) end_pfn free st)
      else Some (Inr (free, st)))"
  by pat_completeness auto
termination
  by (relation "measure (\<lambda>(bm, pfn, end_pfn, free, st). unat (end_pfn - pfn))")
    (auto intro: unat_count_down)

declare init_areas.simps [simp del] init_pages.simps [simp del] free_zone.simps [simp del]

definition init_zone :: "boot_mem \<Rightarrow> zone_type \<Rightarrow> u32 \<Rightarrow> u32 \<Rightarrow> page_state \<Rightarrow> (u32 \<times> page_state) outcome option" where
  "init_zone bm z start_pfn end_pfn st =
     (let st1 = st\<lparr>nd_zones := (nd_zones st)(z := \<lparr>z_start_pfn = start_pfn, z_end_pfn = end_pfn\<rparr>)\<rparr>;
          st2 = init_areas z 0 st1;
          st3 = init_pages z start_pfn end_pfn st2
      in free_zone bm start_pfn end_pfn 0 st3)"

definition SIZEOF_PAGE :: u32 where
  "SIZEOF_PAGE = 20"

definition alloc_page_array :: "boot_mem \<Rightarrow> u32 \<Rightarrow> (u32 \<times> boot_mem) outcome option" where
  "alloc_page_array bm pages =
     (let begin = PAGE_SIZE;
          end = push_bit PAGE_SHIFT LOWMEM_PAGE_FRAMES;
          sz = pages * SIZEOF_PAGE
      in case boot_mem_alloc bm sz PAGE_SIZE begin end of
           None \<Rightarrow> None
         | Some (paddr, bm') \<Rightarrow>
             Some (bind_outcome (assert_that (paddr \<noteq> end) ''alloc_page_array: allocation failed'')
               (\<lambda>_. Inr (virt_addr paddr, bm'))))"

definition init_node :: "boot_mem \<Rightarrow> (zone_type \<Rightarrow> u32) \<Rightarrow> page_state \<Rightarrow> (page_state \<times> boot_mem) outcome option" where
  "init_node bm max_pfns st =
     (let start_pfn = 0;
          end_pfn = max_pfns ZONE_HIGH;
          st1 = st\<lparr>nd_start_pfn := start_pfn, nd_end_pfn := end_pfn\<rparr>
      in case alloc_page_array bm (end_pfn - start_pfn) of
           None \<Rightarrow> None
         | Some (Inl e) \<Rightarrow> Some (Inl e)
         | Some (Inr (pages, bm')) \<Rightarrow>
             (case init_zone bm' ZONE_NORMAL start_pfn (max_pfns ZONE_NORMAL) (st1\<lparr>nd_pages := pages\<rparr>) of
                None \<Rightarrow> None
              | Some (Inl e) \<Rightarrow> Some (Inl e)
              | Some (Inr (n, st2)) \<Rightarrow>
                  (case init_zone bm' ZONE_HIGH (max_pfns ZONE_NORMAL) (max_pfns ZONE_HIGH) st2 of
                     None \<Rightarrow> None
                   | Some (Inl e) \<Rightarrow> Some (Inl e)
                   | Some (Inr (m, st3)) \<Rightarrow> Some (Inr (st3, bm')))))"

definition setup_page_alloc :: "boot_mem \<Rightarrow> u32 \<Rightarrow> u32 \<Rightarrow> page_state \<Rightarrow> (page_state \<times> boot_mem) outcome option" where
  "setup_page_alloc bm lowmem every st =
     init_node bm (\<lambda>z. case z of ZONE_NORMAL \<Rightarrow> lowmem | ZONE_HIGH \<Rightarrow> every) st"

subsection \<open>Marking the pages of a zone\<close>

lemma list_family_cong:
  "\<lbrakk>list_family rep h H L; \<And>g. g \<in> H \<Longrightarrow> L' g = L g\<rbrakk> \<Longrightarrow> list_family rep h H L'"
  by (simp add: list_family_def disjoint_lists_def)

definition areas_upto :: "zone_type \<Rightarrow> nat \<Rightarrow> page_node set" where
  "areas_upto z i = {Free_area z j | j. j < i}"

lemma areas_upto_Suc: "areas_upto z (Suc i) = insert (Free_area z i) (areas_upto z i)"
  by (auto simp: areas_upto_def less_Suc_eq)

lemma areas_insert: "areas (insert z Z) = areas Z \<union> areas_upto z MAX_ORDER"
  by (auto simp: areas_def areas_upto_def)

definition only_links :: "page_state \<Rightarrow> page_state \<Rightarrow> bool" where
  "only_links st st' \<longleftrightarrow> same_layout st st' \<and> pg_order st' = pg_order st"

lemma init_areas_family:
  assumes "list_family list_rep (pg_links st) (areas Z \<union> areas_upto z i) (area_lists F)"
    and "z \<notin> Z" and "F z = (\<lambda>_. [])" and "i \<le> MAX_ORDER"
  shows "list_family list_rep (pg_links (init_areas z i st)) (areas (insert z Z)) (area_lists F) \<and>
    only_links st (init_areas z i st)"
  using assms
proof (induction "MAX_ORDER - i" arbitrary: i st)
  case 0
  then have "i = MAX_ORDER" by simp
  moreover from this have "init_areas z i st = st" by (subst init_areas.simps) simp
  ultimately show ?case using 0 by (simp add: areas_insert only_links_def)
next
  case (Suc n)
  let ?st = "links_map (list_init_head (Free_area z i)) st"
  have "Free_area z i \<notin> family_nodes (areas Z \<union> areas_upto z i) (area_lists F)"
    using Suc.prems(2) unfolding family_nodes_iff by (auto simp: areas_def areas_upto_def)
  from lists.family_init [OF Suc.prems(1) this]
  have fam: "list_family list_rep (pg_links ?st) (areas Z \<union> areas_upto z (Suc i))
      ((area_lists F)(Free_area z i := []))"
    by (simp add: areas_upto_Suc)
  have "list_family list_rep (pg_links ?st) (areas Z \<union> areas_upto z (Suc i)) (area_lists F)"
    by (rule list_family_cong [OF fam]) (simp add: Suc.prems(3))
  from Suc.hyps(1) [OF _ this Suc.prems(2,3)] Suc.hyps(2)
  have "list_family list_rep (pg_links (init_areas z (Suc i) ?st)) (areas (insert z Z)) (area_lists F) \<and>
    only_links ?st (init_areas z (Suc i) ?st)" by simp
  moreover have "init_areas z i st = init_areas z (Suc i) ?st"
    using Suc.hyps(2) by (simp add: init_areas.simps [of z i])
  ultimately show ?case by (simp add: only_links_def same_layout_def)
qed

lemma init_pages_result:
  assumes "nd_start_pfn st = 0" and "list_family list_rep (pg_links st) H L" and "s \<le> e"
    and "\<And>p. s \<le> p \<Longrightarrow> p < e \<Longrightarrow> Chain p \<notin> family_nodes H L"
  shows "let st' = init_pages z s e st in
    list_family list_rep (pg_links st') H L \<and> nd_zones st' = nd_zones st \<and>
    nd_start_pfn st' = 0 \<and> pg_slab st' = pg_slab st \<and> nd_pages st' = nd_pages st \<and>
    pg_zone st' = (\<lambda>p. if s \<le> p \<and> p < e then z else pg_zone st p) \<and>
    pg_order st' = (\<lambda>p. if s \<le> p \<and> p < e then -1 else pg_order st p)"
  using assms
proof (induction z s e st rule: init_pages.induct)
  case (1 z s e st)
  show ?case
  proof (cases "s = e")
    case True
    then have "init_pages z s e st = st" by (subst init_pages.simps) simp
    with 1 True show ?thesis by (auto simp: Let_def fun_eq_iff)
  next
    case False
    let ?st = "links_map (list_init_head (Chain s)) st"
    let ?st' = "set_order s (-1) (?st\<lparr>pg_zone := (pg_zone ?st)(s := z)\<rparr>)"
    have se: "s < e" using False 1(4) by simp
    have up: "unat (s + 1) = unat s + 1" by (rule unat_next [OF se])
    have s1: "s + 1 \<le> e" using se up by (simp add: word_le_nat_alt word_less_nat_alt)
    have split: "s \<le> p \<and> p < e \<longleftrightarrow> p = s \<or> s + 1 \<le> p \<and> p < e" for p
      using se up by (auto simp: word_le_nat_alt word_less_nat_alt word_unat_eq_iff)
    have step: "init_pages z s e st = init_pages z (s + 1) e ?st'"
      using False by (subst init_pages.simps) (simp add: pfn_to_page_def 1(2))
    have fam: "list_family list_rep (pg_links ?st') H L"
      using lists.family_init_outside [OF 1(3) 1(5) [of s]] se by simp
    have out: "Chain p \<notin> family_nodes H L" if "s + 1 \<le> p" "p < e" for p
      using 1(5) [of p] split [of p] that by blast
    note IH = 1(1) [OF False refl refl refl]
    show ?thesis
      using IH [unfolded pfn_to_page_def 1(2) diff_0_right, OF _ _ s1 out] fam 1(2)
      unfolding step by (auto simp: Let_def split fun_eq_iff)
  qed
qed

subsection \<open>Freeing the pages of a zone\<close>

text \<open>The call \<open>boot_mem_is_free (pfn << PAGE_SHIFT, PAGE_SIZE)\<close> passes a size for the end of the range.\<close>

lemma shifted_pfn:
  assumes "p < 2 ^ 20"
  shows "unat (push_bit PAGE_SHIFT (p :: u32)) = unat p * 4096"
proof -
  have "unat p < 2 ^ 20" using assms by (simp add: word_less_nat_alt)
  then have "take_bit 32 (unat p * 4096) = unat p * 4096" by (simp add: take_bit_nat_eq_self_iff)
  then show ?thesis
    unfolding PAGE_SHIFT_def by (simp only: unsigned_push_bit_eq) (simp add: push_bit_eq_mult)
qed

lemma is_free_above_0:
  assumes "p < 2 ^ 20" and "p \<noteq> 0"
  shows "boot_mem_is_free bm (push_bit PAGE_SHIFT p) PAGE_SIZE = Some True"
proof -
  let ?b = "push_bit PAGE_SHIFT p"
  have p: "unat p * 4096 = unat ?b" "0 < unat p" using shifted_pfn [OF assms(1)] assms(2) by (simp_all add: unat_gt_0)
  then have le: "PAGE_SIZE \<le> ?b" by (simp add: word_le_nat_alt layout_values)
  have "boot_mem_find bm (PAGE_SIZE - ?b) 1 ?b PAGE_SIZE = Some PAGE_SIZE"
  proof (cases "?b = PAGE_SIZE")
    case True
    then show ?thesis by (simp add: boot_mem_find_def)
  next
    case False
    with le show ?thesis by (simp add: boot_mem_find_def order.strict_iff_order)
  qed
  then show ?thesis by (simp add: boot_mem_is_free_def layout_values)
qed

text \<open>
  The first page lies in one memory range and has nothing reserved. That is when the test of
  \<open>init_zone\<close> calls it in use, since the search then yields its address, which is 0.
\<close>

definition first_page_usable :: "boot_mem \<Rightarrow> bool" where
  "first_page_usable bm \<longleftrightarrow> placed (live (bm_memory bm)) (live (bm_reserved bm)) 1 4096 0 4096 0"

lemma is_free_at_0:
  assumes "boot_mem_inv bm" and "separated (live (bm_memory bm))"
  shows "boot_mem_is_free bm (push_bit PAGE_SHIFT 0) PAGE_SIZE = Some (\<not> first_page_usable bm)"
proof -
  let ?P = "placed (live (bm_memory bm)) (live (bm_reserved bm)) 1 4096 0 4096"
  obtain a where a: "boot_mem_find bm PAGE_SIZE 1 0 PAGE_SIZE = Some a"
    "if a = PAGE_SIZE then \<forall>c. \<not> ?P c else ?P (unat a)"
    using boot_mem_find_total [OF assms is_pow2_1, of PAGE_SIZE PAGE_SIZE 0]
    by (auto simp: layout_values Let_def split: if_splits)
  have "a = 0 \<longleftrightarrow> ?P 0"
  proof (cases "a = PAGE_SIZE")
    case True
    then show ?thesis using a(2) by (simp add: layout_values)
  next
    case False
    with a(2) have "?P (unat a)" by simp
    moreover from this have "a = 0" by (simp add: placed_def unat_eq_0)
    ultimately show ?thesis by simp
  qed
  with a(1) show ?thesis by (simp add: boot_mem_is_free_def first_page_usable_def)
qed

definition kept :: "boot_mem \<Rightarrow> u32 \<Rightarrow> u32 \<Rightarrow> (u32 \<times> nat) set" where
  "kept bm s e = {(p, 0) | p. s \<le> p \<and> p < e \<and>
     boot_mem_is_free bm (push_bit PAGE_SHIFT p) PAGE_SIZE = Some False}"

lemma free_zone_result:
  assumes "owns Z st (A \<union> {(p, 0) | p. s \<le> p \<and> p < e})" and "s \<le> e"
    and "A \<inter> {(p, 0) | p. s \<le> p \<and> p < e} = {}"
    and "\<And>p. s \<le> p \<Longrightarrow> p < e \<Longrightarrow> boot_mem_is_free bm (push_bit PAGE_SHIFT p) PAGE_SIZE \<noteq> None"
  shows "\<exists>n' st'. free_zone bm s e n st = Some (Inr (n', st')) \<and> owns Z st' (A \<union> kept bm s e) \<and>
    same_layout st st'"
  using assms
proof (induction bm s e n st arbitrary: A rule: free_zone.induct)
  case (1 bm s e n st)
  note own = 1(3) and total = 1(6)
  let ?free = "boot_mem_is_free bm (push_bit PAGE_SHIFT s) PAGE_SIZE"
  show ?case
  proof (cases "s = e")
    case True
    then have "free_zone bm s e n st = Some (Inr (n, st))" by (subst free_zone.simps) simp
    moreover have e: "{(p, 0) | p. s \<le> p \<and> p < e} = ({} :: (u32 \<times> nat) set)" and k: "kept bm s e = {}"
      using True by (auto simp: kept_def)
    have "owns Z st (A \<union> kept bm s e)" using own unfolding e k .
    ultimately show ?thesis by simp
  next
    case False
    then have se: "s < e" using 1(4) by simp
    have up: "unat (s + 1) = unat s + 1" by (rule unat_next [OF se])
    have s1: "s + 1 \<le> e" using se up by (simp add: word_le_nat_alt word_less_nat_alt)
    have split: "s \<le> p \<and> p < e \<longleftrightarrow> p = s \<or> s + 1 \<le> p \<and> p < e" for p
      using se up by (auto simp: word_le_nat_alt word_less_nat_alt word_unat_eq_iff)
    have notin: "\<not> (s + 1 \<le> s)" using up by (simp add: word_le_nat_alt)
    let ?R = "{(p, 0) | p. s + 1 \<le> p \<and> p < e} :: (u32 \<times> nat) set"
    have R: "{(p, 0) | p. s \<le> p \<and> p < e} = insert (s, 0) ?R" using split by auto
    have sR: "(s, 0) \<notin> ?R" using notin by auto
    have sA: "(s, 0) \<notin> A" and AR: "A \<inter> ?R = {}" using 1(5) unfolding R by auto
    have tot: "boot_mem_is_free bm (push_bit PAGE_SHIFT p) PAGE_SIZE \<noteq> None" if "s + 1 \<le> p" "p < e" for p
      using total [of p] split [of p] that by blast
    obtain b where b: "?free = Some b" using total [of s] se by auto
    show ?thesis
    proof (cases b)
      case False
      have o1: "owns Z st (insert (s, 0) A \<union> ?R)" using own unfolding R by simp
      have AR1: "insert (s, 0) A \<inter> ?R = {}" using AR sR by blast
      have k: "kept bm s e = insert (s, 0) (kept bm (s + 1) e)"
        using split b False by (auto simp: kept_def)
      from 1(2) [OF \<open>s \<noteq> e\<close> b _ o1 s1 AR1 tot] False obtain n' st' where
        r: "free_zone bm (s + 1) e n st = Some (Inr (n', st'))"
          "owns Z st' (insert (s, 0) A \<union> kept bm (s + 1) e)" "same_layout st st'" by blast
      moreover have "free_zone bm s e n st = free_zone bm (s + 1) e n st"
        using b False \<open>s \<noteq> e\<close> by (subst free_zone.simps) simp
      ultimately show ?thesis using k by simp
    next
      case True
      have "(s, 0) \<in> A \<union> insert (s, 0) ?R" by blast
      moreover have "A \<union> insert (s, 0) ?R - {(s, 0)} = A \<union> ?R" using sA sR by blast
      moreover obtain F where "page_inv st Z F (A \<union> insert (s, 0) ?R) {}"
        using own unfolding owns_def R by blast
      ultimately obtain st1 where st1: "free_pages s 0 st = Inr st1" "owns Z st1 (A \<union> ?R)" "same_layout st st1"
        using free_pages_result [of st Z F "A \<union> insert (s, 0) ?R" s 0] unfolding owns_def by force
      have pg: "pfn_to_page (s - nd_start_pfn st) st = s"
        using own by (auto simp: owns_def pfn_to_page_def dest: page_inv_start)
      have k: "kept bm s e = kept bm (s + 1) e" using b True unfolding kept_def conj_assoc [symmetric] split by auto
      have fp: "free_pages (pfn_to_page (s - nd_start_pfn st) st) 0 st = Inr st1" using st1(1) pg by simp
      from 1(1) [OF \<open>s \<noteq> e\<close> b _ fp st1(2) s1 AR tot] True obtain n' st' where
        r: "free_zone bm (s + 1) e (n + 1) st1 = Some (Inr (n', st'))" "owns Z st' (A \<union> kept bm (s + 1) e)"
          "same_layout st1 st'" by blast
      moreover have "free_zone bm s e n st = free_zone bm (s + 1) e (n + 1) st1"
        using b True fp \<open>s \<noteq> e\<close> by (subst free_zone.simps) simp
      ultimately show ?thesis using same_layout_trans [OF st1(3) r(3)] k by simp
    qed
  qed
qed

subsection \<open>A zone\<close>

lemma span_page_frames: "(\<Union>p\<in>{p. s \<le> p \<and> p < e}. span (p, 0)) = {unat s ..< unat e}"
proof
  show "{unat s ..< unat e} \<subseteq> (\<Union>p\<in>{p. s \<le> p \<and> p < e}. span (p, 0))"
  proof
    fix x assume x: "x \<in> {unat s ..< unat e}"
    then have "x < 2 ^ 32" using unat_lt_2p32 [of e] by (simp del: unat_lt_2p32)
    then have "unat (of_nat x :: u32) = x" by (simp add: unsigned_of_nat take_bit_nat_eq_self_iff)
    with x show "x \<in> (\<Union>p\<in>{p. s \<le> p \<and> p < e}. span (p, 0))"
      by (intro UN_I [of "of_nat x"]) (auto simp: word_le_nat_alt word_less_nat_alt)
  qed
qed (auto simp: word_le_nat_alt word_less_nat_alt)

lemma tiling_union:
  assumes "tiling U T" and "tiling V S" and "U \<inter> V = {}"
  shows "tiling (U \<union> V) (T \<union> S)"
proof -
  have "span a \<inter> span b = {}" if "a \<in> T" "b \<in> S" for a b
    using assms that unfolding tiling_def by blast
  note sep = this
  have ok: "blocks_ok T" "blocks_ok S" using assms(1,2) by (simp_all add: tiling_def)
  have "span b \<inter> span b' = {}" if "b \<in> T \<union> S" "b' \<in> T \<union> S" "b \<noteq> b'" for b b'
  proof -
    from that(1,2) consider "b \<in> T" "b' \<in> T" | "b \<in> S" "b' \<in> S" | "b \<in> T" "b' \<in> S" | "b \<in> S" "b' \<in> T"
      by blast
    then show ?thesis
      by cases (use blocks_ok_disjoint [OF ok(1), of b b'] blocks_ok_disjoint [OF ok(2), of b b']
          sep [of b b'] sep [of b' b] that(3) in blast)+
  qed
  moreover have "\<forall>(p, k) \<in> T \<union> S. aligned p k \<and> k < MAX_ORDER" using ok blocks_okD(1,2) by blast
  ultimately have "blocks_ok (T \<union> S)" unfolding blocks_ok_def by simp
  with assms(1,2) show ?thesis by (auto simp: tiling_def)
qed

lemma tiling_pages: "tiling {unat s ..< unat e} {(p, 0) | p. s \<le> p \<and> p < e}"
proof -
  have "\<Union>(span ` {(p, 0) | p. s \<le> p \<and> p < e}) = (\<Union>p\<in>{p. s \<le> p \<and> p < e}. span (p, 0))" by blast
  then show ?thesis
    unfolding tiling_def span_page_frames
    by (auto simp: blocks_ok_def aligned_def MAX_ORDER_def word_unat_eq_iff)
qed

lemma init_zone_result:
  assumes "owns Z st A" and "z \<notin> Z" and "s \<le> e" and "{unat s ..< unat e} \<inter> all_frames Z st = {}"
    and "\<And>p. s \<le> p \<Longrightarrow> p < e \<Longrightarrow> boot_mem_is_free bm (push_bit PAGE_SHIFT p) PAGE_SIZE \<noteq> None"
  shows "\<exists>n st'. init_zone bm z s e st = Some (Inr (n, st')) \<and> owns (insert z Z) st' (A \<union> kept bm s e) \<and>
    nd_zones st' = (nd_zones st)(z := \<lparr>z_start_pfn = s, z_end_pfn = e\<rparr>) \<and> pg_slab st' = pg_slab st \<and>
    nd_pages st' = nd_pages st"
proof -
  let ?st1 = "st\<lparr>nd_zones := (nd_zones st)(z := \<lparr>z_start_pfn = s, z_end_pfn = e\<rparr>)\<rparr>"
  define st2 where "st2 = init_areas z 0 ?st1"
  define st3 where "st3 = init_pages z s e st2"
  let ?N = "{(p, 0) | p. s \<le> p \<and> p < e} :: (u32 \<times> nat) set"
  from assms(1) obtain F0 where F0: "page_inv st Z F0 A {}" by (auto simp: owns_def)
  define F where "F = F0(z := (\<lambda>_. []))"
  have b0: "block_inv st Z (zone_blocks F0) A {}"
    and fam0: "list_family list_rep (pg_links st) (areas Z) (area_lists F0)"
    using F0 by (simp_all add: page_inv_def)
  have same: "zone_blocks F z' = zone_blocks F0 z'" if "z' \<in> Z" for z'
    using that assms(2) by (auto simp: F_def zone_blocks_def)
  have Bz: "zone_blocks F z = {}" by (simp add: F_def zone_blocks_def)
  note inv0 = block_invD [OF b0]
  have head_frames: "unat p \<in> all_frames Z st" if "(p, k) \<in> \<Union>(zone_blocks F0 ` Z) \<union> A" for p k
    using inv0(2) that span_head [of p k] unfolding tiling_def by blast
  have news: "unat p \<notin> all_frames Z st" if "s \<le> p" "p < e" for p
    using that assms(4) by (auto simp: word_le_nat_alt word_less_nat_alt)
  have "list_family list_rep (pg_links ?st1) (areas Z \<union> areas_upto z 0) (area_lists F)"
    by (rule list_family_cong [of _ _ _ "area_lists F0"])
      (use fam0 assms(2) in \<open>auto simp: areas_upto_def areas_def F_def\<close>)
  from init_areas_family [OF this assms(2)]
  have fam2: "list_family list_rep (pg_links st2) (areas (insert z Z)) (area_lists F)"
    and l2: "only_links ?st1 st2" unfolding st2_def by (simp_all add: F_def)
  from l2 have l2': "pg_zone st2 = pg_zone st" "pg_order st2 = pg_order st" "pg_slab st2 = pg_slab st"
    "nd_pages st2 = nd_pages st" "nd_zones st2 = nd_zones ?st1"
    by (simp_all add: only_links_def same_layout_def)
  have "Chain p \<notin> family_nodes (areas (insert z Z)) (area_lists F)" if "s \<le> p" "p < e" for p
    using news [OF that] head_frames [of p] same Bz unfolding chain_in_family by auto
  moreover have "nd_start_pfn st2 = 0"
    using l2 inv0(1) by (simp add: only_links_def same_layout_def zones_ok_def)
  ultimately have st3: "list_family list_rep (pg_links st3) (areas (insert z Z)) (area_lists F)"
    "nd_zones st3 = nd_zones ?st1" "nd_start_pfn st3 = 0" "pg_slab st3 = pg_slab st" "nd_pages st3 = nd_pages st"
    "pg_zone st3 = (\<lambda>p. if s \<le> p \<and> p < e then z else pg_zone st p)"
    "pg_order st3 = (\<lambda>p. if s \<le> p \<and> p < e then -1 else pg_order st p)"
    using init_pages_result [OF _ fam2 assms(3), of z] l2'(3-5)
    unfolding st3_def Let_def l2'(1,2) by simp_all
  have fr: "frames z st3 = {unat s ..< unat e}" "\<And>z'. z' \<in> Z \<Longrightarrow> frames z' st3 = frames z' st"
    using st3(2) assms(2) by (auto simp: frames_def)
  have all: "all_frames (insert z Z) st3 = {unat s ..< unat e} \<union> all_frames Z st"
    using fr by (simp add: all_frames_def)
  have zok: "zones_ok (insert z Z) st3"
  proof -
    have "frames z st3 \<inter> frames z' st3 = {}" if "z' \<in> Z" for z'
      using assms(4) that fr by (auto simp: all_frames_def)
    moreover have "pg_zone st3 p = z'" if "z' \<in> Z" "unat p \<in> frames z' st3" for z' p
      using zone_of_frame [OF inv0(1) that(1)] that news [of p] fr(2) st3(6) by (auto simp: all_frames_def)
    moreover have "pg_zone st3 p = z" if "unat p \<in> frames z st3" for p
      using that st3(6) fr(1) by (simp add: word_le_nat_alt word_less_nat_alt)
    ultimately show ?thesis using inv0(1) st3(3) fr(2) unfolding zones_ok_def by blast
  qed
  have un: "\<Union>(zone_blocks F ` insert z Z) \<union> (A \<union> ?N) \<union> {} = \<Union>(zone_blocks F0 ` Z) \<union> A \<union> {} \<union> ?N"
    using same Bz by auto
  have "tiling (all_frames (insert z Z) st3) (\<Union>(zone_blocks F ` insert z Z) \<union> (A \<union> ?N) \<union> {})"
    unfolding un all using tiling_union [OF inv0(2) tiling_pages [of s e]] assms(4)
    by (simp add: Un_commute Int_commute)
  moreover have "\<forall>z'\<in>insert z Z. \<forall>(p, k) \<in> zone_blocks F z'. span (p, k) \<subseteq> frames z' st3 \<and> pg_order st3 p = int k"
  proof (intro ballI, clarify)
    fix z' p k assume z': "z' \<in> insert z Z" and b: "(p, k) \<in> zone_blocks F z'"
    then have Z: "z' \<in> Z" using Bz by auto
    have m: "(p, k) \<in> zone_blocks F0 z'" using b same [OF Z] by simp
    then have "\<not> (s \<le> p \<and> p < e)" using news [of p] head_frames [of p k] Z by blast
    then show "span (p, k) \<subseteq> frames z' st3 \<and> pg_order st3 p = int k"
      using inv0(5,6) [OF Z m] fr(2) [OF Z] st3(7) by simp
  qed
  moreover have "\<forall>(p, k) \<in> A \<union> ?N. pg_order st3 p = - int k - 1"
    using inv0(7) news head_frames st3(7) by fastforce
  moreover have "\<forall>b \<in> A \<union> ?N. \<exists>z'\<in>insert z Z. span b \<subseteq> frames z' st3"
  proof
    fix b assume "b \<in> A \<union> ?N"
    then consider "b \<in> A" | p where "b = (p, 0)" "s \<le> p" "p < e" by blast
    then show "\<exists>z'\<in>insert z Z. span b \<subseteq> frames z' st3"
      using inv0(8) [of b] fr by cases (auto simp: word_le_nat_alt word_less_nat_alt)
  qed
  moreover have "\<forall>z'\<in>insert z Z. coalesced (zone_blocks F z')"
    using inv0(9) same Bz by (auto simp: coalesced_def)
  ultimately have "block_inv st3 (insert z Z) (zone_blocks F) (A \<union> ?N) {}"
    using zok by (simp add: block_inv_def)
  then have own: "owns (insert z Z) st3 (A \<union> ?N)" unfolding owns_def page_inv_def using st3(1) by blast
  have "A \<inter> ?N = {}" using news head_frames by blast
  from free_zone_result [OF own assms(3) this assms(5), of 0] show ?thesis
    using st3 unfolding init_zone_def Let_def st2_def [symmetric] st3_def [symmetric]
    by (auto simp: same_layout_def)
qed

subsection \<open>The node\<close>

lemma owns_nothing: "nd_start_pfn st = 0 \<Longrightarrow> owns {} st {}"
  by (auto simp: owns_def page_inv_def block_inv_def zones_ok_def list_family_def disjoint_lists_def
      areas_def tiling_def blocks_ok_def all_frames_def)

lemma is_free_returns:
  assumes "boot_mem_inv bm" and "separated (live (bm_memory bm))" and "p < 2 ^ 20"
  shows "boot_mem_is_free bm (push_bit PAGE_SHIFT p) PAGE_SIZE \<noteq> None"
  using is_free_at_0 [OF assms(1,2)] is_free_above_0 [OF assms(3), of bm] by (cases "p = 0") auto

text \<open>The frames that \<open>setup_page_alloc\<close> does not free: frame 0, when its page is usable.\<close>

definition frames_kept :: "boot_mem \<Rightarrow> (u32 \<times> nat) set" where
  "frames_kept bm = (if first_page_usable bm then {(0, 0)} else {})"

lemma frames_kept_subset: "frames_kept bm \<subseteq> {(0, 0)}"
  by (simp add: frames_kept_def)

lemma kept_frames:
  assumes "boot_mem_inv bm" and "separated (live (bm_memory bm))" and "e \<le> 2 ^ 20" and "0 < e" and "s \<le> e"
  shows "kept bm 0 s \<union> kept bm s e = frames_kept bm"
proof -
  have "kept bm 0 s \<union> kept bm s e =
      {(p, 0) | p. p < e \<and> boot_mem_is_free bm (push_bit PAGE_SHIFT p) PAGE_SIZE = Some False}"
    using assms(5) by (auto simp: kept_def not_le dest: less_le_trans)
  moreover have "p < e \<and> boot_mem_is_free bm (push_bit PAGE_SHIFT p) PAGE_SIZE = Some False \<longleftrightarrow>
      p = 0 \<and> first_page_usable bm" for p
  proof (cases "p = 0")
    case True
    then show ?thesis using is_free_at_0 [OF assms(1,2)] assms(4) by simp
  next
    case False
    then show ?thesis using is_free_above_0 [of p bm] less_le_trans [OF _ assms(3), of p] by auto
  qed
  ultimately show ?thesis by (auto simp: frames_kept_def)
qed

text \<open>Reserving a block behind the first page does not change whether that page is usable.\<close>

lemma first_page_reserve:
  assumes "boot_mem_inv bm" and "boot_mem_inv bm'" and "bm_memory bm' = bm_memory bm"
    and "covers (live (bm_reserved bm')) = covers (live (bm_reserved bm)) \<union> {a ..< e}" and "4096 \<le> unat a"
  shows "first_page_usable bm' \<longleftrightarrow> first_page_usable bm"
proof -
  have ne: "nonempty (live (bm_reserved bm))" "nonempty (live (bm_reserved bm'))"
    using assms(1,2) by (simp_all add: boot_mem_inv_def ranges_inv_def)
  have "4096 \<le> a" using assms(5) by (simp add: word_le_nat_alt)
  then have "{a ..< e} \<inter> {0 ..< 4096} = {}" by fastforce
  then have "clear (live (bm_reserved bm')) 0 4096 \<longleftrightarrow> clear (live (bm_reserved bm)) 0 4096"
    using clear_iff [OF ne(1), of 4096 0] clear_iff [OF ne(2), of 4096 0] assms(4) by auto
  then show ?thesis by (simp add: first_page_usable_def placed_def assms(3))
qed

lemma page_array_size:
  assumes "n < 2 ^ 20"
  shows "unat (n * SIZEOF_PAGE) = unat n * 20"
proof -
  have "unat n < 2 ^ 20" using assms by (simp add: word_less_nat_alt)
  then show ?thesis by (simp add: SIZEOF_PAGE_def unat_word_ariths)
qed

text \<open>
  The array of \<open>n\<close> page structures has a place: the array of reserved ranges takes one more, and some
  run of memory below the end of the linear map, from the second page on, has nothing reserved in it.
\<close>

definition array_room :: "boot_mem \<Rightarrow> nat \<Rightarrow> bool" where
  "array_room bm n \<longleftrightarrow> bm_size (bm_reserved bm) \<noteq> bm_capacity (bm_reserved bm) \<and>
     (\<exists>c. placed (live (bm_memory bm)) (live (bm_reserved bm)) 4096 (n * 20) 4096 0x38000000 c)"

text \<open>The array was placed at a virtual address: in a run of memory with nothing reserved in it.\<close>

definition array_at :: "boot_mem \<Rightarrow> nat \<Rightarrow> u32 \<Rightarrow> bool" where
  "array_at bm n v \<longleftrightarrow> (\<exists>a. v = virt_addr a \<and>
     placed (live (bm_memory bm)) (live (bm_reserved bm)) 4096 (n * 20) 4096 0x38000000 (unat a))"

lemma alloc_page_array_result:
  assumes "boot_mem_inv bm" and "separated (live (bm_memory bm))" and "0 < n" and "n < 2 ^ 20"
  shows "alloc_page_array bm n = Some (Inl (Panic ''alloc_page_array: allocation failed'')) \<and> \<not> array_room bm (unat n) \<or>
    (\<exists>a bm'. alloc_page_array bm n = Some (Inr (virt_addr a, bm')) \<and> boot_mem_inv bm' \<and>
      bm_memory bm' = bm_memory bm \<and> a \<noteq> 0x38000000 \<and>
      placed (live (bm_memory bm)) (live (bm_reserved bm)) 4096 (unat n * 20) 4096 0x38000000 (unat a) \<and>
      covers (live (bm_reserved bm')) = covers (live (bm_reserved bm)) \<union> {a ..< a + n * SIZEOF_PAGE})"
proof -
  have n: "unat n < 2 ^ 20" "0 < unat n" using assms(3,4) by (simp_all add: word_less_nat_alt)
  note sz = page_array_size [OF assms(4)]
  have "0 < n * SIZEOF_PAGE" using n(2) sz by (simp add: word_less_nat_alt)
  moreover have to: "push_bit PAGE_SHIFT LOWMEM_PAGE_FRAMES = (0x38000000 :: u32)"
    by (simp add: layout_values PAGE_SHIFT_def push_bit_eq_mult)
  moreover have "unat (0x38000000 :: u32) + unat PAGE_SIZE + unat (n * SIZEOF_PAGE) \<le> 2 ^ 32"
    using n(1) sz by (simp add: layout_values)
  moreover have "is_pow2 PAGE_SIZE" using is_pow2_4096 by (simp add: layout_values)
  ultimately obtain a bm' where
    alloc: "boot_mem_alloc bm (n * SIZEOF_PAGE) PAGE_SIZE PAGE_SIZE 0x38000000 = Some (a, bm')"
    "boot_mem_inv bm'" "bm_memory bm' = bm_memory bm"
    "a \<noteq> 0x38000000 \<Longrightarrow> placed (live (bm_memory bm)) (live (bm_reserved bm)) (unat PAGE_SIZE)
        (unat (n * SIZEOF_PAGE)) (unat PAGE_SIZE) (unat (0x38000000 :: u32)) (unat a) \<and>
      covers (live (bm_reserved bm')) = covers (live (bm_reserved bm)) \<union> {a ..< a + n * SIZEOF_PAGE}"
    "a = 0x38000000 \<Longrightarrow> bm_size (bm_reserved bm) = bm_capacity (bm_reserved bm) \<or>
      (\<forall>c. \<not> placed (live (bm_memory bm)) (live (bm_reserved bm)) (unat PAGE_SIZE)
        (unat (n * SIZEOF_PAGE)) (unat PAGE_SIZE) (unat (0x38000000 :: u32)) c)"
    using boot_mem_alloc_total [OF assms(1,2), of PAGE_SIZE "n * SIZEOF_PAGE" "0x38000000" PAGE_SIZE]
    by metis
  moreover have "unat PAGE_SIZE = 4096" "unat (0x38000000 :: u32) = 0x38000000" by (simp_all add: layout_values)
  ultimately show ?thesis unfolding alloc_page_array_def Let_def to sz array_room_def
    by (cases "a = 0x38000000") auto
qed

lemma setup_page_alloc_result:
  assumes "boot_mem_inv bm" and "separated (live (bm_memory bm))"
    and "0 < n" and "n < 2 ^ 20" and "lowmem \<le> n"
  shows "setup_page_alloc bm lowmem n st = Some (Inl (Panic ''alloc_page_array: allocation failed'')) \<and>
      \<not> array_room bm (unat n) \<or>
    (\<exists>st' bm' A. setup_page_alloc bm lowmem n st = Some (Inr (st', bm')) \<and>
      owns {ZONE_NORMAL, ZONE_HIGH} st' A \<and> A = frames_kept bm \<and>
      frames ZONE_NORMAL st' = {0 ..< unat lowmem} \<and> frames ZONE_HIGH st' = {unat lowmem ..< unat n} \<and>
      boot_mem_inv bm' \<and> bm_memory bm' = bm_memory bm \<and> array_at bm (unat n) (nd_pages st'))"
  (is "?panic \<or> ?done")
proof (cases ?panic)
  case True
  then show ?thesis ..
next
  case np: False
  let ?pfns = "\<lambda>z. case z of ZONE_NORMAL \<Rightarrow> lowmem | ZONE_HIGH \<Rightarrow> n"
  have "alloc_page_array bm n \<noteq> Some (Inl (Panic ''alloc_page_array: allocation failed'')) \<or> array_room bm (unat n)"
    using np by (auto simp: setup_page_alloc_def init_node_def)
  with alloc_page_array_result [OF assms(1-4)] obtain a bm' where
    arr: "alloc_page_array bm n = Some (Inr (a, bm'))" and inv: "boot_mem_inv bm'"
    and mem: "bm_memory bm' = bm_memory bm" and kf: "frames_kept bm' = frames_kept bm"
    and at: "array_at bm (unat n) a"
    using first_page_reserve [OF assms(1)] unfolding array_at_def
    by (fastforce simp: placed_def frames_kept_def)
  let ?st = "st\<lparr>nd_start_pfn := 0, nd_end_pfn := n, nd_pages := a\<rparr>"
  have sep: "separated (live (bm_memory bm'))" using assms(2) mem by simp
  have ret: "boot_mem_is_free bm' (push_bit PAGE_SHIFT p) PAGE_SIZE \<noteq> None" if "p < n" for p
    using is_free_returns [OF inv sep] that assms(4) by (meson less_trans)
  have "owns {} ?st {}" by (rule owns_nothing) simp
  from init_zone_result [OF this, of ZONE_NORMAL 0 lowmem bm'] ret assms(5) obtain k1 st1 where
    z1: "init_zone bm' ZONE_NORMAL 0 lowmem ?st = Some (Inr (k1, st1))"
      "owns {ZONE_NORMAL} st1 (kept bm' 0 lowmem)"
      "nd_zones st1 = (nd_zones ?st)(ZONE_NORMAL := \<lparr>z_start_pfn = 0, z_end_pfn = lowmem\<rparr>)" "nd_pages st1 = a"
    by (auto simp: all_frames_def dest: less_le_trans)
  have "{unat lowmem ..< unat n} \<inter> all_frames {ZONE_NORMAL} st1 = {}"
    using z1(3) by (auto simp: all_frames_def frames_def)
  from init_zone_result [OF z1(2) _ assms(5) this, of ZONE_HIGH bm'] ret z1(4) obtain k2 st2 where
    z2: "init_zone bm' ZONE_HIGH lowmem n st1 = Some (Inr (k2, st2))"
      "owns {ZONE_HIGH, ZONE_NORMAL} st2 (kept bm' 0 lowmem \<union> kept bm' lowmem n)"
      "nd_zones st2 = (nd_zones st1)(ZONE_HIGH := \<lparr>z_start_pfn = lowmem, z_end_pfn = n\<rparr>)" "nd_pages st2 = a"
    by auto
  have "setup_page_alloc bm lowmem n st = Some (Inr (st2, bm'))"
    using arr z1(1) z2(1) by (simp add: setup_page_alloc_def init_node_def)
  moreover have "kept bm' 0 lowmem \<union> kept bm' lowmem n = frames_kept bm"
    using kept_frames [OF inv sep _ assms(3,5)] assms(4) kf by simp
  moreover have "frames ZONE_NORMAL st2 = {0 ..< unat lowmem}" "frames ZONE_HIGH st2 = {unat lowmem ..< unat n}"
    using z1(3) z2(3) by (simp_all add: frames_def)
  moreover have "owns {ZONE_NORMAL, ZONE_HIGH} st2 (kept bm' 0 lowmem \<union> kept bm' lowmem n)"
    using z2(2) by (simp add: insert_commute)
  moreover have "array_at bm (unat n) (nd_pages st2)" using at z2(4) by simp
  ultimately have ?done using inv mem by blast
  then show ?thesis ..
qed

text \<open>
  C18: \<open>setup_page_alloc\<close> returns. Either the boot allocator has no room for the array of page
  structures and the assertion stops the boot, or the allocator's invariant holds for the two zones
  \<open>[0, lowmem)\<close> and \<open>[lowmem, frames)\<close> and every frame from 1 on is free, whatever the boot
  allocator has reserved: the frames of the kernel image and of the page array itself are handed
  out later like any others. Frame 0 is free exactly when its page is not usable memory.
\<close>

theorem setup_page_alloc_frees_all:
  assumes "boot_mem_inv bm" and "separated (live (bm_memory bm))"
    and "0 < n" and "n < 2 ^ 20" and "lowmem \<le> n"
  shows "setup_page_alloc bm lowmem n st = Some (Inl (Panic ''alloc_page_array: allocation failed'')) \<and>
      \<not> array_room bm (unat n) \<or>
    (\<exists>st' bm' A. setup_page_alloc bm lowmem n st = Some (Inr (st', bm')) \<and>
      owns {ZONE_NORMAL, ZONE_HIGH} st' A \<and> A = frames_kept bm \<and>
      {1 ..< unat lowmem} \<subseteq> free_frames ZONE_NORMAL st' A \<and>
      {unat lowmem ..< unat n} - {0} \<subseteq> free_frames ZONE_HIGH st' A)"
proof -
  have low: "{1 ..< x} \<subseteq> {0 ..< x} - \<Union>(span ` A)" "{y ..< x} - {0} \<subseteq> {y ..< x} - \<Union>(span ` A)"
    if "A \<subseteq> {(0, 0)}" for A x y
    using that by (auto simp: subset_singleton_iff)
  from setup_page_alloc_result [OF assms, of st] show ?thesis
  proof
    assume "\<exists>st' bm' A. setup_page_alloc bm lowmem n st = Some (Inr (st', bm')) \<and>
      owns {ZONE_NORMAL, ZONE_HIGH} st' A \<and> A = frames_kept bm \<and>
      frames ZONE_NORMAL st' = {0 ..< unat lowmem} \<and> frames ZONE_HIGH st' = {unat lowmem ..< unat n} \<and>
      boot_mem_inv bm' \<and> bm_memory bm' = bm_memory bm \<and> array_at bm (unat n) (nd_pages st')"
    then obtain st' bm' A where r: "setup_page_alloc bm lowmem n st = Some (Inr (st', bm'))"
      "owns {ZONE_NORMAL, ZONE_HIGH} st' A" "A = frames_kept bm" "frames ZONE_NORMAL st' = {0 ..< unat lowmem}"
      "frames ZONE_HIGH st' = {unat lowmem ..< unat n}" by blast
    have "A \<subseteq> {(0, 0)}" using frames_kept_subset [of bm] r(3) by simp
    from low [OF this] have "{1 ..< unat lowmem} \<subseteq> free_frames ZONE_NORMAL st' A"
      "{unat lowmem ..< unat n} - {0} \<subseteq> free_frames ZONE_HIGH st' A"
      by (simp_all only: free_frames_def r(4,5))
    with r show ?thesis by blast
  qed (rule disjI1)
qed

theorem setup_page_alloc_frees_all_witness:
  "(0x1000 :: u32) \<in> covers (live (bm_reserved sample_bootmem)) \<and>
   (\<exists>st' bm' A. setup_page_alloc sample_bootmem 8 8 sample_pages = Some (Inr (st', bm')) \<and>
     1 \<in> free_frames ZONE_NORMAL st' A)"
proof -
  have "(0x1000 :: u32) \<in> covers (live (bm_reserved sample_bootmem))"
    by (simp add: sample_bootmem_def live_def range_addrs_def)
  moreover have "array_room sample_bootmem 8"
    unfolding array_room_def
    by (intro conjI exI [of _ "0x2000"])
      (simp_all add: sample_bootmem_def live_def placed_def clear_def)
  ultimately show ?thesis
    using setup_page_alloc_frees_all [OF sample_bootmem_inv, of 8 8 sample_pages] by fastforce
qed

end
