(* ===== verification/Setup_Memory.thy ===== *)
theory Setup_Memory
  imports Setup_Page_Alloc Utility
begin

text \<open>
  \<open>kernel/arch/x86/setup_memory.c\<close> and \<open>multiboot.h\<close>: the memory map of the boot loader is walked
  entry by entry in memory, the regions go to the boot allocator, the kernel image is reserved, the
  page directory is switched and the page allocator is set up. The addresses of the linker's symbols
  are parameters. A page directory is an array of words, \<open>CR3\<close> a field of the state. The walk of the
  map is \<open>None\<close> when it does not end (an entry whose size field is \<open>2 ^ 32 - 4\<close> leads to itself).
\<close>

subsection \<open>The code\<close>

definition MULTIBOOT_AVAILABLE :: u32 where "MULTIBOOT_AVAILABLE = 1"

text \<open>The fields of the packed structures \<open>multiboot_info\<close> and \<open>multiboot_mmap_entry\<close>.\<close>

definition mbi_mmap_length :: "memory \<Rightarrow> u32 \<Rightarrow> u32" where "mbi_mmap_length m mbi = read32 m (mbi + 44)"
definition mbi_mmap_addr :: "memory \<Rightarrow> u32 \<Rightarrow> u32" where "mbi_mmap_addr m mbi = read32 m (mbi + 48)"

definition mmap_size :: "memory \<Rightarrow> u32 \<Rightarrow> u32" where "mmap_size m entry = read32 m entry"
definition mmap_address :: "memory \<Rightarrow> u32 \<Rightarrow> u64" where "mmap_address m entry = read64 m (entry + 4)"
definition mmap_len :: "memory \<Rightarrow> u32 \<Rightarrow> u64" where "mmap_len m entry = read64 m (entry + 12)"
definition mmap_type :: "memory \<Rightarrow> u32 \<Rightarrow> u32" where "mmap_type m entry = read32 m (entry + 20)"

record memory_setup =
  ms_bootmem :: boot_mem
  ms_page_frame_count :: u32
  ms_lowmem_page_frame_count :: u32
  ms_initial_page_dir :: "nat \<Rightarrow> u32"
  ms_swapper_page_dir :: "nat \<Rightarrow> u32"
  ms_cr3 :: u32
  ms_pages :: page_state

partial_function (option) mmap_loop :: "memory \<Rightarrow> u32 \<Rightarrow> u32 \<Rightarrow> u32 \<Rightarrow> boot_mem \<Rightarrow> (u32 \<times> boot_mem) option" where
  "mmap_loop m entry mmap_end phys_mem_size bm =
     (if entry < mmap_end then
        (let next = entry + (mmap_size m entry + 4)
         in if mmap_address m entry > ucast PHYS_MEM_MAX then mmap_loop m next mmap_end phys_mem_size bm
            else
              (let first = ucast (mmap_address m entry) :: u32;
                   last = ucast (minu (ucast first + mmap_len m entry) (ucast PHYS_MEM_MAX)) :: u32;
                   type = mmap_type m entry
               in if type = MULTIBOOT_AVAILABLE then
                    mmap_loop m next mmap_end (if last > phys_mem_size then last else phys_mem_size)
                      (snd (boot_mem_add bm first last))
                  else mmap_loop m next mmap_end phys_mem_size (snd (boot_mem_reserve bm first last))))
      else Some (phys_mem_size, bm))"

declare mmap_loop.simps [code]

definition init_phys_mem_map :: "memory \<Rightarrow> u32 \<Rightarrow> memory_setup \<Rightarrow> memory_setup option" where
  "init_phys_mem_map m mbi st =
     (let entry = mbi_mmap_addr m mbi;
          mmap_end = entry + mbi_mmap_length m mbi
      in case mmap_loop m entry mmap_end 0 (ms_bootmem st) of
           None \<Rightarrow> None
         | Some (phys_mem_size, bm) \<Rightarrow>
             (let st1 = st\<lparr>ms_bootmem := bm, ms_page_frame_count := drop_bit PAGE_SHIFT phys_mem_size\<rparr>
              in Some (st1\<lparr>ms_lowmem_page_frame_count :=
                   ucast (minu (ucast (ms_page_frame_count st1)) (ucast LOWMEM_PAGE_FRAMES))\<rparr>)))"

definition remap_lower_memory :: "u32 \<Rightarrow> memory_setup \<Rightarrow> memory_setup" where
  "remap_lower_memory swapper st =
     (let n = unat LOWMEM_PAGE_DIR;
          dir = (\<lambda>i. if n \<le> i \<and> i < n + unat KERNEL_PAGE_DIRS then ms_initial_page_dir st i
                     else ms_swapper_page_dir st i)
      in st\<lparr>ms_swapper_page_dir := dir, ms_cr3 := phys_addr swapper\<rparr>)"

definition reserve_kernel_memory :: "u32 \<Rightarrow> u32 \<Rightarrow> memory_setup \<Rightarrow> memory_setup" where
  "reserve_kernel_memory kernel_begin kernel_end st =
     (let kern_addr = phys_addr kernel_begin; kern_end = phys_addr kernel_end
      in st\<lparr>ms_bootmem := snd (boot_mem_reserve (ms_bootmem st) kern_addr kern_end)\<rparr>)"

definition page_frames :: "memory_setup \<Rightarrow> u32" where
  "page_frames st = ms_page_frame_count st"

definition lowmem_page_frames :: "memory_setup \<Rightarrow> u32" where
  "lowmem_page_frames st = ms_lowmem_page_frame_count st"

definition setup_memory :: "u32 \<Rightarrow> u32 \<Rightarrow> u32 \<Rightarrow> memory \<Rightarrow> u32 \<Rightarrow> memory_setup \<Rightarrow> memory_setup outcome option" where
  "setup_memory kernel_begin kernel_end swapper m mbi st =
     (case init_phys_mem_map m mbi st of
        None \<Rightarrow> None
      | Some st1 \<Rightarrow>
          (let st2 = reserve_kernel_memory kernel_begin kernel_end st1;
               st3 = remap_lower_memory swapper st2
           in case setup_page_alloc (ms_bootmem st3) (lowmem_page_frames st3) (page_frames st3) (ms_pages st3) of
                None \<Rightarrow> None
              | Some (Inl e) \<Rightarrow> Some (Inl e)
              | Some (Inr (pages, bm)) \<Rightarrow> Some (Inr (st3\<lparr>ms_pages := pages, ms_bootmem := bm\<rparr>))))"

subsection \<open>The memory map as a list of regions\<close>

text \<open>
  A region is its address, its length and its type, as numbers. \<open>mmap_at\<close> says that the entries
  from \<open>a\<close> on are these regions and that the walk leaves the map behind the last one.
\<close>

type_synonym region = "nat \<times> nat \<times> u32"

fun mmap_at :: "memory \<Rightarrow> u32 \<Rightarrow> u32 \<Rightarrow> region list \<Rightarrow> bool" where
  "mmap_at m a e [] \<longleftrightarrow> \<not> a < e"
| "mmap_at m a e ((addr, len, type) # rs) \<longleftrightarrow> a < e \<and> unat (mmap_address m a) = addr \<and>
     unat (mmap_len m a) = len \<and> mmap_type m a = type \<and> addr + len < 2 ^ 64 \<and>
     mmap_at m (a + (mmap_size m a + 4)) e rs"

definition region_end :: "region \<Rightarrow> nat" where
  "region_end r = (case r of (addr, len, type) \<Rightarrow> min (addr + len) (2 ^ 32 - 1))"

definition usable :: "region \<Rightarrow> bool" where
  "usable r \<longleftrightarrow> fst r < 2 ^ 32 \<and> snd (snd r) = MULTIBOOT_AVAILABLE"

definition region_addrs :: "region \<Rightarrow> u32 set" where
  "region_addrs r = {x. fst r \<le> unat x \<and> unat x < region_end r}"

definition take_region :: "region \<Rightarrow> boot_mem \<Rightarrow> boot_mem" where
  "take_region r bm =
     (if 2 ^ 32 \<le> fst r then bm
      else if usable r then snd (boot_mem_add bm (of_nat (fst r)) (of_nat (region_end r)))
      else snd (boot_mem_reserve bm (of_nat (fst r)) (of_nat (region_end r))))"

definition memory_size :: "region list \<Rightarrow> nat" where
  "memory_size rs = fold (\<lambda>r n. if usable r then max n (region_end r) else n) rs 0"

lemma region_end_bound: "region_end r < 2 ^ 32"
  by (cases r) (simp add: region_end_def)

lemma mmap_loop_step:
  assumes "mmap_at m a e ((addr, len, type) # rs)"
  shows "mmap_loop m a e n bm =
    mmap_loop m (a + (mmap_size m a + 4)) e
      (if usable (addr, len, type) then of_nat (max (unat n) (region_end (addr, len, type))) else n)
      (take_region (addr, len, type) bm)"
proof -
  let ?r = "(addr, len, type)"
  obtain E where E: "\<And>t. region_end (addr, len, t) = E" by (simp add: region_end_def)
  from assms have a: "a < e" "unat (mmap_address m a) = addr" "unat (mmap_len m a) = len"
    "mmap_type m a = type" "addr + len < 2 ^ 64" by simp_all
  have phys: "unat (ucast PHYS_MEM_MAX :: u64) = 2 ^ 32 - 1" by (simp add: PHYS_MEM_MAX_def unsigned_ucast_eq)
  show ?thesis
  proof (cases "2 ^ 32 \<le> addr")
    case True
    then have "mmap_address m a > ucast PHYS_MEM_MAX" by (simp add: word_less_nat_alt a(2) phys)
    then show ?thesis using a(1) True
      by (subst mmap_loop.simps) (simp add: Let_def take_region_def usable_def)
  next
    case False
    then have notgt: "\<not> mmap_address m a > ucast PHYS_MEM_MAX" by (simp add: word_less_nat_alt a(2) phys)
    have first: "ucast (mmap_address m a) = (of_nat addr :: u32)" by (simp flip: a(2))
    have f64: "(ucast (of_nat addr :: u32) :: u64) = mmap_address m a"
      using False a(2) by (simp add: word_unat_eq_iff unsigned_ucast_eq unat_of_nat take_bit_nat_eq_self)
    have sum: "unat (mmap_address m a + mmap_len m a) = addr + len"
      using a(5) by (subst unat_plus_no_wrap) (simp_all add: a(2,3))
    have end64: "unat (minu (mmap_address m a + mmap_len m a) (ucast PHYS_MEM_MAX)) = E"
      unfolding E [of type, symmetric] by (simp add: minu_def region_end_def word_less_nat_alt word_le_nat_alt sum phys min_def)
    have last: "ucast (minu (mmap_address m a + mmap_len m a) (ucast PHYS_MEM_MAX)) = (of_nat E :: u32)"
      by (simp flip: end64)
    have mx: "n < of_nat E \<Longrightarrow> max (unat n) E = E" "\<not> n < of_nat E \<Longrightarrow> max (unat n) E = unat n"
      using region_end_bound [of ?r] unfolding E by (auto simp: word_less_nat_alt unat_of_nat max_def)
    show ?thesis using a(1,4) False notgt
      by (subst mmap_loop.simps) (simp add: Let_def first f64 last mx take_region_def usable_def E)
  qed
qed

lemma memory_size_fold:
  "fold (\<lambda>r n. if usable r then max n (region_end r) else n) rs n < 2 ^ 32" if "n < 2 ^ 32"
  using that region_end_bound by (induction rs arbitrary: n) auto

lemma mmap_loop_regions:
  assumes "mmap_at m a e rs" and "n < 2 ^ 32"
  shows "mmap_loop m a e (of_nat n) bm =
    Some (of_nat (fold (\<lambda>r n. if usable r then max n (region_end r) else n) rs n), fold take_region rs bm)"
  using assms
proof (induction rs arbitrary: a n bm)
  case Nil
  then show ?case by (subst mmap_loop.simps) simp
next
  case (Cons r rs)
  obtain addr len type where r: "r = (addr, len, type)" by (cases r)
  have un: "unat (of_nat n :: u32) = n" using Cons.prems(2) by (simp add: unat_of_nat)
  have rest: "mmap_at m (a + (mmap_size m a + 4)) e rs" using Cons.prems(1) r by simp
  have step: "mmap_loop m a e (of_nat n) bm = mmap_loop m (a + (mmap_size m a + 4)) e
      (of_nat (if usable r then max n (region_end r) else n)) (take_region r bm)"
    using mmap_loop_step [of m a e addr len type rs "of_nat n" bm] Cons.prems(1) un r by simp
  have "(if usable r then max n (region_end r) else n) < 2 ^ 32"
    using Cons.prems(2) region_end_bound [of r] by simp
  from Cons.IH [OF rest this, of "take_region r bm"] step show ?case by simp
qed


lemma unat_inverse: "of_nat (unat w) = w"
  by simp

lemma region_word_range:
  assumes "fst r < 2 ^ 32"
  shows "{of_nat (fst r) ..< of_nat (region_end r)} = region_addrs r"
  using assms region_end_bound [of r]
  by (auto simp: region_addrs_def word_le_nat_alt word_less_nat_alt unat_of_nat)

lemma take_region_facts:
  assumes "boot_mem_inv bm"
  shows "boot_mem_inv (take_region r bm)" (is ?inv)
    and "covers (live (bm_memory (take_region r bm))) \<subseteq>
      covers (live (bm_memory bm)) \<union> (if usable r then region_addrs r else {})" (is ?cov)
    and "separated (live (bm_memory bm)) \<Longrightarrow>
      usable r \<longrightarrow> covers (live (bm_memory bm)) \<inter> region_addrs r = {} \<Longrightarrow>
      separated (live (bm_memory (take_region r bm)))" (is "_ \<Longrightarrow> _ \<Longrightarrow> ?sep")
proof -
  let ?b = "of_nat (fst r) :: u32" and ?e = "of_nat (region_end r) :: u32"
  have "?inv \<and> ?cov \<and> (separated (live (bm_memory bm)) \<longrightarrow>
      (usable r \<longrightarrow> covers (live (bm_memory bm)) \<inter> region_addrs r = {}) \<longrightarrow> ?sep)"
  proof -
    consider "2 ^ 32 \<le> fst r" | "fst r < 2 ^ 32" "\<not> usable r" | "fst r < 2 ^ 32" "usable r" by linarith
    then show ?thesis
    proof cases
      case 1
      then show ?thesis using assms by (auto simp: take_region_def usable_def)
    next
      case 2
      obtain rc bm' where r: "boot_mem_reserve bm ?b ?e = (rc, bm')" by fastforce
      then have "take_region r bm = bm'" using 2 by (simp add: take_region_def)
      with boot_mem_reserve_result [OF assms r] 2 show ?thesis by simp
    next
      case 3
      obtain rc t where t: "boot_mem_add_range (bm_memory bm) ?b ?e = (rc, t)" by fastforce
      then have eq: "take_region r bm = bm\<lparr>bm_memory := t\<rparr>"
        using 3 by (simp add: take_region_def boot_mem_add_def)
      have inv: "ranges_inv (bm_memory bm)" using assms by (simp add: boot_mem_inv_def)
      note res = add_range_inv [OF inv t]
      have "covers (live t) \<subseteq> covers (live (bm_memory bm)) \<union> region_addrs r"
        using res(2,3) region_word_range [OF 3(1)] by (cases "rc = 0") auto
      moreover have "separated (live t)" if "separated (live (bm_memory bm))"
        "covers (live (bm_memory bm)) \<inter> region_addrs r = {}"
        using add_range_separated [OF inv that(1) _ t] that(2) region_word_range [OF 3(1)] by simp
      ultimately show ?thesis using assms res(1) 3(2) by (simp add: eq boot_mem_inv_def)
    qed
  qed
  then show ?inv ?cov "separated (live (bm_memory bm)) \<Longrightarrow>
      usable r \<longrightarrow> covers (live (bm_memory bm)) \<inter> region_addrs r = {} \<Longrightarrow> ?sep" by blast+
qed

text \<open>The usable regions of the map do not overlap.\<close>

definition apart_regions :: "region list \<Rightarrow> bool" where
  "apart_regions rs \<longleftrightarrow> sorted_wrt (\<lambda>r s. usable r \<longrightarrow> usable s \<longrightarrow> region_addrs r \<inter> region_addrs s = {}) rs"

lemma take_regions:
  assumes "boot_mem_inv bm" and "separated (live (bm_memory bm))" and "apart_regions rs"
    and "\<And>r. r \<in> set rs \<Longrightarrow> usable r \<Longrightarrow> covers (live (bm_memory bm)) \<inter> region_addrs r = {}"
  shows "boot_mem_inv (fold take_region rs bm) \<and> separated (live (bm_memory (fold take_region rs bm)))"
  using assms
proof (induction rs arbitrary: bm)
  case (Cons r rs)
  note f = take_region_facts [OF Cons.prems(1), of r]
  have ap: "apart_regions rs" "\<And>s. s \<in> set rs \<Longrightarrow> usable r \<Longrightarrow> usable s \<Longrightarrow> region_addrs r \<inter> region_addrs s = {}"
    using Cons.prems(3) by (auto simp: apart_regions_def)
  have sep: "separated (live (bm_memory (take_region r bm)))"
    using f(3) [OF Cons.prems(2)] Cons.prems(4) [of r] by simp
  have "covers (live (bm_memory (take_region r bm))) \<inter> region_addrs s = {}" if "s \<in> set rs" "usable s" for s
    using f(2) ap(2) [OF that(1) _ that(2)] Cons.prems(4) [of s] that by (cases "usable r") fastforce+
  with Cons.IH [OF f(1) sep ap(1)] show ?case by simp
qed simp

lemma init_phys_mem_map_result:
  assumes "mmap_at m (mbi_mmap_addr m mbi) (mbi_mmap_addr m mbi + mbi_mmap_length m mbi) rs"
  shows "init_phys_mem_map m mbi st = Some (st\<lparr>ms_bootmem := fold take_region rs (ms_bootmem st),
      ms_page_frame_count := of_nat (memory_size rs div 4096),
      ms_lowmem_page_frame_count := of_nat (min (memory_size rs div 4096) 0x38000)\<rparr>)"
proof -
  let ?n = "memory_size rs"
  have n: "?n < 2 ^ 32" unfolding memory_size_def by (rule memory_size_fold) simp
  have loop: "mmap_loop m (mbi_mmap_addr m mbi) (mbi_mmap_addr m mbi + mbi_mmap_length m mbi) 0 (ms_bootmem st) =
      Some (of_nat ?n, fold take_region rs (ms_bootmem st))"
    using mmap_loop_regions [OF assms, of 0] by (simp add: memory_size_def)
  have "unat (drop_bit PAGE_SHIFT (of_nat ?n :: u32)) = ?n div 4096"
    using n by (simp add: PAGE_SHIFT_def drop_bit_eq_div unat_div unat_of_nat)
  then have frames: "drop_bit PAGE_SHIFT (of_nat ?n :: u32) = of_nat (?n div 4096)"
    by (metis unat_inverse)
  have small: "?n div 4096 < 2 ^ 20" using n by (simp add: less_mult_imp_div_less)
  have "unat (ucast (minu (ucast (of_nat (?n div 4096) :: u32)) (ucast LOWMEM_PAGE_FRAMES)) :: u32) =
      min (?n div 4096) 0x38000"
    using small by (simp add: minu_def layout_values unsigned_ucast_eq unat_of_nat take_bit_nat_eq_self
        word_less_nat_alt word_le_nat_alt min_def)
  then have "ucast (minu (ucast (of_nat (?n div 4096) :: u32)) (ucast LOWMEM_PAGE_FRAMES)) =
      (of_nat (min (?n div 4096) 0x38000) :: u32)"
    by (metis unat_inverse)
  with loop frames show ?thesis by (simp add: init_phys_mem_map_def Let_def)
qed


subsection \<open>The whole set-up\<close>

lemma reserve_keeps:
  assumes "boot_mem_inv bm"
  shows "boot_mem_inv (snd (boot_mem_reserve bm b e))"
    and "bm_memory (snd (boot_mem_reserve bm b e)) = bm_memory bm"
  using boot_mem_reserve_result [OF assms, of b e "fst (boot_mem_reserve bm b e)"] by simp_all

text \<open>
  The boot allocator when the regions of the map have been taken and the kernel image, from \<open>kb\<close> to
  \<open>ke\<close>, is reserved; whether there is room for the page structures then, and the frames that stay out
  of the page allocator.
\<close>

definition memory_taken :: "u32 \<Rightarrow> u32 \<Rightarrow> region list \<Rightarrow> boot_mem" where
  "memory_taken kb ke rs =
     snd (boot_mem_reserve (fold take_region rs boot_mem_init) (phys_addr kb) (phys_addr ke))"

definition memory_room :: "u32 \<Rightarrow> u32 \<Rightarrow> region list \<Rightarrow> bool" where
  "memory_room kb ke rs \<longleftrightarrow> array_room (memory_taken kb ke rs) (memory_size rs div 4096)"

definition memory_kept :: "u32 \<Rightarrow> u32 \<Rightarrow> region list \<Rightarrow> (u32 \<times> nat) set" where
  "memory_kept kb ke rs = frames_kept (memory_taken kb ke rs)"

lemma memory_kept_subset: "memory_kept kb ke rs \<subseteq> {(0, 0)}"
  unfolding memory_kept_def by (rule frames_kept_subset)

lemma setup_memory_result:
  assumes "mmap_at m (mbi_mmap_addr m mbi) (mbi_mmap_addr m mbi + mbi_mmap_length m mbi) rs"
    and "apart_regions rs" and "ms_bootmem st = boot_mem_init" and "4096 \<le> memory_size rs"
  shows "setup_memory kb ke swapper m mbi st = Some (Inl (Panic ''alloc_page_array: allocation failed'')) \<and>
      \<not> memory_room kb ke rs \<or>
    (\<exists>st' A. setup_memory kb ke swapper m mbi st = Some (Inr st') \<and>
      ms_cr3 st' = swapper - PAGE_OFFSET \<and>
      (\<forall>i. ms_swapper_page_dir st' i =
        (if 768 \<le> i \<and> i < 1024 then ms_initial_page_dir st i else ms_swapper_page_dir st i)) \<and>
      owns {ZONE_NORMAL, ZONE_HIGH} (ms_pages st') A \<and> A = memory_kept kb ke rs \<and>
      frames ZONE_NORMAL (ms_pages st') = {0 ..< min (memory_size rs div 4096) 0x38000} \<and>
      frames ZONE_HIGH (ms_pages st') =
        {min (memory_size rs div 4096) 0x38000 ..< memory_size rs div 4096} \<and>
      array_at (memory_taken kb ke rs) (memory_size rs div 4096) (nd_pages (ms_pages st')))"
proof -
  let ?n = "memory_size rs div 4096"
  let ?bm = "fold take_region rs boot_mem_init"
  let ?bk = "snd (boot_mem_reserve ?bm (phys_addr kb) (phys_addr ke))"
  have "separated (live (bm_memory boot_mem_init))" and "covers (live (bm_memory boot_mem_init)) = {}"
    by (simp_all add: boot_mem_init_def empty_type_def live_def separated_def covers_def)
  with take_regions [OF boot_mem_inv_init _ assms(2)]
  have bm: "boot_mem_inv ?bm" "separated (live (bm_memory ?bm))" by simp_all
  note keep = reserve_keeps [OF bm(1), of "phys_addr kb" "phys_addr ke"]
  have sep: "separated (live (bm_memory ?bk))" using keep(2) bm(2) by simp
  have "memory_size rs < 2 ^ 32" unfolding memory_size_def by (rule memory_size_fold) simp
  then have n: "?n < 2 ^ 20" "0 < ?n" using assms(4) by (simp_all add: less_mult_imp_div_less div_greater_zero_iff)
  have un: "unat (of_nat ?n :: u32) = ?n" using n(1) by (simp add: unat_of_nat)
  have ul: "unat (of_nat (min ?n 0x38000) :: u32) = min ?n 0x38000" using n(1) by (simp add: unat_of_nat)
  have w: "0 < (of_nat ?n :: u32)" "(of_nat ?n :: u32) < 2 ^ 20" "of_nat (min ?n 0x38000) \<le> (of_nat ?n :: u32)"
    using n by (simp_all add: word_less_nat_alt word_le_nat_alt un ul)
  from setup_page_alloc_result [OF keep(1) sep w, of "ms_pages st"] show ?thesis
    unfolding un ul
    by (elim disjE exE conjE, simp_all add: setup_memory_def init_phys_mem_map_result [OF assms(1)]
        assms(3) memory_room_def memory_kept_def memory_taken_def reserve_kernel_memory_def remap_lower_memory_def page_frames_def lowmem_page_frames_def
        phys_addr_def layout_values Let_def)
qed

subsection \<open>An instance\<close>

text \<open>One usable region of one megabyte and a reserved one behind it.\<close>

definition sample_map :: memory where
  "sample_map = (\<lambda>_. 0)(0x902C := 48, 0x9031 := 0xA0, 0xA000 := 20, 0xA00E := 0x10, 0xA014 := 1,
     0xA018 := 20, 0xA01E := 0x10, 0xA025 := 0x10, 0xA02C := 2)"

definition sample_regions :: "region list" where
  "sample_regions = [(0, 0x100000, 1), (0x100000, 0x1000, 2)]"

definition sample_setup :: memory_setup where
  "sample_setup = \<lparr>ms_bootmem = boot_mem_init, ms_page_frame_count = 0, ms_lowmem_page_frame_count = 0,
     ms_initial_page_dir = (\<lambda>i. of_nat i), ms_swapper_page_dir = (\<lambda>_. 0), ms_cr3 = 0,
     ms_pages = sample_pages\<rparr>"

lemma sample_map_fields:
  "mbi_mmap_length sample_map 0x9000 = 48" "mbi_mmap_addr sample_map 0x9000 = 0xA000"
  "mmap_size sample_map 0xA000 = 20" "mmap_address sample_map 0xA000 = 0"
  "mmap_len sample_map 0xA000 = 0x100000" "mmap_type sample_map 0xA000 = 1"
  "mmap_size sample_map 0xA018 = 20" "mmap_address sample_map 0xA018 = 0x100000"
  "mmap_len sample_map 0xA018 = 0x1000" "mmap_type sample_map 0xA018 = 2"
  by code_simp+

lemma sample_map_regions:
  "mmap_at sample_map (mbi_mmap_addr sample_map 0x9000)
     (mbi_mmap_addr sample_map 0x9000 + mbi_mmap_length sample_map 0x9000) sample_regions"
  "apart_regions sample_regions" "memory_size sample_regions = 0x100000"
  by (simp_all add: sample_regions_def sample_map_fields apart_regions_def memory_size_def usable_def
      region_end_def MULTIBOOT_AVAILABLE_def)

text \<open>An array of ranges that shows a list, and what adding a range makes of the list.\<close>

definition shows_ranges :: "boot_mem_type \<Rightarrow> boot_mem_range list \<Rightarrow> bool" where
  "shows_ranges t rs \<longleftrightarrow> well_sized t \<and> bm_capacity t = BOOT_MEM_RANGES \<and> live t = rs"

lemma shows_empty: "shows_ranges empty_type []"
  by (simp add: shows_ranges_def empty_type_def well_sized_def live_def)

lemma shows_add:
  assumes "shows_ranges t rs" and "b < e" and "length rs < BOOT_MEM_RANGES"
  shows "shows_ranges (snd (boot_mem_add_range t b e)) (add_ranges b e rs)"
proof -
  have t: "well_sized t" "bm_capacity t = BOOT_MEM_RANGES" "live t = rs"
    using assms(1) by (simp_all add: shows_ranges_def)
  then have "bm_size t \<noteq> bm_capacity t" using live_simps(1) [OF t(1)] assms(3) by simp
  with boot_mem_add_range_refines [OF t(1) assms(2)] t(3)
  have "well_sized (snd (boot_mem_add_range t b e))" "live (snd (boot_mem_add_range t b e)) = add_ranges b e rs"
    by (auto split: prod.splits)
  moreover have "bm_capacity (snd (boot_mem_add_range t b e)) = bm_capacity t"
    by (simp add: boot_mem_add_range_def boot_mem_insert_def boot_mem_remove_def Let_def)
  ultimately show ?thesis using t(2) by (simp add: shows_ranges_def)
qed

lemma shows_not_full:
  assumes "shows_ranges t rs" and "length rs < BOOT_MEM_RANGES"
  shows "bm_size t \<noteq> bm_capacity t"
  using assms live_simps(1) [of t] by (auto simp: shows_ranges_def)

lemma sample_map_room:
  "memory_room 0xC0100000 0xC0180000 sample_regions"
  "memory_kept 0xC0100000 0xC0180000 sample_regions = {(0, 0)}"
proof -
  let ?m = "snd (boot_mem_add_range empty_type 0 0x100000)"
  let ?r = "snd (boot_mem_add_range (snd (boot_mem_add_range empty_type 0x100000 0x101000)) 0x100000 0x180000)"
  have m: "shows_ranges ?m [\<lparr>rg_begin = 0, rg_end = 0x100000\<rparr>]"
    using shows_add [OF shows_empty, of 0 "0x100000"] by (simp add: add_ranges_def BOOT_MEM_RANGES_def)
  have "shows_ranges (snd (boot_mem_add_range empty_type 0x100000 0x101000)) [\<lparr>rg_begin = 0x100000, rg_end = 0x101000\<rparr>]"
    using shows_add [OF shows_empty, of "0x100000" "0x101000"] by (simp add: add_ranges_def BOOT_MEM_RANGES_def)
  from shows_add [OF this, of "0x100000" "0x180000"]
  have r: "shows_ranges ?r [\<lparr>rg_begin = 0x100000, rg_end = 0x180000\<rparr>]"
    by (simp add: add_ranges_def BOOT_MEM_RANGES_def boot_mem_overlap_def boot_mem_merge_def minu_def maxu_def)
  have "array_room \<lparr>bm_memory = ?m, bm_reserved = ?r\<rparr> 256"
    unfolding array_room_def using m r shows_not_full [OF r]
    by (intro conjI exI [of _ "0x1000"]) (simp_all add: shows_ranges_def placed_def clear_def BOOT_MEM_RANGES_def)
  moreover have "first_page_usable \<lparr>bm_memory = ?m, bm_reserved = ?r\<rparr>"
    using m r by (simp add: first_page_usable_def shows_ranges_def placed_def clear_def)
  moreover have "memory_taken 0xC0100000 0xC0180000 sample_regions = \<lparr>bm_memory = ?m, bm_reserved = ?r\<rparr>"
    by (simp add: memory_taken_def sample_regions_def take_region_def usable_def region_end_def MULTIBOOT_AVAILABLE_def
        boot_mem_add_def boot_mem_reserve_def boot_mem_init_def phys_addr_def PAGE_OFFSET_def case_prod_beta)
  ultimately show "memory_room 0xC0100000 0xC0180000 sample_regions"
    "memory_kept 0xC0100000 0xC0180000 sample_regions = {(0, 0)}"
    by (simp_all add: memory_room_def memory_kept_def frames_kept_def sample_map_regions(3))
qed

subsection \<open>Properties\<close>

text \<open>
  C21: for a memory map laid out as the boot loader documents it, \<open>init_phys_mem_map\<close> returns and has
  done exactly this: every region that starts below 4 GiB, cut off at the last byte, was added
  (usable) or reserved (any other type), in the order of the map; the number of page frames is the
  end of the highest usable region in pages, and the number of low frames that number cut off at the
  linear map. Regions that do not overlap leave the boot allocator well formed and its memory ranges
  disjoint.
\<close>

theorem init_phys_mem_map_regions:
  assumes "mmap_at m (mbi_mmap_addr m mbi) (mbi_mmap_addr m mbi + mbi_mmap_length m mbi) rs"
    and "apart_regions rs" and "ms_bootmem st = boot_mem_init"
  shows "\<exists>st'. init_phys_mem_map m mbi st = Some st' \<and> ms_bootmem st' = fold take_region rs boot_mem_init \<and>
    page_frames st' = of_nat (memory_size rs div 4096) \<and>
    lowmem_page_frames st' = of_nat (min (memory_size rs div 4096) 0x38000) \<and>
    boot_mem_inv (ms_bootmem st') \<and> separated (live (bm_memory (ms_bootmem st')))"
proof -
  have "separated (live (bm_memory boot_mem_init))" and "covers (live (bm_memory boot_mem_init)) = {}"
    by (simp_all add: boot_mem_init_def empty_type_def live_def separated_def covers_def)
  with take_regions [OF boot_mem_inv_init _ assms(2)] show ?thesis
    by (simp add: init_phys_mem_map_result [OF assms(1)] assms(3) page_frames_def lowmem_page_frames_def)
qed

theorem init_phys_mem_map_regions_witness:
  "\<exists>st'. init_phys_mem_map sample_map 0x9000 sample_setup = Some st' \<and> page_frames st' = 256 \<and>
    lowmem_page_frames st' = 256 \<and> boot_mem_inv (ms_bootmem st')"
proof -
  have "ms_bootmem sample_setup = boot_mem_init" by (simp add: sample_setup_def)
  from init_phys_mem_map_regions [OF sample_map_regions(1,2) this] show ?thesis
    by (auto simp: sample_map_regions(3))
qed

text \<open>
  C20: \<open>setup_memory\<close> returns for such a map with at least one page of usable memory. It stops at the
  assertion on the page array, which it does only when the map leaves no room for that array beside the
  kernel image, or it leaves the page directory with the kernel's 256 entries of the
  initial one, the processor on it, and the page allocator with its invariant and every frame from 1
  on free: those of the kernel image, reserved just before, as well. Frame 0 is free exactly when its
  page is not usable.
\<close>

theorem setup_memory_boots:
  assumes "mmap_at m (mbi_mmap_addr m mbi) (mbi_mmap_addr m mbi + mbi_mmap_length m mbi) rs"
    and "apart_regions rs" and "ms_bootmem st = boot_mem_init" and "4096 \<le> memory_size rs"
  shows "setup_memory kb ke swapper m mbi st = Some (Inl (Panic ''alloc_page_array: allocation failed'')) \<and>
      \<not> memory_room kb ke rs \<or>
    (\<exists>st' A. setup_memory kb ke swapper m mbi st = Some (Inr st') \<and>
      ms_cr3 st' = swapper - PAGE_OFFSET \<and>
      (\<forall>i. ms_swapper_page_dir st' i =
        (if 768 \<le> i \<and> i < 1024 then ms_initial_page_dir st i else ms_swapper_page_dir st i)) \<and>
      owns {ZONE_NORMAL, ZONE_HIGH} (ms_pages st') A \<and> A = memory_kept kb ke rs \<and>
      frames ZONE_NORMAL (ms_pages st') = {0 ..< min (memory_size rs div 4096) 0x38000} \<and>
      frames ZONE_HIGH (ms_pages st') =
        {min (memory_size rs div 4096) 0x38000 ..< memory_size rs div 4096})"
  using setup_memory_result [OF assms, of kb ke swapper] by blast

theorem setup_memory_boots_witness:
  "\<exists>st'. setup_memory 0xC0100000 0xC0180000 0xC0123000 sample_map 0x9000 sample_setup = Some (Inr st') \<and>
      ms_cr3 st' = 0x123000 \<and> owns {ZONE_NORMAL, ZONE_HIGH} (ms_pages st') {(0, 0)}"
proof -
  have "ms_bootmem sample_setup = boot_mem_init" by (simp add: sample_setup_def)
  moreover have "4096 \<le> memory_size sample_regions" by (simp add: sample_map_regions(3))
  ultimately show ?thesis
    using sample_map_room setup_memory_boots [OF sample_map_regions(1,2), of sample_setup "0xC0100000" "0xC0180000" "0xC0123000"]
    by (auto simp: PAGE_OFFSET_def simp del: subset_singleton_iff)
qed

end
