(* ===== verification/Descriptors.thy ===== *)
theory Descriptors
  imports Kernel
begin

text \<open>
  \<open>kernel/arch/x86/gdt.c\<close>, \<open>idt.c\<close>, their headers, \<open>task_state.h\<close> and the descriptor part of
  \<open>setup.c\<close>: segment and gate descriptors, the two tables and the pointers the processor is given.
  The processor reads a descriptor back by the layout of the architecture: \<open>seg_base\<close>, \<open>seg_limit\<close>,
  \<open>seg_type\<close> and the \<open>gate_\<close> functions.
\<close>

subsection \<open>Segments\<close>

definition GDT_PRESENT :: u32 where "GDT_PRESENT = BITUL 15"
definition GDT_USER :: u32 where "GDT_USER = BITUL 14 OR BITUL 13"
definition GDT_NONSYSTEM :: u32 where "GDT_NONSYSTEM = BITUL 12"
definition GDT_4KBLOCK :: u32 where "GDT_4KBLOCK = BITUL 23"
definition GDT_32BIT :: u32 where "GDT_32BIT = BITUL 22"
definition GDT_CODE :: u32 where "GDT_CODE = BITUL 11"
definition GDT_WRITE :: u32 where "GDT_WRITE = BITUL 9"
definition GDT_READ :: u32 where "GDT_READ = BITUL 9"
definition GDT_TSS :: u32 where "GDT_TSS = BITUL 8"
definition GDT_32SYSTEM :: u32 where "GDT_32SYSTEM = BITUL 11"

definition KERNEL_CODE_TYPE :: u32 where
  "KERNEL_CODE_TYPE = GDT_NONSYSTEM OR GDT_PRESENT OR GDT_CODE OR GDT_READ OR GDT_4KBLOCK OR GDT_32BIT"
definition KERNEL_DATA_TYPE :: u32 where
  "KERNEL_DATA_TYPE = GDT_NONSYSTEM OR GDT_PRESENT OR GDT_WRITE OR GDT_4KBLOCK OR GDT_32BIT"
definition USER_CODE_TYPE :: u32 where
  "USER_CODE_TYPE = GDT_NONSYSTEM OR GDT_PRESENT OR GDT_CODE OR GDT_READ OR GDT_4KBLOCK OR GDT_32BIT OR GDT_USER"
definition USER_DATA_TYPE :: u32 where
  "USER_DATA_TYPE = GDT_NONSYSTEM OR GDT_PRESENT OR GDT_WRITE OR GDT_4KBLOCK OR GDT_32BIT OR GDT_USER"
definition FREE_TSS_TYPE :: u32 where
  "FREE_TSS_TYPE = GDT_32SYSTEM OR GDT_TSS OR GDT_PRESENT"

definition GDT_SELECTOR :: "u32 \<Rightarrow> u32" where "GDT_SELECTOR entry = push_bit 3 entry"
definition GDT_ENTRY :: "u32 \<Rightarrow> u32" where "GDT_ENTRY selector = drop_bit 3 selector"

definition KERNEL_CODE_ENTRY :: u32 where "KERNEL_CODE_ENTRY = 1"
definition KERNEL_CODE_SELECTOR :: u32 where "KERNEL_CODE_SELECTOR = GDT_SELECTOR KERNEL_CODE_ENTRY"
definition KERNEL_DATA_ENTRY :: u32 where "KERNEL_DATA_ENTRY = 2"
definition KERNEL_DATA_SELECTOR :: u32 where "KERNEL_DATA_SELECTOR = GDT_SELECTOR KERNEL_DATA_ENTRY"
definition USER_CODE_ENTRY :: u32 where "USER_CODE_ENTRY = 3"
definition USER_CODE_SELECTOR :: u32 where "USER_CODE_SELECTOR = GDT_SELECTOR USER_CODE_ENTRY"
definition USER_DATA_ENTRY :: u32 where "USER_DATA_ENTRY = 4"
definition USER_DATA_SELECTOR :: u32 where "USER_DATA_SELECTOR = GDT_SELECTOR USER_DATA_ENTRY"
definition TSS1_ENTRY :: u32 where "TSS1_ENTRY = 5"
definition TSS1_SELECTOR :: u32 where "TSS1_SELECTOR = GDT_SELECTOR TSS1_ENTRY"
definition TSS2_ENTRY :: u32 where "TSS2_ENTRY = 6"
definition TSS2_SELECTOR :: u32 where "TSS2_SELECTOR = GDT_SELECTOR TSS2_ENTRY"
definition GDT_SIZE :: nat where "GDT_SIZE = 8"

lemmas gdt_flag_defs = GDT_PRESENT_def GDT_USER_def GDT_NONSYSTEM_def GDT_4KBLOCK_def GDT_32BIT_def
  GDT_CODE_def GDT_WRITE_def GDT_READ_def GDT_TSS_def GDT_32SYSTEM_def KERNEL_CODE_TYPE_def
  KERNEL_DATA_TYPE_def USER_CODE_TYPE_def USER_DATA_TYPE_def FREE_TSS_TYPE_def BITUL_def
lemmas gdt_selector_defs = GDT_SELECTOR_def GDT_ENTRY_def KERNEL_CODE_ENTRY_def
  KERNEL_CODE_SELECTOR_def KERNEL_DATA_ENTRY_def KERNEL_DATA_SELECTOR_def USER_CODE_ENTRY_def
  USER_CODE_SELECTOR_def USER_DATA_ENTRY_def USER_DATA_SELECTOR_def TSS1_ENTRY_def TSS1_SELECTOR_def
  TSS2_ENTRY_def TSS2_SELECTOR_def GDT_SIZE_def

text \<open>A table pointer: \<open>struct gdt_ptr\<close> and \<open>struct idt_ptr\<close>.\<close>

record table_ptr =
  tp_size :: u16
  tp_base :: u32

definition init_gdt_segment :: "u32 \<Rightarrow> u32 \<Rightarrow> u32 \<Rightarrow> u64" where
  "init_gdt_segment limit base type =
     (let low = (limit AND 0xFFFF) OR push_bit 16 (base AND 0xFFFF);
          high = (base AND 0xFF000000) OR drop_bit 16 (base AND 0xFF0000) OR (limit AND 0xF0000) OR
            (type AND 0xF0FF00)
      in push_bit 32 (ucast high) OR ucast low)"

definition init_gdt_ptr :: "u32 \<Rightarrow> u32 \<Rightarrow> table_ptr" where
  "init_gdt_ptr table sz = \<lparr>tp_size = ucast (8 * sz - 1), tp_base = table\<rparr>"

definition setup_gdt :: "(nat \<Rightarrow> u64) \<Rightarrow> u32 \<Rightarrow> (nat \<Rightarrow> u64) \<times> table_ptr" where
  "setup_gdt gdt table =
     (let g1 = gdt(unat KERNEL_CODE_ENTRY := init_gdt_segment 0xFFFFF 0 KERNEL_CODE_TYPE);
          g2 = g1(unat KERNEL_DATA_ENTRY := init_gdt_segment 0xFFFFF 0 KERNEL_DATA_TYPE);
          g3 = g2(unat USER_CODE_ENTRY := init_gdt_segment 0xFFFFF 0 USER_CODE_TYPE);
          g4 = g3(unat USER_DATA_ENTRY := init_gdt_segment 0xFFFFF 0 USER_DATA_TYPE)
      in (g4, init_gdt_ptr table (of_nat GDT_SIZE)))"

subsection \<open>Gates\<close>

definition IDT_PRESENT :: u32 where "IDT_PRESENT = BITU 15"
definition IDT_USER :: u32 where "IDT_USER = BITU 13 OR BITU 14"
definition IDT_KERNEL :: u32 where "IDT_KERNEL = 0"
definition IDT_GATE32 :: u32 where "IDT_GATE32 = BITU 11"
definition IDT_INT_GATE :: u32 where "IDT_INT_GATE = BITU 9 OR BITU 10"
definition IDT_TRAP_GATE :: u32 where "IDT_TRAP_GATE = BITU 8 OR BITU 9 OR BITU 10"
definition INT_GATE :: u32 where "INT_GATE = IDT_PRESENT OR IDT_INT_GATE OR IDT_GATE32"
definition TRAP_GATE :: u32 where "TRAP_GATE = IDT_PRESENT OR IDT_TRAP_GATE OR IDT_GATE32"
definition IDT_SIZE :: u32 where "IDT_SIZE = 256"

lemmas idt_flag_defs = IDT_PRESENT_def IDT_USER_def IDT_KERNEL_def IDT_GATE32_def IDT_INT_GATE_def
  IDT_TRAP_GATE_def INT_GATE_def TRAP_GATE_def BITU_def

definition init_gate :: "u32 \<Rightarrow> u32 \<Rightarrow> u32 \<Rightarrow> u64" where
  "init_gate offset selector type =
     (let low = (offset AND 0xFFFF) OR push_bit 16 selector;
          high = (offset AND 0xFFFF0000) OR type
      in push_bit 32 (ucast high) OR ucast low)"

definition init_isr_gate :: "u32 \<Rightarrow> u32 \<Rightarrow> u64" where
  "init_isr_gate isr dpl = init_gate isr KERNEL_CODE_SELECTOR (INT_GATE OR dpl)"

definition init_trap_gate :: "u32 \<Rightarrow> u32 \<Rightarrow> u64" where
  "init_trap_gate sc dpl = init_gate sc KERNEL_CODE_SELECTOR (TRAP_GATE OR dpl)"

definition init_idt_ptr :: "u32 \<Rightarrow> u32 \<Rightarrow> table_ptr" where
  "init_idt_ptr table sz = \<lparr>tp_size = ucast (ucast (ucast sz :: u16) * 8 :: u32), tp_base = table\<rparr>"

fun setup_gates :: "u32 \<Rightarrow> nat \<Rightarrow> nat \<Rightarrow> (nat \<Rightarrow> u64) \<Rightarrow> (nat \<Rightarrow> u64)" where
  "setup_gates entries i 0 idt = idt"
| "setup_gates entries i (Suc n) idt =
     setup_gates entries (i + 1) n (idt(i := init_isr_gate (entries + of_nat i * 16) IDT_KERNEL))"

definition setup_idt :: "u32 \<Rightarrow> (nat \<Rightarrow> u64) \<Rightarrow> u32 \<Rightarrow> (nat \<Rightarrow> u64) \<times> table_ptr" where
  "setup_idt raw_irq_handler_entries idt table =
     (setup_gates raw_irq_handler_entries 0 256 idt, init_idt_ptr table IDT_SIZE)"

subsection \<open>How the processor reads a descriptor\<close>

definition seg_base :: "u64 \<Rightarrow> u32" where
  "seg_base e = ucast (drop_bit 16 e AND mask 24) OR push_bit 24 (ucast (drop_bit 56 e))"

definition seg_limit :: "u64 \<Rightarrow> u32" where
  "seg_limit e = ucast (e AND mask 16) OR push_bit 16 (ucast (drop_bit 48 e AND mask 4))"

definition seg_type :: "u64 \<Rightarrow> u32" where
  "seg_type e = ucast (drop_bit 32 e) AND 0xF0FF00"

definition gate_offset :: "u64 \<Rightarrow> u32" where
  "gate_offset e = ucast (e AND mask 16) OR push_bit 16 (ucast (drop_bit 48 e))"

definition gate_selector :: "u64 \<Rightarrow> u32" where
  "gate_selector e = ucast (drop_bit 16 e AND mask 16)"

definition gate_type :: "u64 \<Rightarrow> u32" where
  "gate_type e = ucast (drop_bit 32 e AND mask 16)"

lemma descriptor_masks:
  "(0xFFFF :: u32) = mask 16" "(0xFF000000 :: u32) = push_bit 24 (mask 8)"
  "(0xFF0000 :: u32) = push_bit 16 (mask 8)" "(0xF0000 :: u32) = push_bit 16 (mask 4)"
  "(0xF0FF00 :: u32) = push_bit 8 (mask 8) OR push_bit 20 (mask 4)"
  "(0xFFFF0000 :: u32) = push_bit 16 (mask 16)" "(0xFFFFF :: u32) = mask 20"
  by (simp_all add: mask_eq_exp_minus_1 push_bit_eq_mult)

lemma seg_base_init: "seg_base (init_gdt_segment limit base type) = base"
proof (rule bit_word_eqI)
  fix n assume "n < LENGTH(32)"
  then consider "n < 16" | "16 \<le> n" "n < 24" | "24 \<le> n" "n < 32" by fastforce
  then show "bit (seg_base (init_gdt_segment limit base type)) n = bit base n"
    unfolding init_gdt_segment_def seg_base_def Let_def descriptor_masks
    by cases (auto simp: bit_simps)
qed

lemma seg_limit_init: "seg_limit (init_gdt_segment limit base type) = limit AND 0xFFFFF"
proof (rule bit_word_eqI)
  fix n assume "n < LENGTH(32)"
  then consider "n < 16" | "16 \<le> n" "n < 20" | "20 \<le> n" "n < 32" by fastforce
  then show "bit (seg_limit (init_gdt_segment limit base type)) n = bit (limit AND 0xFFFFF) n"
    unfolding init_gdt_segment_def seg_limit_def Let_def descriptor_masks
    by cases (auto simp: bit_simps)
qed

lemma seg_type_init: "seg_type (init_gdt_segment limit base type) = type AND 0xF0FF00"
proof (rule bit_word_eqI)
  fix n assume "n < LENGTH(32)"
  then consider "n < 8" | "8 \<le> n" "n < 16" | "16 \<le> n" "n < 20" | "20 \<le> n" "n < 24" | "24 \<le> n" "n < 32"
    by fastforce
  then show "bit (seg_type (init_gdt_segment limit base type)) n = bit (type AND 0xF0FF00) n"
    unfolding init_gdt_segment_def seg_type_def Let_def descriptor_masks
    by cases (auto simp: bit_simps)
qed

lemma gate_offset_init: "gate_offset (init_gate offset selector type) = offset OR push_bit 16 (drop_bit 16 type)"
proof (rule bit_word_eqI)
  fix n assume "n < LENGTH(32)"
  then consider "n < 16" | "16 \<le> n" "n < 32" by fastforce
  then show "bit (gate_offset (init_gate offset selector type)) n = bit (offset OR push_bit 16 (drop_bit 16 type)) n"
    unfolding init_gate_def gate_offset_def Let_def descriptor_masks
    by cases (auto simp: bit_simps)
qed

lemma gate_selector_init: "gate_selector (init_gate offset selector type) = selector AND 0xFFFF"
proof (rule bit_word_eqI)
  fix n assume "n < LENGTH(32)"
  then consider "n < 16" | "16 \<le> n" "n < 32" by fastforce
  then show "bit (gate_selector (init_gate offset selector type)) n = bit (selector AND 0xFFFF) n"
    unfolding init_gate_def gate_selector_def Let_def descriptor_masks
    by cases (auto simp: bit_simps)
qed

lemma gate_type_init: "gate_type (init_gate offset selector type) = type AND 0xFFFF"
proof (rule bit_word_eqI)
  fix n assume "n < LENGTH(32)"
  then consider "n < 16" | "16 \<le> n" "n < 32" by fastforce
  then show "bit (gate_type (init_gate offset selector type)) n = bit (type AND 0xFFFF) n"
    unfolding init_gate_def gate_type_def Let_def descriptor_masks
    by cases (auto simp: bit_simps)
qed

lemma setup_gates_nth:
  "setup_gates entries i n idt j =
    (if i \<le> j \<and> j < i + n then init_isr_gate (entries + of_nat j * 16) IDT_KERNEL else idt j)"
  by (induction n arbitrary: i idt) auto

subsection \<open>Properties\<close>

text \<open>
  C37: what the processor reads back from a segment descriptor is what \<open>init_gdt_segment\<close> was given:
  base and, below one mega-unit, limit exactly, of the type the bits of the descriptor's two type
  fields. After \<open>setup_gdt\<close> the four segments are flat 4 GiB segments, the kernel's with privilege 0
  and the user's with privilege 3, and the table pointer covers the eight entries.
\<close>

theorem gdt_reads_back:
  "(\<forall>limit base type. limit < 0x100000 \<longrightarrow>
      seg_base (init_gdt_segment limit base type) = base \<and>
      seg_limit (init_gdt_segment limit base type) = limit \<and>
      seg_type (init_gdt_segment limit base type) = type AND 0xF0FF00) \<and>
   (\<forall>i \<in> {1, 2, 3, 4}. seg_base (fst (setup_gdt gdt table) i) = 0 \<and>
      seg_limit (fst (setup_gdt gdt table) i) = 0xFFFFF \<and>
      drop_bit 13 (seg_type (fst (setup_gdt gdt table) i)) AND 3 = (if i < 3 then 0 else 3) \<and>
      seg_type (fst (setup_gdt gdt table) i) AND GDT_4KBLOCK \<noteq> 0) \<and>
   unat (tp_size (snd (setup_gdt gdt table))) + 1 = 8 * GDT_SIZE \<and>
   (\<forall>i. i \<notin> {1, 2, 3, 4} \<longrightarrow> fst (setup_gdt gdt table) i = gdt i)"
proof (intro conjI)
  have "limit AND 0xFFFFF = limit" if "limit < 0x100000" for limit :: u32
    using that unfolding descriptor_masks
    by (simp add: take_bit_eq_mask [symmetric] word_less_nat_alt take_bit_eq_mod word_unat_eq_iff unat_mod)
  then show "\<forall>limit base type. limit < 0x100000 \<longrightarrow>
      seg_base (init_gdt_segment limit base type) = base \<and>
      seg_limit (init_gdt_segment limit base type) = limit \<and>
      seg_type (init_gdt_segment limit base type) = type AND 0xF0FF00"
    by (simp add: seg_base_init seg_limit_init seg_type_init)
  show "\<forall>i \<in> {1, 2, 3, 4}. seg_base (fst (setup_gdt gdt table) i) = 0 \<and>
      seg_limit (fst (setup_gdt gdt table) i) = 0xFFFFF \<and>
      drop_bit 13 (seg_type (fst (setup_gdt gdt table) i)) AND 3 = (if i < 3 then 0 else 3) \<and>
      seg_type (fst (setup_gdt gdt table) i) AND GDT_4KBLOCK \<noteq> 0"
    by (simp add: setup_gdt_def Let_def gdt_selector_defs seg_base_init seg_limit_init seg_type_init gdt_flag_defs)
  show "unat (tp_size (snd (setup_gdt gdt table))) + 1 = 8 * GDT_SIZE"
    by (simp add: setup_gdt_def init_gdt_ptr_def GDT_SIZE_def)
  show "\<forall>i. i \<notin> {1, 2, 3, 4} \<longrightarrow> fst (setup_gdt gdt table) i = gdt i"
    by (simp add: setup_gdt_def Let_def gdt_selector_defs)
qed

theorem gdt_reads_back_witness:
  "seg_limit (init_gdt_segment 103 0xC0123456 FREE_TSS_TYPE) = 103 \<and>
   seg_base (fst (setup_gdt (\<lambda>_. 0) 0xC0100000) 3) = 0"
  using gdt_reads_back [of "\<lambda>_. 0" "0xC0100000"] by simp

text \<open>
  C38: after \<open>setup_idt\<close> each of the 256 gates is a present 32-bit interrupt gate of privilege 0 to
  the kernel's code segment, and gate \<open>i\<close> leads to the \<open>i\<close>-th 16-byte stub of the handler table. The
  limit handed to the processor is one byte more than the table has.
\<close>

theorem setup_idt_gates:
  "(\<forall>i < 256. gate_offset (fst (setup_idt entries idt table) i) = entries + 16 * of_nat i \<and>
      gate_selector (fst (setup_idt entries idt table) i) = KERNEL_CODE_SELECTOR \<and>
      gate_type (fst (setup_idt entries idt table) i) = INT_GATE \<and>
      drop_bit 13 INT_GATE AND 3 = 0 \<and> drop_bit 15 INT_GATE AND 1 = 1 \<and> drop_bit 8 INT_GATE AND 0x1F = 0xE) \<and>
   unat (tp_size (snd (setup_idt entries idt table))) = 256 * 8"
proof -
  have "drop_bit 16 (INT_GATE OR IDT_KERNEL) = 0" by (simp add: idt_flag_defs)
  then show ?thesis
    by (simp add: setup_idt_def setup_gates_nth init_isr_gate_def gate_offset_init gate_selector_init
        gate_type_init idt_flag_defs gdt_selector_defs init_idt_ptr_def IDT_SIZE_def mult.commute)
qed

theorem setup_idt_gates_witness:
  "gate_offset (fst (setup_idt 0xC0100000 (\<lambda>_. 0) 0xC0200000) 33) = 0xC0100210"
  using setup_idt_gates [of "0xC0100000" "\<lambda>_. 0" "0xC0200000"] by simp

end
