(* ===== verification/Round_Robin.thy ===== *)
theory Round_Robin
  imports Prelude
begin

text \<open>
  What \<open>schedule\<close> promises, for the kernel (\<open>kernel/scheduler.c\<close>) and for the exercise before it
  (\<open>hw3/scheduler.c\<close>): the running task and those that wait form a circle, and a call turns it by one
  place. A run counts the calls; between them the running task works.
\<close>

inductive yield_runs :: "('s \<Rightarrow> 's outcome) \<Rightarrow> ('s \<Rightarrow> 's \<Rightarrow> bool) \<Rightarrow> nat \<Rightarrow> 's \<Rightarrow> 's \<Rightarrow> bool"
  for yield works where
  runs_start: "yield_runs yield works 0 s s"
| runs_work: "\<lbrakk>yield_runs yield works n s s'; works s' s''\<rbrakk> \<Longrightarrow> yield_runs yield works n s s''"
| runs_schedule: "\<lbrakk>yield_runs yield works n s s'; yield s' = Inr s''\<rbrakk> \<Longrightarrow> yield_runs yield works (Suc n) s s''"

locale round_robin =
  fixes yield :: "'s \<Rightarrow> 's outcome"
    and works :: "'s \<Rightarrow> 's \<Rightarrow> bool"
    and waiting :: "'s \<Rightarrow> 't list \<Rightarrow> bool"
    and running :: "'s \<Rightarrow> 't"
  assumes yield_alone: "waiting s [] \<Longrightarrow> \<exists>s'. yield s = Inr s' \<and> waiting s' [] \<and> running s' = running s"
    and yield_next: "waiting s (t # ts) \<Longrightarrow>
      \<exists>s'. yield s = Inr s' \<and> waiting s' (ts @ [running s]) \<and> running s' = t"
    and works_keeps: "waiting s ts \<Longrightarrow> works s s' \<Longrightarrow> waiting s' ts \<and> running s' = running s"
begin

lemma yield_turns:
  assumes "waiting s ts"
  shows "\<exists>s' ts'. yield s = Inr s' \<and> waiting s' ts' \<and> running s' # ts' = rotate1 (running s # ts)"
proof (cases ts)
  case Nil
  with yield_alone [of s] assms show ?thesis by auto
next
  case (Cons t us)
  with yield_next [of s t us] assms show ?thesis by fastforce
qed

lemma runs_rotate:
  "yield_runs yield works n s s' \<Longrightarrow> waiting s ts \<Longrightarrow>
    \<exists>ts'. waiting s' ts' \<and> running s' # ts' = rotate n (running s # ts)"
proof (induction rule: yield_runs.induct)
  case (runs_work n s s' s'')
  then obtain ts' where "waiting s' ts'" "running s' # ts' = rotate n (running s # ts)" by blast
  with works_keeps [OF this(1) runs_work.hyps(2)] show ?case by auto
next
  case (runs_schedule n s s' s'')
  then obtain ts' where ts': "waiting s' ts'" "running s' # ts' = rotate n (running s # ts)" by blast
  from yield_turns [OF ts'(1)] runs_schedule.hyps(2) show ?case by (auto simp: ts'(2))
qed auto

lemma nth_turn:
  assumes "yield_runs yield works n s s'" and "waiting s ts"
  shows "running s' = (running s # ts) ! (n mod Suc (length ts))"
proof -
  from runs_rotate [OF assms] obtain ts' where "running s' # ts' = rotate n (running s # ts)" by blast
  then have "running s' = hd (rotate n (running s # ts))" by (metis list.sel(1))
  also have "\<dots> = (running s # ts) ! (n mod length (running s # ts))" by (rule hd_rotate_conv_nth) simp
  finally show ?thesis by simp
qed

lemma two_alternate:
  assumes "yield_runs yield works n s s'" and "waiting s [t]"
  shows "running s' = (if even n then running s else t)"
proof -
  have "running s' = [running s, t] ! (n mod 2)" using nth_turn [OF assms] by (simp add: numeral_2_eq_2)
  then show ?thesis by (cases "even n") (simp_all add: odd_iff_mod_2_eq_one even_iff_mod_2_eq_zero)
qed

lemma never_stuck:
  assumes "yield_runs yield works n s s'" and "waiting s ts"
  shows "\<exists>s''. yield s' = Inr s''"
  using runs_rotate [OF assms] yield_turns by blast

text \<open>Whoever is in the circle runs again within as many calls as there are others.\<close>

lemma turn_comes:
  assumes "waiting s ts" and "t \<in> set (running s # ts)"
  shows "\<exists>n \<le> length ts. \<forall>s'. yield_runs yield works n s s' \<longrightarrow> running s' = t"
proof -
  from assms(2) obtain n where n: "n < Suc (length ts)" "(running s # ts) ! n = t"
    unfolding in_set_conv_nth by auto
  then have "yield_runs yield works n s s' \<longrightarrow> running s' = t" for s' using nth_turn [OF _ assms(1)] by simp
  with n(1) show ?thesis by (intro exI [of _ n]) simp
qed

end

end
