(* ===== verification/Task.thy ===== *)
theory Task
  imports Slab Descriptors Round_Robin
begin

text \<open>
  \<open>kernel/task.c\<close>, \<open>kernel/scheduler.c\<close>, \<open>task.h\<close> and the task part of \<open>setup.c\<close>: tasks on stacks of
  their own, the queue of active tasks and the hardware task switch. A task is named by the address
  of its \<open>struct task\<close>, which is the start of its two-page stack. The task state segments are named by
  their addresses, as the processor finds them through the descriptors; the registers in use are a
  field of the state, and a far jump to a task state selector does what the processor documents:
  check the descriptor, save the registers in the segment of the task register, load the others.
\<close>

subsection \<open>State\<close>

record registers =
  cx_eip :: u32
  cx_eflags :: u32
  cx_eax :: u32
  cx_ecx :: u32
  cx_edx :: u32
  cx_ebx :: u32
  cx_esp :: u32
  cx_ebp :: u32
  cx_esi :: u32
  cx_edi :: u32
  cx_es :: u32
  cx_cs :: u32
  cx_ss :: u32
  cx_ds :: u32
  cx_fs :: u32
  cx_gs :: u32

text \<open>\<open>struct task_state\<close>: the registers that a switch saves are its fields from \<open>eip\<close> to \<open>gs\<close>.\<close>

record task_state =
  ts_prev_tss :: u32
  ts_ring0_esp :: u32
  ts_ring0_ss :: u32
  ts_ring1_esp :: u32
  ts_ring1_ss :: u32
  ts_ring2_esp :: u32
  ts_ring2_ss :: u32
  ts_cr3 :: u32
  ts_context :: registers
  ts_lds :: u32
  ts_trap :: u16
  ts_iopb :: u16

datatype task_node = Active | Task_link u32

record tasking =
  tk_pages :: page_state
  tk_links :: "task_node list_heap"
  tk_tid :: "u32 \<Rightarrow> u32"
  tk_tss :: "u32 \<Rightarrow> task_state"
  tk_gdt :: "nat \<Rightarrow> u64"
  tk_regs :: registers
  tk_cr3 :: u32
  tk_tr :: u32

definition KERNEL_STACK_ORDER :: nat where "KERNEL_STACK_ORDER = 1"
definition KERNEL_STACK_PAGES :: u32 where "KERNEL_STACK_PAGES = push_bit KERNEL_STACK_ORDER 1"
definition KERNEL_STACK_SIZE :: u32 where "KERNEL_STACK_SIZE = KERNEL_STACK_PAGES * PAGE_SIZE"
definition KERNEL_STACK_ALIGN :: u32 where "KERNEL_STACK_ALIGN = KERNEL_STACK_PAGES * PAGE_SIZE"
definition SIZEOF_TASK :: u32 where "SIZEOF_TASK = 12"
definition SIZEOF_TASK_STATE :: u32 where "SIZEOF_TASK_STATE = 104"

lemma stack_values:
  "KERNEL_STACK_SIZE = 0x2000" "KERNEL_STACK_ALIGN = 0x2000" "KERNEL_STACK_PAGES = 2"
  by (simp_all add: KERNEL_STACK_SIZE_def KERNEL_STACK_ALIGN_def KERNEL_STACK_PAGES_def
      KERNEL_STACK_ORDER_def layout_values)

subsection \<open>Tasks\<close>

text \<open>\<open>current_task\<close> masks the address of a local variable, the word below the stack pointer.\<close>

definition stack_owner :: "u32 \<Rightarrow> u32" where
  "stack_owner esp = (esp - 4) AND NOT (KERNEL_STACK_ALIGN - 1)"

definition current_task :: "tasking \<Rightarrow> u32" where
  "current_task k = stack_owner (cx_esp (tk_regs k))"

definition task_state_of :: "u32 \<Rightarrow> u32" where
  "task_state_of task = task + SIZEOF_TASK"

definition task_stack :: "u32 \<Rightarrow> u32" where
  "task_stack task = task + KERNEL_STACK_SIZE"

definition null_task_link :: "u32 \<Rightarrow> task_node list_heap \<Rightarrow> task_node list_heap" where
  "null_task_link t h = h\<lparr>lh_next := (lh_next h)(Task_link t := Task_link 0),
     lh_prev := (lh_prev h)(Task_link t := Task_link 0)\<rparr>"

definition alloc_task :: "tasking \<Rightarrow> (u32 \<times> tasking) outcome" where
  "alloc_task k =
     bind_outcome (alloc_pages KERNEL_STACK_ORDER ALLOC_NORMAL (tk_pages k)) (\<lambda>(pages, st).
       case pages of
         None \<Rightarrow> Inl (Panic ''Cannot allocate task struct and stack'')
       | Some page \<Rightarrow>
           (let task = page_virtual_address page st
            in Inr (task, k\<lparr>tk_pages := st, tk_links := null_task_link task (tk_links k),
                 tk_tid := (tk_tid k)(task := 0)\<rparr>)))"

definition free_task :: "u32 \<Rightarrow> tasking \<Rightarrow> tasking outcome" where
  "free_task task k =
     (let page = pfn_to_page (drop_bit PAGE_SHIFT (phys_addr task)) (tk_pages k)
      in bind_outcome (free_pages page KERNEL_STACK_ORDER (tk_pages k)) (\<lambda>st. Inr (k\<lparr>tk_pages := st\<rparr>)))"

definition zero_context :: registers where
  "zero_context = \<lparr>cx_eip = 0, cx_eflags = 0, cx_eax = 0, cx_ecx = 0, cx_edx = 0, cx_ebx = 0,
     cx_esp = 0, cx_ebp = 0, cx_esi = 0, cx_edi = 0, cx_es = 0, cx_cs = 0, cx_ss = 0, cx_ds = 0,
     cx_fs = 0, cx_gs = 0\<rparr>"

definition zero_state :: task_state where
  "zero_state = \<lparr>ts_prev_tss = 0, ts_ring0_esp = 0, ts_ring0_ss = 0, ts_ring1_esp = 0, ts_ring1_ss = 0,
     ts_ring2_esp = 0, ts_ring2_ss = 0, ts_cr3 = 0, ts_context = zero_context, ts_lds = 0,
     ts_trap = 0, ts_iopb = 0\<rparr>"

definition task_init :: "u32 \<Rightarrow> u32 \<Rightarrow> u32 \<Rightarrow> tasking \<Rightarrow> tasking" where
  "task_init swapper_page_dir task entry k =
     (let c = zero_context\<lparr>cx_esp := task_stack task, cx_ss := KERNEL_DATA_SELECTOR,
            cx_ds := KERNEL_DATA_SELECTOR, cx_es := KERNEL_DATA_SELECTOR, cx_fs := KERNEL_DATA_SELECTOR,
            cx_gs := KERNEL_DATA_SELECTOR, cx_cs := KERNEL_CODE_SELECTOR, cx_eip := entry\<rparr>;
          state = zero_state\<lparr>ts_context := c, ts_cr3 := phys_addr swapper_page_dir\<rparr>
      in k\<lparr>tk_tss := (tk_tss k)(task_state_of task := state)\<rparr>)"

subsection \<open>The task switch\<close>

definition BUSY_TSS_TYPE :: u32 where
  "BUSY_TSS_TYPE = FREE_TSS_TYPE OR BITUL 9"

text \<open>The processor marks the descriptor it leaves as free and the one it enters as busy.\<close>

definition mark_tss :: "u32 \<Rightarrow> u64 \<Rightarrow> u64" where
  "mark_tss type e = init_gdt_segment (seg_limit e) (seg_base e) type"

definition load_tr :: "u32 \<Rightarrow> tasking \<Rightarrow> tasking outcome" where
  "load_tr sel k =
     (let i = unat (GDT_ENTRY sel)
      in if seg_type (tk_gdt k i) \<noteq> FREE_TSS_TYPE then Inl Protection
         else Inr (k\<lparr>tk_gdt := (tk_gdt k)(i := mark_tss BUSY_TSS_TYPE (tk_gdt k i)), tk_tr := sel\<rparr>))"

definition jump_tss :: "u32 \<Rightarrow> tasking \<Rightarrow> tasking outcome" where
  "jump_tss sel k =
     (let i = unat (GDT_ENTRY sel); j = unat (GDT_ENTRY (tk_tr k)); e = tk_gdt k i; f = tk_gdt k j
      in if seg_type e \<noteq> FREE_TSS_TYPE \<or> seg_limit e < SIZEOF_TASK_STATE - 1 then Inl Protection
         else
           (let saved = (tk_tss k)(seg_base f := (tk_tss k (seg_base f))\<lparr>ts_context := tk_regs k\<rparr>);
                entered = saved (seg_base e)
            in Inr (k\<lparr>tk_tss := saved,
                 tk_gdt := (tk_gdt k)(j := mark_tss FREE_TSS_TYPE f, i := mark_tss BUSY_TSS_TYPE e),
                 tk_regs := ts_context entered, tk_cr3 := ts_cr3 entered, tk_tr := sel\<rparr>)))"

definition set_prev_tss :: "u32 \<Rightarrow> u32 \<Rightarrow> tasking \<Rightarrow> tasking" where
  "set_prev_tss s sel k = k\<lparr>tk_tss := (tk_tss k)(s := (tk_tss k s)\<lparr>ts_prev_tss := sel\<rparr>)\<rparr>"

definition setup_swapper :: "u32 \<Rightarrow> tasking \<Rightarrow> tasking outcome" where
  "setup_swapper swapper_page_dir k =
     (let s = task_state_of (current_task k);
          k1 = k\<lparr>tk_tss := (tk_tss k)(s := zero_state\<lparr>ts_prev_tss := TSS2_SELECTOR,
            ts_cr3 := phys_addr swapper_page_dir\<rparr>)\<rparr>;
          k2 = k1\<lparr>tk_gdt := (tk_gdt k1)(unat TSS1_ENTRY :=
            init_gdt_segment SIZEOF_TASK_STATE s FREE_TSS_TYPE)\<rparr>
      in load_tr TSS1_SELECTOR k2)"

definition task_switch :: "u32 \<Rightarrow> tasking \<Rightarrow> tasking outcome" where
  "task_switch next k =
     (let tss = ucast (ucast (ts_prev_tss (tk_tss k (task_state_of (current_task k)))) :: u16) :: u32;
          s = task_state_of next;
          k1 = k\<lparr>tk_gdt := (tk_gdt k)(unat (GDT_ENTRY tss) :=
            init_gdt_segment SIZEOF_TASK_STATE s FREE_TSS_TYPE)\<rparr>
      in if tss = TSS1_SELECTOR then jump_tss TSS1_SELECTOR (set_prev_tss s TSS2_SELECTOR k1)
         else jump_tss TSS2_SELECTOR (set_prev_tss s TSS1_SELECTOR k1))"

subsection \<open>The scheduler\<close>

definition tk_map :: "(task_node list_heap \<Rightarrow> task_node list_heap) \<Rightarrow> tasking \<Rightarrow> tasking" where
  "tk_map f k = k\<lparr>tk_links := f (tk_links k)\<rparr>"

definition schedule_task :: "u32 \<Rightarrow> tasking \<Rightarrow> tasking" where
  "schedule_task task k = tk_map (list_insert_before Active (Task_link task)) k"

definition schedule :: "tasking \<Rightarrow> tasking outcome" where
  "schedule k =
     (let current = current_task k
      in if list_empty Active (tk_links k) then Inr k
         else case lh_next (tk_links k) Active of
           Active \<Rightarrow> Inl Wild
         | Task_link next \<Rightarrow>
             (let k1 = tk_map (list_remove (Task_link next)) k;
                  k2 = tk_map (list_insert_before Active (Task_link current)) k1
              in task_switch next k2))"


subsection \<open>The invariant of the switch\<close>

definition other_tss :: "u32 \<Rightarrow> u32" where
  "other_tss sel = (if sel = TSS1_SELECTOR then TSS2_SELECTOR else TSS1_SELECTOR)"

definition saved_regs :: "tasking \<Rightarrow> u32 \<Rightarrow> registers" where
  "saved_regs k t = ts_context (tk_tss k (task_state_of t))"

definition saved_cr3 :: "tasking \<Rightarrow> u32 \<Rightarrow> u32" where
  "saved_cr3 k t = ts_cr3 (tk_tss k (task_state_of t))"

text \<open>
  The descriptor of the task register describes the current task, and the current task's
  \<open>prev_tss\<close> names the other of the two descriptors, which is free to be overwritten.
\<close>

definition cpu_ok :: "tasking \<Rightarrow> bool" where
  "cpu_ok k \<longleftrightarrow> tk_tr k \<in> {TSS1_SELECTOR, TSS2_SELECTOR} \<and>
     seg_base (tk_gdt k (unat (GDT_ENTRY (tk_tr k)))) = task_state_of (current_task k) \<and>
     ts_prev_tss (tk_tss k (task_state_of (current_task k))) = other_tss (tk_tr k)"

definition runnable :: "tasking \<Rightarrow> u32 \<Rightarrow> bool" where
  "runnable k t \<longleftrightarrow> stack_owner (cx_esp (saved_regs k t)) = t"

lemma task_state_inj [simp]: "task_state_of t = task_state_of u \<longleftrightarrow> t = u"
  by (simp add: task_state_of_def)

lemma tss_selectors:
  "TSS1_SELECTOR = 0x28" "TSS2_SELECTOR = 0x30" "GDT_ENTRY 0x28 = 5" "GDT_ENTRY 0x30 = 6"
  by (simp_all add: gdt_selector_defs)

lemma tss_descriptor:
  "seg_type (init_gdt_segment SIZEOF_TASK_STATE s FREE_TSS_TYPE) = FREE_TSS_TYPE"
  "\<not> seg_limit (init_gdt_segment SIZEOF_TASK_STATE s FREE_TSS_TYPE) < SIZEOF_TASK_STATE - 1"
  by (simp_all add: seg_type_init seg_limit_init SIZEOF_TASK_STATE_def gdt_flag_defs)

lemma jump_tss_free:
  assumes "tk_gdt k (unat (GDT_ENTRY sel)) = init_gdt_segment SIZEOF_TASK_STATE s FREE_TSS_TYPE"
    and "seg_base (tk_gdt k (unat (GDT_ENTRY (tk_tr k)))) = s0" and "s0 \<noteq> s"
  shows "\<exists>k'. jump_tss sel k = Inr k' \<and> tk_tr k' = sel \<and> tk_regs k' = ts_context (tk_tss k s) \<and>
    tk_cr3 k' = ts_cr3 (tk_tss k s) \<and>
    tk_tss k' = (tk_tss k)(s0 := (tk_tss k s0)\<lparr>ts_context := tk_regs k\<rparr>) \<and>
    seg_base (tk_gdt k' (unat (GDT_ENTRY sel))) = s \<and>
    tk_links k' = tk_links k \<and> tk_pages k' = tk_pages k \<and> tk_tid k' = tk_tid k"
  using assms(3) by (simp add: jump_tss_def Let_def assms(1,2) tss_descriptor seg_base_init mark_tss_def)

lemma task_switch_result:
  assumes "cpu_ok k" and "runnable k t" and "t \<noteq> current_task k"
  shows "\<exists>k'. task_switch t k = Inr k' \<and> cpu_ok k' \<and> current_task k' = t \<and>
    tk_regs k' = saved_regs k t \<and> tk_cr3 k' = saved_cr3 k t \<and>
    saved_regs k' = (saved_regs k)(current_task k := tk_regs k) \<and> saved_cr3 k' = saved_cr3 k \<and>
    tk_tr k' = other_tss (tk_tr k) \<and> tk_links k' = tk_links k \<and> tk_pages k' = tk_pages k \<and> tk_tid k' = tk_tid k"
proof -
  let ?c = "current_task k" and ?s = "task_state_of t"
  let ?sel = "other_tss (tk_tr k)"
  from assms(1) have ok: "tk_tr k \<in> {TSS1_SELECTOR, TSS2_SELECTOR}"
    "seg_base (tk_gdt k (unat (GDT_ENTRY (tk_tr k)))) = task_state_of ?c"
    "ts_prev_tss (tk_tss k (task_state_of ?c)) = ?sel" by (simp_all add: cpu_ok_def)
  have sels: "?sel \<in> {TSS1_SELECTOR, TSS2_SELECTOR}" "other_tss ?sel = tk_tr k" "?sel \<noteq> tk_tr k"
    "unat (GDT_ENTRY (tk_tr k)) \<noteq> unat (GDT_ENTRY ?sel)" "ucast (ucast ?sel :: u16) = ?sel"
    using ok(1) by (auto simp: other_tss_def tss_selectors)
  let ?k1 = "k\<lparr>tk_gdt := (tk_gdt k)(unat (GDT_ENTRY ?sel) := init_gdt_segment SIZEOF_TASK_STATE ?s FREE_TSS_TYPE)\<rparr>"
  let ?k2 = "set_prev_tss ?s (tk_tr k) ?k1"
  have sw: "task_switch t k = jump_tss ?sel ?k2"
    unfolding task_switch_def Let_def ok(3) sels(5)
    using ok(1) by (auto simp: other_tss_def tss_selectors)
  have ne: "task_state_of ?c \<noteq> ?s" using assms(3) by auto
  have "tk_gdt ?k2 (unat (GDT_ENTRY ?sel)) = init_gdt_segment SIZEOF_TASK_STATE ?s FREE_TSS_TYPE"
    "seg_base (tk_gdt ?k2 (unat (GDT_ENTRY (tk_tr ?k2)))) = task_state_of ?c"
    using sels(4) ok(2) by (simp_all add: set_prev_tss_def)
  from jump_tss_free [OF this ne] obtain k' where k': "jump_tss ?sel ?k2 = Inr k'" "tk_tr k' = ?sel"
    "tk_regs k' = ts_context (tk_tss ?k2 ?s)" "tk_cr3 k' = ts_cr3 (tk_tss ?k2 ?s)"
    "tk_tss k' = (tk_tss ?k2)(task_state_of ?c := (tk_tss ?k2 (task_state_of ?c))\<lparr>ts_context := tk_regs ?k2\<rparr>)"
    "seg_base (tk_gdt k' (unat (GDT_ENTRY ?sel))) = ?s" "tk_links k' = tk_links ?k2" "tk_pages k' = tk_pages ?k2"
    "tk_tid k' = tk_tid ?k2" by blast
  have regs: "tk_regs k' = saved_regs k t" "tk_cr3 k' = saved_cr3 k t"
    using k'(3,4) by (simp_all add: saved_regs_def saved_cr3_def set_prev_tss_def)
  then have cur: "current_task k' = t" using assms(2) by (simp add: current_task_def runnable_def)
  have tss: "ts_prev_tss (tk_tss k' ?s) = tk_tr k" using ne unfolding k'(5) by (simp add: set_prev_tss_def)
  have "cpu_ok k'" unfolding cpu_ok_def cur k'(2) using sels k'(6) tss by simp
  moreover have "saved_regs k' = (saved_regs k)(?c := tk_regs k)" "saved_cr3 k' = saved_cr3 k"
    by (auto simp: fun_eq_iff saved_regs_def saved_cr3_def k'(5) set_prev_tss_def)
  ultimately show ?thesis using sw k'(1,2,7-9) regs cur by (simp add: set_prev_tss_def)
qed

text \<open>\<open>setup_swapper\<close> makes the running code a task and establishes the invariant.\<close>

lemma setup_swapper_ok:
  "\<exists>k'. setup_swapper dir k = Inr k' \<and> cpu_ok k' \<and> current_task k' = current_task k \<and> tk_tr k' = TSS1_SELECTOR \<and>
    tk_regs k' = tk_regs k \<and> tk_links k' = tk_links k \<and> tk_pages k' = tk_pages k \<and>
    (\<forall>i. i \<noteq> 5 \<longrightarrow> tk_gdt k' i = tk_gdt k i)"
  by (simp add: setup_swapper_def load_tr_def Let_def tss_descriptor mark_tss_def cpu_ok_def current_task_def
      seg_base_init other_tss_def tss_selectors TSS1_ENTRY_def)

subsection \<open>The queue\<close>

definition sched_inv :: "tasking \<Rightarrow> u32 list \<Rightarrow> bool" where
  "sched_inv k ts \<longleftrightarrow> cpu_ok k \<and> list_rep (tk_links k) Active (map Task_link ts) \<and>
     current_task k \<notin> set ts \<and> (\<forall>t\<in>set ts. runnable k t)"

lemma schedule_alone: "sched_inv k [] \<Longrightarrow> schedule k = Inr k"
  using list_empty_iff [of "tk_links k" Active "[]"] by (simp add: sched_inv_def schedule_def)

lemma schedule_result:
  assumes "sched_inv k (t # ts)"
  shows "\<exists>k'. schedule k = Inr k' \<and> sched_inv k' (ts @ [current_task k]) \<and> current_task k' = t \<and>
    tk_regs k' = saved_regs k t \<and> saved_regs k' = (saved_regs k)(current_task k := tk_regs k) \<and>
    tk_pages k' = tk_pages k"
proof -
  let ?c = "current_task k"
  from assms have ok: "cpu_ok k" "list_rep (tk_links k) Active (Task_link t # map Task_link ts)"
    "?c \<noteq> t" "?c \<notin> set ts" "\<forall>u\<in>set (t # ts). runnable k u" by (auto simp: sched_inv_def)
  have d: "t \<notin> set ts" using list_rep_distinct [OF ok(2)] by (auto simp: distinct_map)
  let ?h1 = "list_remove (Task_link t) (tk_links k)"
  let ?h2 = "list_insert_before Active (Task_link ?c) ?h1"
  let ?k2 = "tk_map (list_insert_before Active (Task_link ?c)) (tk_map (list_remove (Task_link t)) k)"
  have "list_rep ?h1 Active ([] @ map Task_link ts)"
    using ok(2) by (intro list_rep_remove) simp
  then have h2: "list_rep ?h2 Active (map Task_link (ts @ [?c]))"
    using list_rep_insert_before [of ?h1 Active "map Task_link ts" "Task_link ?c"] ok(4) by auto
  have "\<not> list_empty Active (tk_links k)" "lh_next (tk_links k) Active = Task_link t"
    using ok(2) list_empty_iff [OF ok(2)] by (simp_all add: list_rep_def)
  then have s: "schedule k = task_switch t ?k2" by (simp add: schedule_def)
  have same: "cpu_ok ?k2" "runnable ?k2 = runnable k" "current_task ?k2 = ?c" "saved_regs ?k2 = saved_regs k"
    "tk_regs ?k2 = tk_regs k" "tk_links ?k2 = ?h2" "tk_pages ?k2 = tk_pages k"
    using ok(1) by (simp_all add: tk_map_def cpu_ok_def runnable_def current_task_def saved_regs_def fun_eq_iff)
  have "runnable ?k2 t" "t \<noteq> current_task ?k2" using ok same(2,3) by auto
  from task_switch_result [OF same(1) this] obtain k' where k': "task_switch t ?k2 = Inr k'" "cpu_ok k'"
    "current_task k' = t" "tk_regs k' = saved_regs k t" "saved_regs k' = (saved_regs k)(?c := tk_regs k)"
    "tk_links k' = ?h2" "tk_pages k' = tk_pages k" unfolding same by blast
  have "runnable k' u" if "u \<in> set (ts @ [?c])" for u
    using that ok(5) by (auto simp: runnable_def k'(5) current_task_def)
  then have "sched_inv k' (ts @ [?c])" using k' h2 d ok(3) by (simp add: sched_inv_def)
  with s k' show ?thesis by auto
qed

text \<open>
  A run of the machine: the current task computes (any registers, but on its own stack) and now and
  then calls \<open>schedule\<close>. \<open>sched_runs n\<close> counts the calls.
\<close>

definition task_works :: "tasking \<Rightarrow> tasking \<Rightarrow> bool" where
  "task_works k k' \<longleftrightarrow> (\<exists>c. stack_owner (cx_esp c) = current_task k \<and> k' = k\<lparr>tk_regs := c\<rparr>)"

abbreviation sched_runs :: "nat \<Rightarrow> tasking \<Rightarrow> tasking \<Rightarrow> bool" where
  "sched_runs \<equiv> yield_runs schedule task_works"

lemma sched_inv_work:
  assumes "sched_inv k ts" and "stack_owner (cx_esp c) = current_task k"
  shows "sched_inv (k\<lparr>tk_regs := c\<rparr>) ts" and "current_task (k\<lparr>tk_regs := c\<rparr>) = current_task k"
  using assms by (simp_all add: sched_inv_def cpu_ok_def current_task_def runnable_def saved_regs_def)

interpretation scheduler: round_robin schedule task_works sched_inv current_task
proof
  show "\<exists>k'. schedule k = Inr k' \<and> sched_inv k' [] \<and> current_task k' = current_task k" if "sched_inv k []" for k
    using schedule_alone [OF that] that by blast
  show "\<exists>k'. schedule k = Inr k' \<and> sched_inv k' (ts @ [current_task k]) \<and> current_task k' = t"
    if "sched_inv k (t # ts)" for k t ts
    using schedule_result [OF that] by blast
  show "sched_inv k' ts \<and> current_task k' = current_task k" if "sched_inv k ts" "task_works k k'" for k k' ts
    using that sched_inv_work by (auto simp: task_works_def)
qed


subsection \<open>A new task\<close>

lemma stack_owner_top:
  assumes "8192 dvd unat t" and "unat t + 8192 < 2 ^ 32"
  shows "stack_owner (task_stack t) = t"
proof -
  have "unat (t + 0x1FFC) = unat t + 0x1FFC" using assms(2) by (subst unat_plus_no_wrap) simp_all
  then have "(unat (t + 0x1FFC)) div 8192 * 8192 = unat t"
    using assms(1) by (auto elim!: dvdE)
  then have "unat (push_bit 13 (drop_bit 13 (t + 0x1FFC))) = unat t"
    using unat_push_drop_bit [of 13 "t + 0x1FFC"] by simp
  then have "push_bit 13 (drop_bit 13 (t + 0x1FFC)) = t" by (simp only: word_unat_eq_iff)
  moreover have "(0x2000 :: u32) - 1 = mask 13" by (simp add: mask_eq_exp_minus_1)
  ultimately show ?thesis
    by (simp only: stack_owner_def task_stack_def stack_values and_not_mask) (simp add: add.commute)
qed

lemma alloc_task_result:
  assumes "owns Z (tk_pages k) A" and "low_zone Z (tk_pages k)"
  shows "if \<exists>r. aligned r 1 \<and> span (r, 1) \<subseteq> free_frames ZONE_NORMAL (tk_pages k) A
    then \<exists>p k'. alloc_task k = Inr (slab_at p, k') \<and> owns Z (tk_pages k') (insert (p, 1) A) \<and>
      (p, 1) \<notin> A \<and> aligned p 1 \<and> unat p + 2 \<le> 0x38000 \<and> saved_regs k' = saved_regs k \<and>
      alloc_pages 1 ALLOC_NORMAL (tk_pages k) = Inr (Some p, tk_pages k') \<and> same_layout (tk_pages k) (tk_pages k')
    else alloc_task k = Inl (Panic ''Cannot allocate task struct and stack'')"
proof -
  have z: "ZONE_NORMAL \<in> Z" "frames ZONE_NORMAL (tk_pages k) \<subseteq> {..< 0x38000}"
    using assms(2) by (auto simp: low_zone_def frames_def)
  have g: "1 < MAX_ORDER" "ALLOC_NORMAL AND ALLOC_NORMAL \<noteq> 0" by (simp_all add: MAX_ORDER_def ALLOC_NORMAL_def BITU_def BITUL_def)
  note res = alloc_pages_result [OF assms(1) z(1) g]
  show ?thesis
  proof (cases "\<exists>r. aligned r 1 \<and> span (r, 1) \<subseteq> free_frames ZONE_NORMAL (tk_pages k) A")
    case False
    from res [unfolded if_not_P [OF False]]
    have "alloc_pages 1 ALLOC_NORMAL (tk_pages k) = Inr (None, tk_pages k)" .
    then have "alloc_task k = Inl (Panic ''Cannot allocate task struct and stack'')"
      by (simp add: alloc_task_def KERNEL_STACK_ORDER_def)
    then show ?thesis unfolding if_not_P [OF False] .
  next
    case True
    from res [unfolded if_P [OF True]] obtain p st where a: "alloc_pages 1 ALLOC_NORMAL (tk_pages k) = Inr (Some p, st)"
      "owns Z st (insert (p, 1) A)" "(p, 1) \<notin> A" "unat p \<in> frames ZONE_NORMAL (tk_pages k)"
      "same_layout (tk_pages k) st" by auto
    have "span (p, 1) \<subseteq> frames ZONE_NORMAL st"
      using owned_in_zone [OF a(2) _ z(1)] a(4,5) by (simp add: same_layout_frames)
    then have "span (p, 1) \<subseteq> {..< 0x38000}" using z(2) a(5) by (auto simp: same_layout_frames)
    moreover have "unat p + 1 \<in> span (p, 1)" by (simp add: span_def)
    ultimately have p2: "unat p + 2 \<le> 0x38000" by auto
    have al: "aligned p 1" using owns_blocks_ok [OF a(2)] by (auto simp: blocks_ok_def)
    have va: "page_virtual_address p st = slab_at p"
      using a(2) by (auto simp: owns_def page_virtual_address_def page_physical_address_def slab_at_def
          pfn_page_conv)
    have "alloc_task k = Inr (slab_at p, k\<lparr>tk_pages := st,
        tk_links := null_task_link (slab_at p) (tk_links k), tk_tid := (tk_tid k)(slab_at p := 0)\<rparr>)"
      using a(1) by (simp add: alloc_task_def KERNEL_STACK_ORDER_def va Let_def)
    with a p2 al show ?thesis unfolding if_P [OF True] by (auto simp: saved_regs_def fun_eq_iff)
  qed
qed

lemma new_task_aligned:
  assumes "aligned p 1" and "unat p + 2 \<le> 0x38000"
  shows "8192 dvd unat (slab_at p)" and "unat (slab_at p) + 8192 < 2 ^ 32"
proof -
  have u: "unat (slab_at p) = 0xC0000000 + 4096 * unat p" using assms(2) by (intro unat_slab_at) simp
  obtain q where "unat p = 2 * q" using assms(1) by (auto simp: aligned_def)
  then have "unat (slab_at p) = 8192 * (0x60000 + q)" using u by simp
  then show "8192 dvd unat (slab_at p)" by (metis dvd_triv_left)
  show "unat (slab_at p) + 8192 < 2 ^ 32" using u assms(2) by simp
qed

lemma free_task_result:
  assumes "owns Z (tk_pages k) A" and "(p, 1) \<in> A" and "unat p + 2 \<le> 0x38000"
  shows "\<exists>k'. free_task (slab_at p) k = Inr k' \<and> owns Z (tk_pages k') (A - {(p, 1)})"
proof -
  from assms(1) obtain F where inv: "page_inv (tk_pages k) Z F A {}" by (auto simp: owns_def)
  from free_pages_result [OF inv assms(2)] obtain st where
    "free_pages p 1 (tk_pages k) = Inr st" "owns Z st (A - {(p, 1)})" by (auto simp: owns_def)
  moreover have "drop_bit PAGE_SHIFT (phys_addr (slab_at p)) = p" using assms(3) by (intro slab_pfn) simp
  ultimately show ?thesis
    by (simp add: free_task_def KERNEL_STACK_ORDER_def pfn_page_conv [OF inv])
qed

subsection \<open>An instance\<close>

text \<open>Two tasks besides the current one, at \<open>0xC0004000\<close>, \<open>0xC0006000\<close> and \<open>0xC0002000\<close>.\<close>

definition sample_tasking :: tasking where
  "sample_tasking =
     (let k0 = \<lparr>tk_pages = sample_pages, tk_links = list_init_head Active \<lparr>lh_next = \<lambda>n. n, lh_prev = \<lambda>n. n\<rparr>,
            tk_tid = \<lambda>_. 0, tk_tss = \<lambda>_. zero_state,
            tk_gdt = (\<lambda>_. 0)(5 := init_gdt_segment SIZEOF_TASK_STATE 0xC000200C BUSY_TSS_TYPE),
            tk_regs = zero_context\<lparr>cx_esp := 0xC0003F00\<rparr>, tk_cr3 = 0, tk_tr = TSS1_SELECTOR\<rparr>;
          k1 = set_prev_tss 0xC000200C TSS2_SELECTOR k0;
          k2 = schedule_task 0xC0004000 (task_init 0xC0100000 0xC0004000 0x1000 k1)
      in schedule_task 0xC0006000 (task_init 0xC0100000 0xC0006000 0x2000 k2))"

lemma sample_stacks:
  "stack_owner (task_stack 0xC0004000) = 0xC0004000" "stack_owner (task_stack 0xC0006000) = 0xC0006000"
  by (intro stack_owner_top; simp)+

lemma sample_current: "stack_owner 0xC0003F00 = 0xC0002000"
  by (simp add: stack_owner_def stack_values)

lemma sample_sched_inv: "sched_inv sample_tasking [0xC0004000, 0xC0006000]"
  and sample_current_task: "current_task sample_tasking = 0xC0002000"
proof -
  let ?h = "list_init_head Active \<lparr>lh_next = \<lambda>n :: task_node. n, lh_prev = \<lambda>n. n\<rparr>"
  have "list_rep ?h Active []" by (rule list_rep_init)
  then have "list_rep (list_insert_before Active (Task_link 0xC0004000) ?h) Active ([] @ [Task_link 0xC0004000])"
    by (rule list_rep_insert_before) simp
  then have q: "list_rep (list_insert_before Active (Task_link 0xC0006000)
      (list_insert_before Active (Task_link 0xC0004000) ?h)) Active
      (([] @ [Task_link 0xC0004000]) @ [Task_link 0xC0006000])"
    by (rule list_rep_insert_before) simp
  show c: "current_task sample_tasking = 0xC0002000"
    by (simp add: sample_tasking_def Let_def current_task_def schedule_task_def tk_map_def task_init_def
        set_prev_tss_def sample_current)
  have "cpu_ok sample_tasking" unfolding cpu_ok_def c
    by (simp add: sample_tasking_def Let_def schedule_task_def tk_map_def task_init_def set_prev_tss_def
        tss_selectors seg_base_init task_state_of_def SIZEOF_TASK_def other_tss_def)
  moreover have "runnable sample_tasking 0xC0004000" "runnable sample_tasking 0xC0006000"
    by (simp_all add: runnable_def saved_regs_def sample_tasking_def Let_def schedule_task_def tk_map_def
        task_init_def set_prev_tss_def task_state_of_def SIZEOF_TASK_def sample_stacks)
  moreover have "tk_links sample_tasking = list_insert_before Active (Task_link 0xC0006000)
      (list_insert_before Active (Task_link 0xC0004000) ?h)"
    by (simp add: sample_tasking_def Let_def schedule_task_def tk_map_def task_init_def set_prev_tss_def)
  ultimately show "sched_inv sample_tasking [0xC0004000, 0xC0006000]"
    using q by (simp add: sched_inv_def c)
qed

subsection \<open>Properties\<close>

text \<open>
  C16: a switch to a task that can run never faults: the descriptor it overwrites is the free one of
  the two, the processor resumes exactly the registers the other task was saved with, and those of
  the task that is left are saved. Switching back gives the registers back: nothing of a task's
  context is lost, however the two descriptors alternate.
\<close>

theorem task_switch_resumes:
  assumes "cpu_ok k" and "runnable k t" and "t \<noteq> current_task k"
  shows "\<exists>k1 k2. task_switch t k = Inr k1 \<and> cpu_ok k1 \<and> current_task k1 = t \<and>
    tk_regs k1 = saved_regs k t \<and> tk_tr k1 = other_tss (tk_tr k) \<and>
    task_switch (current_task k) k1 = Inr k2 \<and> cpu_ok k2 \<and> tk_regs k2 = tk_regs k \<and>
    saved_regs k2 t = saved_regs k t"
proof -
  let ?c = "current_task k"
  from task_switch_result [OF assms] obtain k1 where k1: "task_switch t k = Inr k1" "cpu_ok k1"
    "current_task k1 = t" "tk_regs k1 = saved_regs k t" "saved_regs k1 = (saved_regs k)(?c := tk_regs k)"
    "tk_tr k1 = other_tss (tk_tr k)" by blast
  have "runnable k1 ?c" by (simp add: runnable_def k1(5) current_task_def)
  moreover have "?c \<noteq> current_task k1" using assms(3) k1(3) by simp
  ultimately obtain k2 where "task_switch ?c k1 = Inr k2" "cpu_ok k2" "tk_regs k2 = saved_regs k1 ?c"
    "saved_regs k2 = (saved_regs k1)(t := tk_regs k1)"
    using task_switch_result [OF k1(2), of ?c] k1(3) by blast
  with k1 assms(3) show ?thesis by auto
qed

theorem task_switch_resumes_witness:
  "\<exists>k1 k2. task_switch 0xC0004000 sample_tasking = Inr k1 \<and> cx_eip (tk_regs k1) = 0x1000 \<and>
    task_switch 0xC0002000 k1 = Inr k2 \<and> tk_regs k2 = tk_regs sample_tasking"
proof -
  have "cpu_ok sample_tasking" "runnable sample_tasking 0xC0004000" using sample_sched_inv
    by (simp_all add: sched_inv_def)
  moreover have "0xC0004000 \<noteq> current_task sample_tasking" by (simp add: sample_current_task)
  ultimately obtain k1 k2 where k: "task_switch 0xC0004000 sample_tasking = Inr k1"
    "tk_regs k1 = saved_regs sample_tasking 0xC0004000" "task_switch 0xC0002000 k1 = Inr k2"
    "tk_regs k2 = tk_regs sample_tasking"
    using task_switch_resumes [of sample_tasking "0xC0004000"] unfolding sample_current_task by blast
  have "cx_eip (saved_regs sample_tasking 0xC0004000) = 0x1000"
    by (simp add: saved_regs_def sample_tasking_def Let_def schedule_task_def tk_map_def
        task_init_def set_prev_tss_def task_state_of_def SIZEOF_TASK_def)
  with k show ?thesis by auto
qed

text \<open>
  C17: the scheduler is a fair round robin. Whatever the tasks compute between their calls, after \<open>n\<close>
  calls of \<open>schedule\<close> the processor runs the task \<open>n\<close> places further in the circle of the current
  task and the queue, the queue holds the rest of the circle, and the next call does not fault: every
  task gets the processor again within as many calls as there are tasks.
\<close>

theorem schedule_round_robin:
  assumes "sched_inv k ts" and "sched_runs n k k'"
  shows "current_task k' = (current_task k # ts) ! (n mod Suc (length ts)) \<and>
    (\<exists>ts' k''. sched_inv k' ts' \<and> current_task k' # ts' = rotate n (current_task k # ts) \<and>
      schedule k' = Inr k'')"
  using scheduler.nth_turn [OF assms(2,1)] scheduler.runs_rotate [OF assms(2,1)] scheduler.never_stuck [OF assms(2,1)]
  by blast

theorem schedule_round_robin_witness:
  "\<exists>k'. schedule sample_tasking = Inr k' \<and> current_task k' = 0xC0004000"
proof -
  obtain k' where k': "schedule sample_tasking = Inr k'" using schedule_result [OF sample_sched_inv] by blast
  have "sched_runs (Suc 0) sample_tasking k'" by (rule runs_schedule [OF runs_start], rule k')
  from schedule_round_robin [OF sample_sched_inv this] k' show ?thesis by simp
qed

text \<open>
  C27: \<open>alloc_task\<close> stops at its assertion exactly when the normal zone has no aligned pair of free
  pages; otherwise the task it returns has a fresh pair of pages for itself, and after \<open>task_init\<close> it
  can run: its stack pointer is the end of its own stack, so that \<open>current_task\<close> finds it, and its
  first instruction is the entry given. \<open>free_task\<close> gives exactly its pages back.
\<close>

theorem alloc_task_runs:
  assumes "owns Z (tk_pages k) A" and "low_zone Z (tk_pages k)"
  shows "if \<exists>r. aligned r 1 \<and> span (r, 1) \<subseteq> free_frames ZONE_NORMAL (tk_pages k) A
    then \<exists>p t k'. alloc_task k = Inr (t, k') \<and> t = virt_addr (push_bit PAGE_SHIFT p) \<and> (p, 1) \<notin> A \<and>
      owns Z (tk_pages k') (insert (p, 1) A) \<and>
      (\<forall>dir entry. runnable (task_init dir t entry k') t \<and>
        cx_eip (saved_regs (task_init dir t entry k') t) = entry \<and>
        (\<exists>k''. free_task t (task_init dir t entry k') = Inr k'' \<and> owns Z (tk_pages k'') A))
    else alloc_task k = Inl (Panic ''Cannot allocate task struct and stack'')"
proof (cases "\<exists>r. aligned r 1 \<and> span (r, 1) \<subseteq> free_frames ZONE_NORMAL (tk_pages k) A")
  case False
  from alloc_task_result [OF assms, unfolded if_not_P [OF False]] show ?thesis unfolding if_not_P [OF False] .
next
  case True
  from alloc_task_result [OF assms, unfolded if_P [OF True]] obtain p k' where a: "alloc_task k = Inr (slab_at p, k')"
    "owns Z (tk_pages k') (insert (p, 1) A)" "(p, 1) \<notin> A" "aligned p 1" "unat p + 2 \<le> 0x38000" by auto
  note top = stack_owner_top [OF new_task_aligned [OF a(4,5)]]
  have "\<forall>dir entry. runnable (task_init dir (slab_at p) entry k') (slab_at p) \<and>
      cx_eip (saved_regs (task_init dir (slab_at p) entry k') (slab_at p)) = entry"
    by (simp add: runnable_def saved_regs_def task_init_def Let_def top)
  moreover have "\<exists>k''. free_task (slab_at p) (task_init dir (slab_at p) entry k') = Inr k'' \<and> owns Z (tk_pages k'') A"
    for dir entry
    using free_task_result [of Z "task_init dir (slab_at p) entry k'" "insert (p, 1) A" p] a(2,3,5)
    by (simp add: task_init_def Let_def)
  ultimately show ?thesis unfolding if_P [OF True] using a(1-3)
    by (intro exI [of _ p] exI [of _ "slab_at p"] exI [of _ k']) (simp add: slab_at_def)
qed

theorem alloc_task_runs_witness:
  "\<exists>t k'. alloc_task sample_tasking = Inr (t, k') \<and> runnable (task_init 0xC0100000 t 0x1000 k') t"
proof -
  have p: "tk_pages sample_tasking = sample_pages"
    by (simp add: sample_tasking_def Let_def schedule_task_def tk_map_def task_init_def set_prev_tss_def)
  have "owns {ZONE_NORMAL, ZONE_HIGH} (tk_pages sample_tasking) {(6, 1)}" unfolding p by (rule sample_owns)
  moreover have "low_zone {ZONE_NORMAL, ZONE_HIGH} (tk_pages sample_tasking)"
    unfolding p by (simp add: low_zone_def sample_pages_def)
  moreover have "aligned 0 1 \<and> span (0, 1) \<subseteq> free_frames ZONE_NORMAL (tk_pages sample_tasking) {(6, 1)}"
    unfolding p by (simp add: aligned_def free_frames_def sample_frames sample_spans span_def) auto
  then have ex: "\<exists>r. aligned r 1 \<and> span (r, 1) \<subseteq> free_frames ZONE_NORMAL (tk_pages sample_tasking) {(6, 1)}" by blast
  ultimately show ?thesis using alloc_task_runs [of "{ZONE_NORMAL, ZONE_HIGH}" sample_tasking "{(6, 1)}"]
    unfolding if_P [OF ex] by blast
qed

end
