(* ===== verification/Acpi.thy ===== *)
theory Acpi
  imports Kernel Utility
begin

text \<open>
  \<open>kernel/acpi.c\<close>, \<open>kernel/arch/x86/acpi.c\<close> and \<open>acpi.h\<close>: the search for the tables of the firmware
  and the walk over the interrupt controllers in the MADT. The tables are read from memory at the
  offsets of the packed structures. The handler of \<open>acpi_parse_madt\<close> is a parameter: it gets the
  address of an entry and may change a state of its own or stop at an assertion. The outer option is
  \<open>None\<close> when a loop does not end, a null pointer is the address 0.
\<close>

subsection \<open>The structures\<close>

definition ACPI_RSDP_SIGN_SIZE :: u32 where "ACPI_RSDP_SIGN_SIZE = 8"
definition ACPI_TABLE_SIGN_SIZE :: u32 where "ACPI_TABLE_SIGN_SIZE = 4"
definition SIZEOF_TABLE_HEADER :: u32 where "SIZEOF_TABLE_HEADER = 36"
definition SIZEOF_MADT :: u32 where "SIZEOF_MADT = 44"

definition rsdp_rsdt_paddr :: "memory \<Rightarrow> u32 \<Rightarrow> u32" where "rsdp_rsdt_paddr m p = read32 m (p + 16)"
definition table_length :: "memory \<Rightarrow> u32 \<Rightarrow> u32" where "table_length m p = read32 m (p + 4)"
definition rsdt_entry :: "memory \<Rightarrow> u32 \<Rightarrow> u32 \<Rightarrow> u32" where
  "rsdt_entry m p i = read32 m (p + SIZEOF_TABLE_HEADER + 4 * i)"
definition madt_lapic_paddr :: "memory \<Rightarrow> u32 \<Rightarrow> u32" where "madt_lapic_paddr m p = read32 m (p + 36)"

definition MADT_LOCAL_APIC :: u32 where "MADT_LOCAL_APIC = 0"
definition MADT_IO_APIC :: u32 where "MADT_IO_APIC = 1"
definition MADT_ISA_SOURCE :: u32 where "MADT_ISA_SOURCE = 2"

definition madt_type :: "memory \<Rightarrow> u32 \<Rightarrow> u8" where "madt_type m h = m h"
definition madt_length :: "memory \<Rightarrow> u32 \<Rightarrow> u8" where "madt_length m h = m (h + 1)"

definition isa_source_source :: "memory \<Rightarrow> u32 \<Rightarrow> u8" where "isa_source_source m h = m (h + 3)"
definition isa_source_gsi :: "memory \<Rightarrow> u32 \<Rightarrow> u8" where "isa_source_gsi m h = m (h + 4)"
definition isa_source_flags :: "memory \<Rightarrow> u32 \<Rightarrow> u16" where "isa_source_flags m h = read16 m (h + 5)"
definition local_apic_id :: "memory \<Rightarrow> u32 \<Rightarrow> u8" where "local_apic_id m h = m (h + 3)"
definition io_apic_paddr :: "memory \<Rightarrow> u32 \<Rightarrow> u32" where "io_apic_paddr m h = read32 m (h + 4)"
definition io_apic_gsi_base :: "memory \<Rightarrow> u32 \<Rightarrow> u32" where "io_apic_gsi_base m h = read32 m (h + 8)"

subsection \<open>The root pointer\<close>

text \<open>\<open>sign\<close> is the address of the constant \<open>RSDP_SIGN\<close>.\<close>

partial_function (option) acpi_find_rsdp_sign :: "memory \<Rightarrow> u32 \<Rightarrow> u32 \<Rightarrow> u32 \<Rightarrow> u32 option" where
  "acpi_find_rsdp_sign m sign ptr r =
     (if ptr < r then
        (if memcmp sign ptr ACPI_RSDP_SIGN_SIZE m = 0 then Some ptr
         else acpi_find_rsdp_sign m sign (ptr + 16) r)
      else Some 0)"

declare acpi_find_rsdp_sign.simps [code]

definition acpi_find_rsdp_addr :: "memory \<Rightarrow> u32 \<Rightarrow> u32 option" where
  "acpi_find_rsdp_addr m sign =
     (let ebda_begin = ucast (read16 m (virt_addr (push_bit 4 0x40E))) :: u32;
          ebda_end = ebda_begin + 0x400
      in case acpi_find_rsdp_sign m sign (virt_addr ebda_begin) (virt_addr ebda_end) of
           None \<Rightarrow> None
         | Some addr \<Rightarrow>
             (if addr \<noteq> 0 then Some addr
              else acpi_find_rsdp_sign m sign (virt_addr 0xE0000) (virt_addr 0x100000)))"

definition acpi_rsdp_probe :: "memory \<Rightarrow> u32 \<Rightarrow> u32 option" where
  "acpi_rsdp_probe m sign = acpi_find_rsdp_addr m sign"

record acpi =
  ac_rsdp :: u32
  ac_rsdt :: u32

definition setup_acpi :: "memory \<Rightarrow> u32 \<Rightarrow> acpi \<Rightarrow> acpi option" where
  "setup_acpi m sign st =
     (case acpi_rsdp_probe m sign of
        None \<Rightarrow> None
      | Some rsdp \<Rightarrow>
          (let st1 = st\<lparr>ac_rsdp := rsdp\<rparr>
           in if rsdp = 0 then Some st1
              else Some (st1\<lparr>ac_rsdt := virt_addr (rsdp_rsdt_paddr m rsdp)\<rparr>)))"

definition acpi_available :: "acpi \<Rightarrow> bool" where
  "acpi_available st \<longleftrightarrow> ac_rsdp st \<noteq> 0"

subsection \<open>The tables\<close>

text \<open>The difference of two word pointers is a signed division by 4.\<close>

definition acpi_tables :: "memory \<Rightarrow> acpi \<Rightarrow> u32" where
  "acpi_tables m st =
     (let first = ac_rsdt st + SIZEOF_TABLE_HEADER; last = ac_rsdt st + table_length m (ac_rsdt st)
      in signed_drop_bit 2 (last - first))"

definition acpi_get_table :: "memory \<Rightarrow> u32 \<Rightarrow> acpi \<Rightarrow> u32" where
  "acpi_get_table m idx st = virt_addr (rsdt_entry m (ac_rsdt st) idx)"

function table_loop :: "memory \<Rightarrow> u32 \<Rightarrow> acpi \<Rightarrow> u32 \<Rightarrow> u32 \<Rightarrow> u32" where
  "table_loop m sign st i tables =
     (if i \<noteq> tables then
        (let hdr = acpi_get_table m i st
         in if memcmp hdr sign ACPI_TABLE_SIGN_SIZE m = 0 then hdr
            else table_loop m sign st (i + 1) tables)
      else 0)"
  by pat_completeness auto
termination
  by (relation "measure (\<lambda>(m, s, st, i, n). unat (n - i))") (auto intro: unat_rest)

declare table_loop.simps [simp del]

definition acpi_table_find :: "memory \<Rightarrow> u32 \<Rightarrow> acpi \<Rightarrow> u32 outcome" where
  "acpi_table_find m sign st =
     bind_outcome (assert_that (acpi_available st) ''ACPI: ACPI isn't initialized'') (\<lambda>_.
       Inr (table_loop m sign st 0 (acpi_tables m st)))"

subsection \<open>The interrupt controllers\<close>

partial_function (option) madt_loop ::
  "memory \<Rightarrow> u32 \<Rightarrow> (u32 \<Rightarrow> 's \<Rightarrow> 's outcome) \<Rightarrow> u32 \<Rightarrow> u32 \<Rightarrow> u32 \<Rightarrow> 's \<Rightarrow> (u32 \<times> 's) outcome option" where
  "madt_loop m type handler hdr fin count s =
     (if hdr < fin then
        (let next = hdr + ucast (madt_length m hdr)
         in if ucast (madt_type m hdr) = type then
              (case handler hdr s of
                 Inl e \<Rightarrow> Some (Inl e)
               | Inr s1 \<Rightarrow> madt_loop m type handler next fin (count + 1) s1)
            else madt_loop m type handler next fin count s)
      else Some (Inr (count, s)))"

declare madt_loop.simps [code]

text \<open>\<open>madt_sign\<close> is the address of the string literal \<open>APIC\<close>.\<close>

definition acpi_parse_madt ::
  "memory \<Rightarrow> u32 \<Rightarrow> u32 \<Rightarrow> (u32 \<Rightarrow> 's \<Rightarrow> 's outcome) \<Rightarrow> acpi \<Rightarrow> 's \<Rightarrow> (u32 \<times> 's) outcome option" where
  "acpi_parse_madt m madt_sign type handler st s =
     (if \<not> acpi_available st then Some (Inl (Panic ''ACPI unavailable''))
      else case acpi_table_find m madt_sign st of
        Inl e \<Rightarrow> Some (Inl e)
      | Inr tbl \<Rightarrow>
          (if tbl = 0 then Some (Inl (Panic ''There is no MADT''))
           else madt_loop m type handler (tbl + SIZEOF_MADT) (tbl + table_length m tbl) 0 s))"

subsection \<open>The search\<close>

text \<open>The four bytes of a signature at two addresses.\<close>

definition same_sign :: "memory \<Rightarrow> u32 \<Rightarrow> u32 \<Rightarrow> bool" where
  "same_sign m a b \<longleftrightarrow> (\<forall>i < 4. m (a + of_nat i) = m (b + of_nat i))"

lemma memcmp_sign:
  "unat a + 4 < 2 ^ 32 \<Longrightarrow> memcmp a b ACPI_TABLE_SIGN_SIZE m = 0 \<longleftrightarrow> same_sign m a b"
  using memcmp_eq_0_iff [of a ACPI_TABLE_SIGN_SIZE b m]
  by (simp add: ACPI_TABLE_SIGN_SIZE_def same_sign_def)

lemma table_loop_find:
  assumes "\<And>i. i < unat n \<Longrightarrow> unat (acpi_get_table m (of_nat i) st) + 4 < 2 ^ 32" and "i \<le> n"
  shows "table_loop m sign st i n =
    (case find (\<lambda>j. same_sign m (acpi_get_table m (of_nat j) st) sign) [unat i..<unat n] of
       None \<Rightarrow> 0 | Some j \<Rightarrow> acpi_get_table m (of_nat j) st)"
  using assms
proof (induction m sign st i n rule: table_loop.induct)
  case (1 m sign st i n)
  show ?case
  proof (cases "i = n")
    case False
    with 1(3) have lt: "unat i < unat n" by (simp add: word_le_nat_alt word_unat_eq_iff)
    then have i1: "unat (i + 1) = Suc (unat i)" using unat_lt_2p32 [of n]
      by (subst unat_plus_no_wrap) (simp_all del: unat_lt_2p32)
    have le: "i + 1 \<le> n" using lt i1 by (simp add: word_le_nat_alt)
    have sg: "memcmp (acpi_get_table m i st) sign ACPI_TABLE_SIGN_SIZE m = 0 \<longleftrightarrow>
        same_sign m (acpi_get_table m i st) sign"
      using 1(2) [of "unat i"] lt by (intro memcmp_sign) simp
    show ?thesis
    proof (cases "same_sign m (acpi_get_table m i st) sign")
      case True
      then show ?thesis using False lt sg
        by (subst table_loop.simps) (simp add: Let_def upt_conv_Cons)
    next
      case no: False
      have "table_loop m sign st i n = table_loop m sign st (i + 1) n"
        using False no sg by (subst table_loop.simps) (simp add: Let_def)
      also note 1(1) [OF False refl _ 1(2) le]
      finally show ?thesis using no sg lt by (simp add: i1 upt_conv_Cons)
    qed
  qed (subst table_loop.simps, simp)
qed

lemma tables_count:
  assumes "unat (table_length m (ac_rsdt st)) = 36 + 4 * n" and "36 + 4 * n < 2 ^ 31"
  shows "unat (acpi_tables m st) = n"
proof -
  let ?d = "ac_rsdt st + table_length m (ac_rsdt st) - (ac_rsdt st + SIZEOF_TABLE_HEADER)"
  have "?d = table_length m (ac_rsdt st) - SIZEOF_TABLE_HEADER" by simp
  moreover have "SIZEOF_TABLE_HEADER \<le> table_length m (ac_rsdt st)"
    using assms(1) by (simp add: SIZEOF_TABLE_HEADER_def word_le_nat_alt)
  ultimately have u: "unat ?d = 4 * n"
    using assms(1) by (simp add: unat_minus_no_wrap SIZEOF_TABLE_HEADER_def)
  have "\<not> bit ?d 31"
  proof -
    have "unat (?d div 2 ^ 31) = 0" using u assms(2) by (simp add: unat_div)
    then have "?d div 2 ^ 31 = 0" by (simp only: unat_eq_0)
    then show ?thesis by (simp only: bit_iff_odd) simp
  qed
  then have "signed_drop_bit 2 ?d = drop_bit 2 ?d"
    by (intro bit_word_eqI) (auto simp: bit_simps dest: bit_imp_le_length)
  then have "unat (acpi_tables m st) = unat (drop_bit 2 ?d)" by (simp add: acpi_tables_def)
  then show ?thesis using u by (simp add: unat_div drop_bit_eq_div)
qed


subsection \<open>The walk\<close>

text \<open>
  The addresses of the entries from \<open>a\<close> on, each followed by the next at the distance of its length
  field; the last one ends at or behind the end of the table.
\<close>

fun entries_at :: "memory \<Rightarrow> u32 \<Rightarrow> u32 \<Rightarrow> u32 list \<Rightarrow> bool" where
  "entries_at m a fin [] \<longleftrightarrow> \<not> a < fin"
| "entries_at m a fin (h # hs) \<longleftrightarrow> a < fin \<and> h = a \<and> entries_at m (a + ucast (madt_length m a)) fin hs"

fun handle_all :: "('h \<Rightarrow> 's \<Rightarrow> 's outcome) \<Rightarrow> 'h list \<Rightarrow> 's \<Rightarrow> 's outcome" where
  "handle_all handler [] s = Inr s"
| "handle_all handler (h # hs) s = bind_outcome (handler h s) (handle_all handler hs)"

definition of_type :: "memory \<Rightarrow> u32 \<Rightarrow> u32 \<Rightarrow> bool" where
  "of_type m type h \<longleftrightarrow> ucast (madt_type m h) = type"

lemma madt_loop_entries:
  "entries_at m a fin hs \<Longrightarrow> madt_loop m type handler a fin count s =
    Some (bind_outcome (handle_all handler (filter (of_type m type) hs) s)
      (\<lambda>s1. Inr (count + of_nat (length (filter (of_type m type) hs)), s1)))"
proof (induction hs arbitrary: a count s)
  case Nil
  then show ?case by (subst madt_loop.simps) simp
next
  case (Cons h hs)
  then have h: "a < fin" "h = a" "entries_at m (a + ucast (madt_length m a)) fin hs" by auto
  show ?case
  proof (cases "of_type m type a")
    case False
    with Cons.IH [OF h(3)] h(1,2) show ?thesis
      by (subst madt_loop.simps) (simp add: of_type_def [symmetric] Let_def)
  next
    case True
    show ?thesis
    proof (cases "handler a s")
      case (Inl e)
      with True h(1,2) show ?thesis
        by (subst madt_loop.simps) (simp add: of_type_def [symmetric] Let_def)
    next
      case (Inr s1)
      with True h(1,2) show ?thesis using Cons.IH [OF h(3), of "count + 1" s1]
        by (subst madt_loop.simps) (simp add: of_type_def [symmetric] Let_def add.assoc)
    qed
  qed
qed

text \<open>An entry of length 0 is never left: no result satisfies the equation of the loop.\<close>

lemma madt_loop_stuck:
  assumes "h < fin" and "madt_length m h = 0" and "\<forall>s. \<exists>s'. handler h s = Inr s'"
  shows "madt_loop m type handler h fin count s = None"
proof -
  let ?P = "\<lambda>m' (type' :: u32) handler' hdr' fin' (count' :: u32) (s' :: 'a) (y' :: (u32 \<times> 'a) outcome).
    \<not> (m' = m \<and> fin' = fin \<and> handler' = handler \<and> hdr' = h)"
  have "?P m type handler h fin count s y" if "madt_loop m type handler h fin count s = Some y" for y
    using that
  proof (rule madt_loop.raw_induct [where P = ?P, rotated])
    fix f m' type' handler' hdr' fin' count' s' y'
    assume IH: "\<And>m type handler hdr fin count s y. f m type handler hdr fin count s = Some y \<Longrightarrow>
        ?P m type handler hdr fin count s y"
      and eq: "(if hdr' < fin' then
          (let next = hdr' + ucast (madt_length m' hdr')
           in if ucast (madt_type m' hdr') = type' then
                (case handler' hdr' s' of Inl e \<Rightarrow> Some (Inl e)
                 | Inr s1 \<Rightarrow> f m' type' handler' next fin' (count' + 1) s1)
              else f m' type' handler' next fin' count' s')
        else Some (Inr (count', s'))) = Some y'"
    show "?P m' type' handler' hdr' fin' count' s' y'"
    proof
      assume at: "m' = m \<and> fin' = fin \<and> handler' = handler \<and> hdr' = h"
      obtain s1 where "handler h s' = Inr s1" using assms(3) by blast
      with eq at assms(1,2) have "f m type' handler h fin (count' + 1) s1 = Some y' \<or>
          f m type' handler h fin count' s' = Some y'"
        by (auto simp: Let_def split: if_splits)
      then show False using IH by blast
    qed
  qed
  then show ?thesis by (cases "madt_loop m type handler h fin count s") auto
qed

subsection \<open>An instance\<close>

text \<open>
  A root table with two tables, the second a MADT with a local APIC, an I/O APIC and an override of
  interrupt 0; the literal \<open>APIC\<close> is at \<open>0xC0009000\<close>.
\<close>

definition sample_tables :: memory where
  "sample_tables = (\<lambda>_. 0)(
     0xC0001004 := 44, 0xC0001025 := 0x20, 0xC0001029 := 0x30,
     0xC0002000 := 70, 0xC0002001 := 65, 0xC0002002 := 67, 0xC0002003 := 80,
     0xC0003000 := 65, 0xC0003001 := 80, 0xC0003002 := 73, 0xC0003003 := 67, 0xC0003004 := 74,
     0xC0003026 := 0xE0, 0xC0003027 := 0xFE,
     0xC000302D := 8, 0xC0003030 := 1,
     0xC0003034 := 1, 0xC0003035 := 12, 0xC0003036 := 2, 0xC000303A := 0xC0, 0xC000303B := 0xFE,
     0xC0003040 := 2, 0xC0003041 := 10, 0xC0003044 := 2,
     0xC0009000 := 65, 0xC0009001 := 80, 0xC0009002 := 73, 0xC0009003 := 67)"

definition sample_acpi :: acpi where
  "sample_acpi = \<lparr>ac_rsdp = 0xC00F0000, ac_rsdt = 0xC0001000\<rparr>"


lemma sample_madt:
  "acpi_available sample_acpi" "acpi_table_find sample_tables 0xC0009000 sample_acpi = Inr 0xC0003000"
  "table_length sample_tables 0xC0003000 = 74" "table_length sample_tables 0xC0001000 = 44"
  by code_simp+

lemma sample_entries:
  "entries_at sample_tables 0xC000302C 0xC000304A [0xC000302C, 0xC0003034, 0xC0003040]"
  "filter (of_type sample_tables MADT_IO_APIC) [0xC000302C, 0xC0003034, 0xC0003040] = [0xC0003034]"
  "filter (of_type sample_tables MADT_ISA_SOURCE) [0xC000302C, 0xC0003034, 0xC0003040] = [0xC0003040]"
  "filter (of_type sample_tables MADT_LOCAL_APIC) [0xC000302C, 0xC0003034, 0xC0003040] = [0xC000302C]"
  by code_simp+

subsection \<open>Properties\<close>

text \<open>
  C32: with the root pointer found and the tables inside the address space, \<open>acpi_table_find\<close> returns
  the first table in the order of the root table that has the signature, and null when there is none.
\<close>

theorem acpi_table_find_first:
  assumes "acpi_available st" and "unat (table_length m (ac_rsdt st)) = 36 + 4 * n" and "36 + 4 * n < 2 ^ 31"
    and "\<forall>i < n. unat (acpi_get_table m (of_nat i) st) + 4 < 2 ^ 32"
  shows "\<exists>t. acpi_table_find m sign st = Inr t \<and>
    ((\<exists>i < n. t = acpi_get_table m (of_nat i) st \<and> same_sign m t sign \<and>
        (\<forall>j < i. \<not> same_sign m (acpi_get_table m (of_nat j) st) sign)) \<or>
     t = 0 \<and> (\<forall>i < n. \<not> same_sign m (acpi_get_table m (of_nat i) st) sign))"
proof -
  note n = tables_count [OF assms(2,3)]
  let ?f = "find (\<lambda>j. same_sign m (acpi_get_table m (of_nat j) st) sign) [0..<n]"
  have f: "acpi_table_find m sign st = Inr (case ?f of None \<Rightarrow> 0 | Some j \<Rightarrow> acpi_get_table m (of_nat j) st)"
    using table_loop_find [of "acpi_tables m st" m st 0 sign] assms(1,4)
    by (simp add: acpi_table_find_def n)
  show ?thesis
  proof (cases ?f)
    case None
    moreover from None have "\<forall>i < n. \<not> same_sign m (acpi_get_table m (of_nat i) st) sign"
      by (auto simp: find_None_iff)
    ultimately show ?thesis using f by simp
  next
    case (Some i)
    then have "i < n" "same_sign m (acpi_get_table m (of_nat i) st) sign"
      "\<forall>j < i. \<not> same_sign m (acpi_get_table m (of_nat j) st) sign"
      by (auto simp: find_Some_iff)
    then show ?thesis using f Some by auto
  qed
qed

text \<open>
  C31: \<open>acpi_parse_madt\<close> stops at an assertion without ACPI or without a MADT. Otherwise, when the
  entries of the table follow each other up to its end, it returns, has called the handler on exactly
  the entries of the type, in their order, up to the first failure, and counts them. When the first
  entry has length 0 it does not return.
\<close>

theorem acpi_parse_madt_walks:
  "(\<not> acpi_available st \<longrightarrow> acpi_parse_madt m madt_sign type handler st s = Some (Inl (Panic ''ACPI unavailable''))) \<and>
   (acpi_table_find m madt_sign st = Inr 0 \<and> acpi_available st \<longrightarrow>
     acpi_parse_madt m madt_sign type handler st s = Some (Inl (Panic ''There is no MADT''))) \<and>
   (\<forall>tbl hs. acpi_available st \<and> acpi_table_find m madt_sign st = Inr tbl \<and> tbl \<noteq> 0 \<and>
       entries_at m (tbl + 44) (tbl + table_length m tbl) hs \<longrightarrow>
     acpi_parse_madt m madt_sign type handler st s =
       Some (bind_outcome (handle_all handler (filter (of_type m type) hs) s)
         (\<lambda>s1. Inr (of_nat (length (filter (of_type m type) hs)), s1)))) \<and>
   (\<forall>tbl. acpi_available st \<and> acpi_table_find m madt_sign st = Inr tbl \<and> tbl \<noteq> 0 \<and>
       tbl + 44 < tbl + table_length m tbl \<and> madt_length m (tbl + 44) = 0 \<and>
       (\<forall>s. \<exists>s'. handler (tbl + 44) s = Inr s') \<longrightarrow>
     acpi_parse_madt m madt_sign type handler st s = None)"
  using madt_loop_entries [of m _ _ _ type handler 0 s] madt_loop_stuck [of _ _ m handler type 0 s]
  by (auto simp: acpi_parse_madt_def SIZEOF_MADT_def)

theorem acpi_table_find_first_witness:
  "\<exists>t. acpi_table_find sample_tables 0xC0009000 sample_acpi = Inr t \<and>
    t \<in> {acpi_get_table sample_tables 0 sample_acpi, acpi_get_table sample_tables 1 sample_acpi, 0}"
proof -
  have "acpi_get_table sample_tables 0 sample_acpi = 0xC0002000" "acpi_get_table sample_tables 1 sample_acpi = 0xC0003000"
    by code_simp+
  then have "\<forall>i < 2. unat (acpi_get_table sample_tables (of_nat i) sample_acpi) + 4 < 2 ^ 32"
    by (auto simp: less_2_cases_iff)
  moreover have "unat (table_length sample_tables (ac_rsdt sample_acpi)) = 36 + 4 * 2"
    by (simp add: sample_madt(4) sample_acpi_def)
  ultimately show ?thesis
    using acpi_table_find_first [OF sample_madt(1), of sample_tables 2 "0xC0009000"]
    by (auto simp: less_2_cases_iff)
qed

theorem acpi_parse_madt_walks_witness:
  "acpi_parse_madt sample_tables 0xC0009000 MADT_IO_APIC (\<lambda>h n. Inr (n + h)) sample_acpi 0 =
    Some (Inr (1, 0xC0003034))"
proof -
  have "acpi_available sample_acpi \<and> acpi_table_find sample_tables 0xC0009000 sample_acpi = Inr 0xC0003000 \<and>
      0xC0003000 \<noteq> (0 :: u32) \<and> entries_at sample_tables (0xC0003000 + 44)
        (0xC0003000 + table_length sample_tables 0xC0003000) [0xC000302C, 0xC0003034, 0xC0003040]"
    using sample_madt sample_entries(1) by (simp del: entries_at.simps)
  with acpi_parse_madt_walks [of sample_acpi sample_tables "0xC0009000" MADT_IO_APIC "\<lambda>h n. Inr (n + h)" 0]
  have "acpi_parse_madt sample_tables 0xC0009000 MADT_IO_APIC (\<lambda>h n. Inr (n + h)) sample_acpi 0 =
      Some (bind_outcome (handle_all (\<lambda>h n. Inr (n + h)) [0xC0003034] 0) (\<lambda>s1. Inr (of_nat (length [0xC0003034 :: u32]), s1)))"
    unfolding sample_entries(2) [symmetric] by blast
  then show ?thesis by simp
qed

end
