(* ===== verification/Irq.thy ===== *)
theory Irq
  imports Kernel Ports
begin

text \<open>
  \<open>kernel/irq.c\<close>, \<open>irq.h\<close> and \<open>kernel/arch/x86/i8259a.c\<close>: the interrupt controller as the kernel sees
  it, a structure of functions, and the first controller, the pair of 8259A chips. The locale
  \<open>irq_controller\<close> is the contract between the two: an interrupt belongs to a line, masking and
  unmasking change the mask of exactly that line, the end of an interrupt changes none. What follows
  for any history of calls is proved once in the locale; it is interpreted on the 8259A here and on
  the APIC in its own theory.
\<close>

subsection \<open>The interface\<close>

definition HW_INTERRUPT_OFFSET :: u32 where "HW_INTERRUPT_OFFSET = 0x20"
definition HWIRQ_RISING :: u32 where "HWIRQ_RISING = 1"
definition HWIRQ_FALLING :: u32 where "HWIRQ_FALLING = 2"
definition HWIRQ_HIGH :: u32 where "HWIRQ_HIGH = 4"
definition HWIRQ_LOW :: u32 where "HWIRQ_LOW = 8"
definition HWIRQ_DISABLED :: u32 where "HWIRQ_DISABLED = 16"

lemmas hwirq_defs = HWIRQ_RISING_def HWIRQ_FALLING_def HWIRQ_HIGH_def HWIRQ_LOW_def HWIRQ_DISABLED_def

text \<open>A null function pointer is \<open>None\<close>, and so is the null pointer to the structure.\<close>

record 's irqchip =
  ic_setup :: "(u32 \<Rightarrow> u32 \<Rightarrow> 's \<Rightarrow> 's outcome) option"
  ic_mask :: "(u32 \<Rightarrow> 's \<Rightarrow> 's outcome) option"
  ic_unmask :: "(u32 \<Rightarrow> 's \<Rightarrow> 's outcome) option"
  ic_eoi :: "(u32 \<Rightarrow> 's \<Rightarrow> 's outcome) option"

definition irqchip_must_have :: "('s irqchip \<Rightarrow> 'f option) \<Rightarrow> 's irqchip option \<Rightarrow> 'f outcome" where
  "irqchip_must_have fun chip =
     (case chip of
        None \<Rightarrow> Inl (Panic ''IRQ chip isn't initialized or has no function'')
      | Some c \<Rightarrow>
          (case fun c of
             None \<Rightarrow> Inl (Panic ''IRQ chip isn't initialized or has no function'')
           | Some f \<Rightarrow> Inr f))"

definition irqchip_register :: "'s irqchip \<Rightarrow> 's irqchip option \<Rightarrow> 's irqchip option" where
  "irqchip_register chip irqchip = Some chip"

definition irqchip_setup :: "'s irqchip option \<Rightarrow> u32 \<Rightarrow> u32 \<Rightarrow> 's \<Rightarrow> 's outcome" where
  "irqchip_setup chip irq flags st = bind_outcome (irqchip_must_have ic_setup chip) (\<lambda>f. f irq flags st)"

definition irqchip_mask :: "'s irqchip option \<Rightarrow> u32 \<Rightarrow> 's \<Rightarrow> 's outcome" where
  "irqchip_mask chip irq st = bind_outcome (irqchip_must_have ic_mask chip) (\<lambda>f. f irq st)"

definition irqchip_unmask :: "'s irqchip option \<Rightarrow> u32 \<Rightarrow> 's \<Rightarrow> 's outcome" where
  "irqchip_unmask chip irq st = bind_outcome (irqchip_must_have ic_unmask chip) (\<lambda>f. f irq st)"

definition irqchip_eoi :: "'s irqchip option \<Rightarrow> u32 \<Rightarrow> 's \<Rightarrow> 's outcome" where
  "irqchip_eoi chip irq st = bind_outcome (irqchip_must_have ic_eoi chip) (\<lambda>f. f irq st)"

lemmas irqchip_defs = irqchip_must_have_def irqchip_register_def irqchip_setup_def irqchip_mask_def
  irqchip_unmask_def irqchip_eoi_def

subsection \<open>Histories of calls\<close>

datatype irq_call = Mask u32 | Unmask u32 | Eoi u32

fun irq_of :: "irq_call \<Rightarrow> u32" where
  "irq_of (Mask i) = i" | "irq_of (Unmask i) = i" | "irq_of (Eoi i) = i"

fun irq_calls :: "'s irqchip option \<Rightarrow> irq_call list \<Rightarrow> 's \<Rightarrow> 's outcome" where
  "irq_calls chip [] st = Inr st"
| "irq_calls chip (Mask i # cs) st = bind_outcome (irqchip_mask chip i st) (irq_calls chip cs)"
| "irq_calls chip (Unmask i # cs) st = bind_outcome (irqchip_unmask chip i st) (irq_calls chip cs)"
| "irq_calls chip (Eoi i # cs) st = bind_outcome (irqchip_eoi chip i st) (irq_calls chip cs)"

text \<open>What the calls should do to the masks of the lines.\<close>

fun mask_effect :: "(u32 \<Rightarrow> 'l) \<Rightarrow> irq_call \<Rightarrow> ('l \<Rightarrow> bool) \<Rightarrow> ('l \<Rightarrow> bool)" where
  "mask_effect line (Mask i) m = m(line i := True)"
| "mask_effect line (Unmask i) m = m(line i := False)"
| "mask_effect line (Eoi i) m = m"

locale irq_controller =
  fixes chip :: "'s irqchip"
    and ok :: "'s \<Rightarrow> bool"
    and line :: "'s \<Rightarrow> u32 \<Rightarrow> 'l option"
    and masked :: "'s \<Rightarrow> 'l \<Rightarrow> bool"
  assumes mask_line: "\<lbrakk>ok st; line st i = Some l\<rbrakk> \<Longrightarrow> \<exists>st'. irqchip_mask (Some chip) i st = Inr st' \<and>
      ok st' \<and> line st' = line st \<and> masked st' = (masked st)(l := True)"
    and unmask_line: "\<lbrakk>ok st; line st i = Some l\<rbrakk> \<Longrightarrow> \<exists>st'. irqchip_unmask (Some chip) i st = Inr st' \<and>
      ok st' \<and> line st' = line st \<and> masked st' = (masked st)(l := False)"
    and eoi_line: "\<lbrakk>ok st; line st i = Some l\<rbrakk> \<Longrightarrow> \<exists>st'. irqchip_eoi (Some chip) i st = Inr st' \<and>
      ok st' \<and> line st' = line st \<and> masked st' = masked st"
begin

lemma call_effect:
  assumes "ok st" and "line st (irq_of c) = Some l"
  shows "\<exists>st'. irq_calls (Some chip) (c # cs) st = irq_calls (Some chip) cs st' \<and> ok st' \<and>
    line st' = line st \<and> masked st' = mask_effect (\<lambda>i. the (line st i)) c (masked st)"
proof (cases c)
  case (Mask i)
  with mask_line [OF assms(1), of i l] assms(2) show ?thesis by auto
next
  case (Unmask i)
  with unmask_line [OF assms(1), of i l] assms(2) show ?thesis by auto
next
  case (Eoi i)
  with eoi_line [OF assms(1), of i l] assms(2) show ?thesis by auto
qed

lemma history:
  "\<lbrakk>ok st; \<forall>c\<in>set cs. line st (irq_of c) \<noteq> None\<rbrakk> \<Longrightarrow>
    \<exists>st'. irq_calls (Some chip) cs st = Inr st' \<and> ok st' \<and> line st' = line st \<and>
      masked st' = fold (mask_effect (\<lambda>i. the (line st i))) cs (masked st)"
proof (induction cs arbitrary: st)
  case (Cons c cs)
  then obtain l where "line st (irq_of c) = Some l" by auto
  from call_effect [OF Cons.prems(1) this, of cs] obtain st1 where st1:
    "irq_calls (Some chip) (c # cs) st = irq_calls (Some chip) cs st1" "ok st1" "line st1 = line st"
    "masked st1 = mask_effect (\<lambda>i. the (line st i)) c (masked st)" by blast
  moreover have "\<forall>c\<in>set cs. line st1 (irq_of c) \<noteq> None" using Cons.prems(2) st1(3) by simp
  ultimately show ?case using Cons.IH [OF st1(2)] by auto
qed simp

text \<open>An interrupt that is masked and unmasked again leaves every mask as it was before.\<close>

lemma mask_unmask:
  assumes "ok st" and "line st i = Some l" and "\<not> masked st l"
  shows "\<exists>st'. irq_calls (Some chip) [Mask i, Unmask i] st = Inr st' \<and> masked st' = masked st"
proof -
  obtain st' where "irq_calls (Some chip) [Mask i, Unmask i] st = Inr st'"
    "masked st' = fold (mask_effect (\<lambda>i. the (line st i))) [Mask i, Unmask i] (masked st)"
    using history [OF assms(1), of "[Mask i, Unmask i]"] assms(2) by auto
  with assms(2,3) show ?thesis by (auto simp: fun_eq_iff)
qed

end

subsection \<open>The 8259A\<close>

definition PIC_MASTER_CMD_PORT :: u16 where "PIC_MASTER_CMD_PORT = 0x20"
definition PIC_MASTER_DATA_PORT :: u16 where "PIC_MASTER_DATA_PORT = 0x21"
definition PIC_SLAVE_CMD_PORT :: u16 where "PIC_SLAVE_CMD_PORT = 0xA0"
definition PIC_SLAVE_DATA_PORT :: u16 where "PIC_SLAVE_DATA_PORT = 0xA1"
definition PIC_SLAVE_IRQ :: u32 where "PIC_SLAVE_IRQ = 0x02"
definition PIC_SLAVE_IRQ_BIT :: u32 where "PIC_SLAVE_IRQ_BIT = BITU (unat PIC_SLAVE_IRQ)"
definition PIC_IRQS_PER_CHIP :: u32 where "PIC_IRQS_PER_CHIP = 8"
definition PIC_EOI_CMD :: u32 where "PIC_EOI_CMD = 0x60"
definition PIC_ICW1_EXPECT_ICW4 :: u32 where "PIC_ICW1_EXPECT_ICW4 = BITU 0"
definition PIC_ICW1_INIT :: u32 where "PIC_ICW1_INIT = BITU 4"
definition PIC_ICW4_8086 :: u32 where "PIC_ICW4_8086 = BITU 0"

lemmas pic_defs = PIC_MASTER_CMD_PORT_def PIC_MASTER_DATA_PORT_def PIC_SLAVE_CMD_PORT_def
  PIC_SLAVE_DATA_PORT_def PIC_SLAVE_IRQ_def PIC_SLAVE_IRQ_BIT_def PIC_IRQS_PER_CHIP_def PIC_EOI_CMD_def
  PIC_ICW1_EXPECT_ICW4_def PIC_ICW1_INIT_def PIC_ICW4_8086_def BITU_def

record pic =
  pic_irq_mask :: u32
  pic_ports :: ports

text \<open>\<open>out8\<close> of an \<open>unsigned\<close> passes its low byte.\<close>

definition pic_out :: "u16 \<Rightarrow> u32 \<Rightarrow> pic \<Rightarrow> pic" where
  "pic_out port v st = st\<lparr>pic_ports := out8 port (ucast v) (pic_ports st)\<rparr>"

definition pic_remap :: "u32 \<Rightarrow> pic \<Rightarrow> pic" where
  "pic_remap offset st =
     (let s1 = pic_out PIC_MASTER_CMD_PORT (PIC_ICW1_EXPECT_ICW4 OR PIC_ICW1_INIT) st;
          s2 = pic_out PIC_SLAVE_CMD_PORT (PIC_ICW1_EXPECT_ICW4 OR PIC_ICW1_INIT) s1;
          s3 = pic_out PIC_MASTER_DATA_PORT offset s2;
          s4 = pic_out PIC_SLAVE_DATA_PORT (offset + PIC_IRQS_PER_CHIP) s3;
          s5 = pic_out PIC_MASTER_DATA_PORT PIC_SLAVE_IRQ_BIT s4;
          s6 = pic_out PIC_SLAVE_DATA_PORT PIC_SLAVE_IRQ s5;
          s7 = pic_out PIC_MASTER_DATA_PORT PIC_ICW4_8086 s6;
          s8 = pic_out PIC_SLAVE_DATA_PORT PIC_ICW4_8086 s7;
          s9 = pic_out PIC_MASTER_DATA_PORT (pic_irq_mask s8 AND 0xFF) s8
      in pic_out PIC_SLAVE_DATA_PORT (drop_bit 8 (pic_irq_mask s9) AND 0xFF) s9)"

definition pic_write_mask :: "u32 \<Rightarrow> pic \<Rightarrow> pic" where
  "pic_write_mask irq st =
     (if irq < 8 then pic_out PIC_MASTER_DATA_PORT (pic_irq_mask st AND 0xFF) st
      else pic_out PIC_SLAVE_DATA_PORT (drop_bit 8 (pic_irq_mask st) AND 0xFF) st)"

text \<open>A shift by 32 or more is undefined in C; the model reads it as a shift out of the word.\<close>

definition pic_mask :: "u32 \<Rightarrow> pic \<Rightarrow> pic" where
  "pic_mask irq st = pic_write_mask irq (st\<lparr>pic_irq_mask := pic_irq_mask st OR BITU (unat irq)\<rparr>)"

definition pic_unmask :: "u32 \<Rightarrow> pic \<Rightarrow> pic" where
  "pic_unmask irq st = pic_write_mask irq (st\<lparr>pic_irq_mask := pic_irq_mask st AND NOT (BITU (unat irq))\<rparr>)"

definition pic_setup :: "u32 \<Rightarrow> u32 \<Rightarrow> pic \<Rightarrow> pic" where
  "pic_setup irq flags st = (if flags AND HWIRQ_DISABLED \<noteq> 0 then pic_mask irq st else pic_unmask irq st)"

definition pic_eoi :: "u32 \<Rightarrow> pic \<Rightarrow> pic" where
  "pic_eoi irq st =
     (if irq \<ge> 8 then
        (let s1 = pic_out PIC_SLAVE_CMD_PORT (PIC_EOI_CMD + (irq AND 7)) st
         in pic_out PIC_MASTER_CMD_PORT (PIC_EOI_CMD + PIC_SLAVE_IRQ) s1)
      else pic_out PIC_MASTER_CMD_PORT (PIC_EOI_CMD + irq) st)"

definition i8259a :: "pic irqchip" where
  "i8259a = \<lparr>ic_setup = Some (\<lambda>irq flags st. Inr (pic_setup irq flags st)),
     ic_mask = Some (\<lambda>irq st. Inr (pic_mask irq st)),
     ic_unmask = Some (\<lambda>irq st. Inr (pic_unmask irq st)),
     ic_eoi = Some (\<lambda>irq st. Inr (pic_eoi irq st))\<rparr>"

definition setup_i8259a :: "pic irqchip option \<times> pic \<Rightarrow> pic irqchip option \<times> pic" where
  "setup_i8259a = (\<lambda>(chip, st). (irqchip_register i8259a chip, pic_remap HW_INTERRUPT_OFFSET st))"

subsection \<open>The masks in the chips\<close>

text \<open>
  After the initialisation words a byte written to a data port is the mask of that chip: line \<open>l\<close>
  is masked when its bit of the last such byte is set. The invariant ties the masks in the chips to
  the copy that the code keeps.
\<close>

definition pic_line :: "pic \<Rightarrow> u32 \<Rightarrow> nat option" where
  "pic_line st irq = (if irq < 16 then Some (unat irq) else None)"

definition chip_mask :: "u16 \<Rightarrow> pic \<Rightarrow> u8" where
  "chip_mask port st = last (written port (pt_log (pic_ports st)))"

definition pic_masked :: "pic \<Rightarrow> nat \<Rightarrow> bool" where
  "pic_masked st l = (if l < 8 then bit (chip_mask PIC_MASTER_DATA_PORT st) l
     else l < 16 \<and> bit (chip_mask PIC_SLAVE_DATA_PORT st) (l - 8))"

definition pic_ok :: "pic \<Rightarrow> bool" where
  "pic_ok st \<longleftrightarrow> chip_mask PIC_MASTER_DATA_PORT st = ucast (pic_irq_mask st) \<and>
     chip_mask PIC_SLAVE_DATA_PORT st = ucast (drop_bit 8 (pic_irq_mask st))"

lemma byte_of_masked: "(ucast (w AND 0xFF) :: u8) = ucast (w :: u32)"
proof -
  have ff: "(0xFF :: u32) = mask 8" by (simp add: mask_eq_exp_minus_1)
  show ?thesis unfolding ff by (intro bit_word_eqI) (auto simp: bit_simps)
qed

lemma chip_mask_out:
  "chip_mask p (pic_out q v st) = (if p = q then ucast v else chip_mask p st)"
  by (auto simp: chip_mask_def pic_out_def)

lemma pic_out_mask [simp]: "pic_irq_mask (pic_out q v st) = pic_irq_mask st"
  by (simp add: pic_out_def)

lemma pic_masked_bits:
  "pic_ok st \<Longrightarrow> pic_masked st l \<longleftrightarrow> l < 16 \<and> bit (pic_irq_mask st) l"
  by (auto simp: pic_masked_def pic_ok_def bit_simps)

lemma low_byte_other:
  "8 \<le> i \<Longrightarrow> (ucast (w OR push_bit i 1) :: u8) = ucast (w :: u32)"
  "8 \<le> i \<Longrightarrow> (ucast (w AND NOT (push_bit i 1)) :: u8) = ucast (w :: u32)"
  by (intro bit_word_eqI; auto simp: bit_simps)+

lemma high_byte_other:
  "i < 8 \<Longrightarrow> (ucast (drop_bit 8 (w OR push_bit i 1)) :: u8) = ucast (drop_bit 8 (w :: u32))"
  "i < 8 \<Longrightarrow> (ucast (drop_bit 8 (w AND NOT (push_bit i 1))) :: u8) = ucast (drop_bit 8 (w :: u32))"
  by (intro bit_word_eqI; auto simp: bit_simps)+

lemma pic_mask_ok:
  assumes "pic_ok st" and "irq < 16"
  shows "pic_ok (pic_mask irq st)" and "pic_masked (pic_mask irq st) = (pic_masked st)(unat irq := True)"
    and "pic_ok (pic_unmask irq st)" and "pic_masked (pic_unmask irq st) = (pic_masked st)(unat irq := False)"
proof -
  have i: "unat irq < 16" "irq < 8 \<longleftrightarrow> unat irq < 8" using assms(2) by (simp_all add: word_less_nat_alt)
  show m: "pic_ok (pic_mask irq st)"
    using assms(1) i low_byte_other(1) [of "unat irq"] high_byte_other(1) [of "unat irq"]
    by (simp add: pic_ok_def pic_mask_def pic_write_mask_def chip_mask_out byte_of_masked pic_defs)
      (simp add: chip_mask_def)
  show u: "pic_ok (pic_unmask irq st)"
    using assms(1) i low_byte_other(2) [of "unat irq"] high_byte_other(2) [of "unat irq"]
    by (simp add: pic_ok_def pic_unmask_def pic_write_mask_def chip_mask_out byte_of_masked pic_defs)
      (simp add: chip_mask_def)
  have b: "bit (push_bit (unat irq) (1 :: u32)) l \<longleftrightarrow> l = unat irq" for l
    using i(1) by (auto simp: bit_simps)
  have f: "pic_irq_mask (pic_mask irq st) = pic_irq_mask st OR push_bit (unat irq) 1"
    "pic_irq_mask (pic_unmask irq st) = pic_irq_mask st AND NOT (push_bit (unat irq) 1)"
    by (simp_all add: pic_mask_def pic_unmask_def pic_write_mask_def BITU_def)
  have "bit (pic_irq_mask (pic_mask irq st)) l \<longleftrightarrow> l = unat irq \<or> bit (pic_irq_mask st) l"
    "bit (pic_irq_mask (pic_unmask irq st)) l \<longleftrightarrow> l \<noteq> unat irq \<and> bit (pic_irq_mask st) l" if "l < 16" for l
    unfolding f bit_or_iff bit_and_iff bit_not_iff b using that by auto
  then show "pic_masked (pic_mask irq st) = (pic_masked st)(unat irq := True)"
    "pic_masked (pic_unmask irq st) = (pic_masked st)(unat irq := False)"
    using i(1) by (auto simp: fun_eq_iff pic_masked_bits [OF m] pic_masked_bits [OF u]
        pic_masked_bits [OF assms(1)])
qed

lemma pic_eoi_ok:
  assumes "pic_ok st"
  shows "pic_ok (pic_eoi irq st)" and "pic_masked (pic_eoi irq st) = pic_masked st"
  using assms by (simp_all add: pic_ok_def pic_masked_def fun_eq_iff pic_eoi_def chip_mask_out Let_def pic_defs)

interpretation pics: irq_controller i8259a pic_ok pic_line pic_masked
proof
  fix st i l assume "pic_ok st" "pic_line st i = Some l"
  then have a: "pic_ok st" "i < 16" "l = unat i" by (auto simp: pic_line_def split: if_splits)
  note m = pic_mask_ok [OF a(1,2)] and e = pic_eoi_ok [OF a(1)]
  show "\<exists>st'. irqchip_mask (Some i8259a) i st = Inr st' \<and> pic_ok st' \<and> pic_line st' = pic_line st \<and>
      pic_masked st' = (pic_masked st)(l := True)"
    using m(1,2) a(3) by (simp add: irqchip_defs i8259a_def pic_line_def fun_eq_iff)
  show "\<exists>st'. irqchip_unmask (Some i8259a) i st = Inr st' \<and> pic_ok st' \<and> pic_line st' = pic_line st \<and>
      pic_masked st' = (pic_masked st)(l := False)"
    using m(3,4) a(3) by (simp add: irqchip_defs i8259a_def pic_line_def fun_eq_iff)
  show "\<exists>st'. irqchip_eoi (Some i8259a) i st = Inr st' \<and> pic_ok st' \<and> pic_line st' = pic_line st \<and>
      pic_masked st' = pic_masked st"
    using e by (simp add: irqchip_defs i8259a_def pic_line_def fun_eq_iff)
qed

text \<open>After the set-up every line is masked.\<close>

lemma pic_remap_masked:
  assumes "pic_irq_mask st = 0xFFFF"
  shows "pic_ok (pic_remap offset st)" and "pic_masked (pic_remap offset st) = (\<lambda>l. l < 16)"
proof -
  show ok: "pic_ok (pic_remap offset st)"
    by (simp add: pic_ok_def pic_remap_def Let_def chip_mask_out pic_defs byte_of_masked)
  have "pic_irq_mask (pic_remap offset st) = mask 16"
    by (simp add: pic_remap_def Let_def assms mask_eq_exp_minus_1)
  then show "pic_masked (pic_remap offset st) = (\<lambda>l. l < 16)"
    by (auto simp: fun_eq_iff pic_masked_bits [OF ok] bit_mask_iff)
qed

subsection \<open>Properties\<close>

text \<open>
  C26: \<open>setup_i8259a\<close> makes exactly these ten writes, in this order (the log has the latest first): the
  command that begins the initialisation to the master (port 0x20) and to the slave (0xA0), then to
  the data ports of both in turn the first vector (0x20 and 0x28), the line that connects them, the
  mode, and last the masks. Every line is masked then. From then on, whatever calls of \<open>irqchip_mask\<close>,
  \<open>irqchip_unmask\<close> and \<open>irqchip_eoi\<close> follow for the 16 interrupts, none fails and the masks in the
  chips are those the calls ask for: a line is masked exactly when the last of the two calls for it
  was a mask, or none was made.
\<close>

theorem i8259a_masks:
  assumes "pic_irq_mask st = 0xFFFF" and "setup_i8259a (c, st) = (chip, st1)"
    and "\<forall>c\<in>set cs. irq_of c < 16"
  shows "pt_log (pic_ports st1) = rev [Out8 0x20 0x11, Out8 0xA0 0x11, Out8 0x21 0x20, Out8 0xA1 0x28, Out8 0x21 0x04,
        Out8 0xA1 0x02, Out8 0x21 0x01, Out8 0xA1 0x01, Out8 0x21 0xFF, Out8 0xA1 0xFF] @ pt_log (pic_ports st) \<and>
    pic_masked st1 = (\<lambda>l. l < 16) \<and>
    (\<exists>st2. irq_calls chip cs st1 = Inr st2 \<and>
      pic_masked st2 = fold (mask_effect unat) cs (\<lambda>l. l < 16))"
proof (intro conjI)
  have eqs: "chip = Some i8259a" "st1 = pic_remap 0x20 st"
    using assms(2) by (simp_all add: setup_i8259a_def irqchip_register_def HW_INTERRUPT_OFFSET_def)
  show "pt_log (pic_ports st1) = rev [Out8 0x20 0x11, Out8 0xA0 0x11, Out8 0x21 0x20, Out8 0xA1 0x28, Out8 0x21 0x04,
      Out8 0xA1 0x02, Out8 0x21 0x01, Out8 0xA1 0x01, Out8 0x21 0xFF, Out8 0xA1 0xFF] @ pt_log (pic_ports st)"
    by (simp add: eqs(2) pic_remap_def Let_def pic_out_def pic_defs assms(1))
  have ok: "pic_ok st1" and all: "pic_masked st1 = (\<lambda>l. l < 16)"
    unfolding eqs(2) by (rule pic_remap_masked [OF assms(1)])+
  then show "pic_masked st1 = (\<lambda>l. l < 16)" by simp
  have valid: "\<forall>c\<in>set cs. pic_line st1 (irq_of c) \<noteq> None"
    using assms(3) by (simp add: pic_line_def)
  have "mask_effect (\<lambda>i. the (pic_line st1 i)) c = mask_effect unat c" if "c \<in> set cs" for c
    using assms(3) that by (cases c) (auto simp: fun_eq_iff pic_line_def)
  then have "fold (mask_effect (\<lambda>i. the (pic_line st1 i))) cs m = fold (mask_effect unat) cs m" for m
    by (intro fold_cong) auto
  with pics.history [OF ok valid] show "\<exists>st2. irq_calls chip cs st1 = Inr st2 \<and>
      pic_masked st2 = fold (mask_effect unat) cs (\<lambda>l. l < 16)"
    unfolding eqs(1) all by auto
qed

theorem i8259a_masks_witness:
  "\<exists>chip st1 st2. setup_i8259a (None, \<lparr>pic_irq_mask = 0xFFFF, pic_ports = \<lparr>pt_log = [], pt_device = \<lambda>_ _. 0\<rparr>\<rparr>) =
      (chip, st1) \<and> irq_calls chip [Unmask 4, Unmask 9, Eoi 9, Mask 4] st1 = Inr st2 \<and>
      pic_masked st2 4 \<and> \<not> pic_masked st2 9"
proof -
  let ?st = "\<lparr>pic_irq_mask = 0xFFFF, pic_ports = \<lparr>pt_log = [], pt_device = \<lambda>_ _. 0\<rparr>\<rparr>"
  let ?cs = "[Unmask 4, Unmask 9, Eoi 9, Mask 4]"
  obtain chip st1 where s: "setup_i8259a (None, ?st) = (chip, st1)" by (rule prod.exhaust)
  have "\<forall>c\<in>set ?cs. irq_of c < 16" by simp
  with i8259a_masks [OF _ s this] show ?thesis by (auto simp: s)
qed

end
