(* ===== verification/Kmap.thy ===== *)
theory Kmap
  imports Kernel
begin

text \<open>
  \<open>kernel/arch/x86/kmap.c\<close>: temporary kernel mappings of physical pages above the linear map. The
  array \<open>kernel_page_tables\<close> is a function from its indices, a \<open>pte_t *\<close> into it the index, the
  static pointer \<open>kernel_map_page_frame\<close> the constant \<open>kmap_base\<close>.
\<close>

subsection \<open>The code\<close>

record kmap_state =
  km_tables :: "nat \<Rightarrow> u32"
  km_top :: nat

definition kmap_base :: nat where
  "kmap_base = unat LOWMEM_PAGE_FRAMES"

definition kmap :: "u32 \<Rightarrow> u32 \<Rightarrow> kmap_state \<Rightarrow> u32 \<times> kmap_state" where
  "kmap paddr flags st =
     (if paddr < KMAP_OFFSET - PAGE_OFFSET then (virt_addr paddr, st)
      else
        (let pe = km_top st;
             st1 = st\<lparr>km_top := km_top st + 1\<rparr>;
             st2 = st1\<lparr>km_tables := (km_tables st1)(pe := create_table_entry paddr (flags OR PTE_PRESENT))\<rparr>
         in (PAGE_OFFSET + push_bit PAGE_SHIFT (of_nat pe), st2)))"

lemma kmap_base_value [simp]: "kmap_base = 0x38000"
  by (simp add: kmap_base_def layout_values)

function kunmap_loop :: "(nat \<Rightarrow> u32) \<Rightarrow> nat \<Rightarrow> nat" where
  "kunmap_loop tables pe =
     (if page_flags (tables pe) AND PTE_PRESENT = 0 then
        (if pe - 1 < kmap_base then pe - 1 else kunmap_loop tables (pe - 1))
      else pe)"
  by pat_completeness auto
termination
  by (relation "measure snd") auto

declare kunmap_loop.simps [simp del]

definition kunmap :: "u32 \<Rightarrow> kmap_state \<Rightarrow> kmap_state" where
  "kunmap vaddr st =
     (if vaddr < KMAP_OFFSET then st
      else
        (let pe = unat (drop_bit PAGE_SHIFT (vaddr - PAGE_OFFSET));
             st1 = st\<lparr>km_tables := (km_tables st)(pe := create_table_entry 0 0)\<rparr>
         in if pe + 1 \<noteq> km_top st1 then st1
            else st1\<lparr>km_top := kunmap_loop (km_tables st1) pe + 1\<rparr>))"

subsection \<open>The invariant\<close>

definition present :: "kmap_state \<Rightarrow> nat \<Rightarrow> bool" where
  "present st i \<longleftrightarrow> page_flags (km_tables st i) AND PTE_PRESENT \<noteq> 0"

definition mapped :: "kmap_state \<Rightarrow> nat set" where
  "mapped st = {i. kmap_base \<le> i \<and> i < kmap_base + 0x8000 \<and> present st i}"

text \<open>The first unused entry is the one after the last mapping, so the window is used without leaks.\<close>

definition kmap_inv :: "kmap_state \<Rightarrow> bool" where
  "kmap_inv st \<longleftrightarrow> kmap_base \<le> km_top st \<and> km_top st \<le> kmap_base + 0x8000 \<and>
     (\<forall>i \<in> mapped st. i < km_top st) \<and> (kmap_base < km_top st \<longrightarrow> km_top st - 1 \<in> mapped st)"

lemma present_flag: "page_flags (create_table_entry p (f OR PTE_PRESENT)) AND PTE_PRESENT \<noteq> 0"
proof -
  have "bit (page_flags (create_table_entry p (f OR PTE_PRESENT)) AND PTE_PRESENT) 0"
    by (simp add: entry_fields page_offset_mask PTE_PRESENT_def X86_PTE_PRESENT_def BITUL_def bit_simps)
  then show ?thesis by (metis bit_0_eq bot_apply bot_bool_def)
qed

lemma absent_entry: "page_flags (create_table_entry 0 0) AND PTE_PRESENT = 0"
  by (simp add: entry_fields)

lemma entry_page_frame: "page_paddr (create_table_entry p f) = p AND NOT PAGE_OFFSET_MASK"
  by (rule entry_fields)

text \<open>The loop goes down to the last mapping below its start, or just below the window.\<close>

lemma kunmap_loop_result:
  assumes "kmap_base \<le> pe"
  shows "kmap_base \<le> kunmap_loop t pe + 1" and "kunmap_loop t pe \<le> pe"
    and "\<And>i. kunmap_loop t pe < i \<Longrightarrow> i \<le> pe \<Longrightarrow> page_flags (t i) AND PTE_PRESENT = 0"
    and "kmap_base \<le> kunmap_loop t pe \<Longrightarrow> page_flags (t (kunmap_loop t pe)) AND PTE_PRESENT \<noteq> 0"
proof -
  have "kmap_base \<le> kunmap_loop t pe + 1 \<and> kunmap_loop t pe \<le> pe \<and>
    (\<forall>i. kunmap_loop t pe < i \<longrightarrow> i \<le> pe \<longrightarrow> page_flags (t i) AND PTE_PRESENT = 0) \<and>
    (kmap_base \<le> kunmap_loop t pe \<longrightarrow> page_flags (t (kunmap_loop t pe)) AND PTE_PRESENT \<noteq> 0)"
    using assms
  proof (induction t pe rule: kunmap_loop.induct)
    case (1 t pe)
    show ?case
    proof (cases "page_flags (t pe) AND PTE_PRESENT = 0")
      case False
      then have "kunmap_loop t pe = pe" by (simp add: kunmap_loop.simps [of t pe])
      with 1(2) False show ?thesis by simp
    next
      case absent: True
      show ?thesis
      proof (cases "pe - 1 < kmap_base")
        case True
        then have l: "kunmap_loop t pe = pe - 1" using absent by (simp add: kunmap_loop.simps [of t pe])
        have "i = pe" if "pe - 1 < i" "i \<le> pe" for i using that by linarith
        with absent True 1(2) show ?thesis unfolding l by auto
      next
        case False
        then have l: "kunmap_loop t pe = kunmap_loop t (pe - 1)"
          using absent by (simp add: kunmap_loop.simps [of t pe])
        from 1(1) [OF absent False] False have IH: "kmap_base \<le> kunmap_loop t (pe - 1) + 1"
          "kunmap_loop t (pe - 1) \<le> pe - 1"
          "\<forall>i. kunmap_loop t (pe - 1) < i \<longrightarrow> i \<le> pe - 1 \<longrightarrow> page_flags (t i) AND PTE_PRESENT = 0"
          "kmap_base \<le> kunmap_loop t (pe - 1) \<longrightarrow> page_flags (t (kunmap_loop t (pe - 1))) AND PTE_PRESENT \<noteq> 0"
          by simp_all
        have "page_flags (t i) AND PTE_PRESENT = 0" if "kunmap_loop t (pe - 1) < i" "i \<le> pe" for i
          using IH(3) that absent by (cases "i = pe") auto
        with IH show ?thesis unfolding l by auto
      qed
    qed
  qed
  then show "kmap_base \<le> kunmap_loop t pe + 1" and "kunmap_loop t pe \<le> pe"
    and "\<And>i. kunmap_loop t pe < i \<Longrightarrow> i \<le> pe \<Longrightarrow> page_flags (t i) AND PTE_PRESENT = 0"
    and "kmap_base \<le> kunmap_loop t pe \<Longrightarrow> page_flags (t (kunmap_loop t pe)) AND PTE_PRESENT \<noteq> 0"
    by blast+
qed

text \<open>The address of an entry of the window, and the entry of an address.\<close>

definition kmap_addr :: "nat \<Rightarrow> u32" where
  "kmap_addr pe = PAGE_OFFSET + push_bit PAGE_SHIFT (of_nat pe)"

lemma unat_kmap_addr:
  assumes "pe < 0x40000"
  shows "unat (kmap_addr pe) = 0xC0000000 + 4096 * pe"
proof -
  have p: "unat (of_nat pe :: u32) = pe" using assms by (simp add: unsigned_of_nat take_bit_nat_eq_self_iff)
  have "take_bit 32 (pe * 4096) = pe * 4096" using assms by (simp add: take_bit_nat_eq_self_iff)
  then have "unat (push_bit PAGE_SHIFT (of_nat pe :: u32)) = pe * 4096"
    unfolding PAGE_SHIFT_def using p by (simp only: unsigned_push_bit_eq) (simp add: push_bit_eq_mult)
  then show ?thesis using assms unfolding kmap_addr_def PAGE_OFFSET_def by (subst unat_plus_no_wrap) simp_all
qed

lemma kmap_addr_entry:
  assumes "pe < 0x40000"
  shows "unat (drop_bit PAGE_SHIFT (kmap_addr pe - PAGE_OFFSET)) = pe"
proof -
  have "PAGE_OFFSET \<le> kmap_addr pe" using unat_kmap_addr [OF assms] by (simp add: word_le_nat_alt PAGE_OFFSET_def)
  then have "unat (kmap_addr pe - PAGE_OFFSET) = 4096 * pe"
    using unat_kmap_addr [OF assms] by (simp add: unat_minus_no_wrap PAGE_OFFSET_def)
  then show ?thesis unfolding PAGE_SHIFT_def by (simp add: unat_div drop_bit_eq_div)
qed

lemma kmap_high:
  assumes "KMAP_OFFSET - PAGE_OFFSET \<le> paddr"
  shows "kmap paddr flags st = (kmap_addr (km_top st), st\<lparr>km_top := km_top st + 1,
    km_tables := (km_tables st)(km_top st := create_table_entry paddr (flags OR PTE_PRESENT))\<rparr>)"
proof -
  have "\<not> paddr < KMAP_OFFSET - PAGE_OFFSET" using assms by (simp only: not_less)
  then show ?thesis unfolding kmap_def kmap_addr_def Let_def by (simp only: if_False) simp
qed

lemma kmap_high_inv:
  assumes "kmap_inv st" and "km_top st < kmap_base + 0x8000" and "KMAP_OFFSET - PAGE_OFFSET \<le> paddr"
    and "kmap paddr flags st = (v, st')"
  shows "kmap_inv st'" and "mapped st' = insert (km_top st) (mapped st)"
proof -
  have st': "km_top st' = km_top st + 1"
    "km_tables st' = (km_tables st)(km_top st := create_table_entry paddr (flags OR PTE_PRESENT))"
    using kmap_high [OF assms(3)] assms(4) by auto
  show m: "mapped st' = insert (km_top st) (mapped st)"
    using assms(1,2) present_flag [of paddr flags]
    by (auto simp: mapped_def present_def st' kmap_inv_def)
  show "kmap_inv st'" using assms(1,2) m by (auto simp: kmap_inv_def st'(1) less_Suc_eq)
qed

lemma kunmap_inv:
  assumes "kmap_inv st" and "pe \<in> mapped st"
  shows "kmap_inv (kunmap (kmap_addr pe) st)" and "mapped (kunmap (kmap_addr pe) st) = mapped st - {pe}"
    and "\<And>i. i \<noteq> pe \<Longrightarrow> km_tables (kunmap (kmap_addr pe) st) i = km_tables st i"
proof -
  have pe: "kmap_base \<le> pe" "pe < 0x40000" "pe < km_top st" using assms by (auto simp: mapped_def kmap_inv_def)
  let ?t = "(km_tables st)(pe := create_table_entry 0 0)"
  have hi: "\<not> kmap_addr pe < KMAP_OFFSET"
    using unat_kmap_addr [OF pe(2)] pe(1) by (simp add: word_less_nat_alt KMAP_OFFSET_def)
  have r: "kunmap (kmap_addr pe) st = (if pe + 1 \<noteq> km_top st then st\<lparr>km_tables := ?t\<rparr>
      else st\<lparr>km_tables := ?t, km_top := kunmap_loop ?t pe + 1\<rparr>)"
    unfolding kunmap_def Let_def kmap_addr_entry [OF pe(2)] using hi by simp
  have tab: "km_tables (kunmap (kmap_addr pe) st) = ?t" by (simp add: r)
  then show "km_tables (kunmap (kmap_addr pe) st) i = km_tables st i" if "i \<noteq> pe" for i using that by simp
  show m: "mapped (kunmap (kmap_addr pe) st) = mapped st - {pe}"
    using absent_entry by (auto simp: mapped_def present_def tab)
  show "kmap_inv (kunmap (kmap_addr pe) st)"
  proof (cases "pe + 1 = km_top st")
    case False
    then have "km_top (kunmap (kmap_addr pe) st) = km_top st" "pe \<noteq> km_top st - 1" using pe(1) by (auto simp: r)
    then show ?thesis using assms(1) m by (auto simp: kmap_inv_def)
  next
    case True
    note l = kunmap_loop_result [OF pe(1), of ?t]
    have top: "km_top (kunmap (kmap_addr pe) st) = kunmap_loop ?t pe + 1" using True by (simp add: r)
    have "i < kunmap_loop ?t pe + 1" if "i \<in> mapped st - {pe}" for i
    proof (rule ccontr)
      assume "\<not> i < kunmap_loop ?t pe + 1"
      moreover have "i < km_top st" "i \<noteq> pe" using that assms(1) by (auto simp: kmap_inv_def)
      ultimately have "page_flags (?t i) AND PTE_PRESENT = 0" using True by (intro l(3)) simp_all
      with that show False by (simp add: mapped_def present_def)
    qed
    moreover have "kunmap_loop ?t pe \<in> mapped st - {pe}" if "kmap_base < kunmap_loop ?t pe + 1"
    proof -
      have "kmap_base \<le> kunmap_loop ?t pe" using that by simp
      from l(4) [OF this] this l(2) pe show ?thesis
        using absent_entry by (auto simp: mapped_def present_def split: if_splits)
    qed
    moreover have "kunmap_loop ?t pe + 1 \<le> kmap_base + 0x8000" using l(2) pe by simp
    ultimately show ?thesis using m l(1) by (simp add: kmap_inv_def top)
  qed
qed

subsection \<open>Properties\<close>

definition sample_kmap :: kmap_state where
  "sample_kmap = \<lparr>km_tables = (\<lambda>_. 0), km_top = 0x38000\<rparr>"

lemma sample_kmap_inv: "kmap_inv sample_kmap" "km_top sample_kmap < kmap_base + 0x8000"
  by (auto simp: kmap_inv_def sample_kmap_def mapped_def present_def page_flags_def)

text \<open>
  C29: \<open>kmap\<close> of a page outside the linear map, while the window has room, returns the address of an
  entry that was unused, which now maps the page frame of the physical address with the flags asked
  for and the present bit; every other entry stays, and the invariant holds again. The address
  returned is that of the page: the offset of the physical address in its page is not added.
\<close>

theorem kmap_maps:
  assumes "kmap_inv st" and "km_top st < kmap_base + 0x8000" and "KMAP_OFFSET - PAGE_OFFSET \<le> paddr"
    and "kmap paddr flags st = (v, st')"
  shows "\<exists>pe. pe \<notin> mapped st \<and> v = kmap_addr pe \<and> unat v mod 4096 = 0 \<and> kmap_inv st' \<and>
    mapped st' = insert pe (mapped st) \<and> (\<forall>i. i \<noteq> pe \<longrightarrow> km_tables st' i = km_tables st i) \<and>
    page_paddr (km_tables st' pe) = paddr AND NOT PAGE_OFFSET_MASK \<and>
    page_flags (km_tables st' pe) = (flags OR PTE_PRESENT) AND PAGE_OFFSET_MASK"
proof (intro exI [of _ "km_top st"] conjI)
  have v: "v = kmap_addr (km_top st)"
    "km_tables st' = (km_tables st)(km_top st := create_table_entry paddr (flags OR PTE_PRESENT))"
    using kmap_high [OF assms(3)] assms(4) by auto
  show "v = kmap_addr (km_top st)" by (rule v)
  show "km_top st \<notin> mapped st" using assms(1) by (auto simp: kmap_inv_def)
  show "unat v mod 4096 = 0" using unat_kmap_addr [of "km_top st"] assms(2) v by simp
  show "kmap_inv st'" "mapped st' = insert (km_top st) (mapped st)" by (rule kmap_high_inv [OF assms])+
  show "\<forall>i. i \<noteq> km_top st \<longrightarrow> km_tables st' i = km_tables st i" using v(2) by simp
  show "page_paddr (km_tables st' (km_top st)) = paddr AND NOT PAGE_OFFSET_MASK"
    "page_flags (km_tables st' (km_top st)) = (flags OR PTE_PRESENT) AND PAGE_OFFSET_MASK"
    using v(2) by (simp_all add: entry_fields)
qed

theorem kmap_maps_witness:
  "\<exists>v st' pe. kmap 0xFEC00010 PTE_WRITE sample_kmap = (v, st') \<and> v = kmap_addr pe \<and>
     page_paddr (km_tables st' pe) = 0xFEC00010 AND NOT PAGE_OFFSET_MASK"
proof -
  obtain v st' where k: "kmap 0xFEC00010 PTE_WRITE sample_kmap = (v, st')" by fastforce
  have "KMAP_OFFSET - PAGE_OFFSET \<le> (0xFEC00010 :: u32)" by (simp add: KMAP_OFFSET_def PAGE_OFFSET_def)
  from kmap_maps [OF sample_kmap_inv this k] k show ?thesis by blast
qed

text \<open>
  C30: \<open>kunmap\<close> of a mapping removes exactly that mapping, gives back the entries at the end of the
  window that are unused (its loop ends, in the window), and keeps the invariant: the next \<open>kmap\<close>
  never reuses an entry that is in use.
\<close>

theorem kunmap_removes:
  assumes "kmap_inv st" and "pe \<in> mapped st"
  shows "kmap_inv (kunmap (kmap_addr pe) st) \<and> mapped (kunmap (kmap_addr pe) st) = mapped st - {pe} \<and>
    (\<forall>i. i \<noteq> pe \<longrightarrow> km_tables (kunmap (kmap_addr pe) st) i = km_tables st i) \<and>
    km_top (kunmap (kmap_addr pe) st) = (if mapped st - {pe} = {} then kmap_base else Max (mapped st - {pe}) + 1)"
proof -
  let ?st = "kunmap (kmap_addr pe) st"
  note k = kunmap_inv [OF assms]
  have fin: "finite (mapped ?st)" by (rule finite_subset [of _ "{..< kmap_base + 0x8000}"]) (auto simp: mapped_def)
  have "km_top ?st = (if mapped ?st = {} then kmap_base else Max (mapped ?st) + 1)"
  proof (cases "mapped ?st = {}")
    case True
    then show ?thesis using k(1) by (auto simp: kmap_inv_def)
  next
    case False
    then obtain i where "i \<in> mapped ?st" by blast
    then have "kmap_base < km_top ?st" using k(1) by (auto simp: kmap_inv_def mapped_def)
    then have "km_top ?st - 1 \<in> mapped ?st" "\<forall>i \<in> mapped ?st. i \<le> km_top ?st - 1"
      using k(1) by (auto simp: kmap_inv_def)
    then have "Max (mapped ?st) = km_top ?st - 1" using fin by (intro Max_eqI) auto
    with False \<open>kmap_base < _\<close> show ?thesis by simp
  qed
  then show ?thesis using k by simp
qed

theorem kunmap_removes_witness:
  "\<exists>v st'. kmap 0xFEC00000 PTE_WRITE sample_kmap = (v, st') \<and> mapped (kunmap v st') = {} \<and>
     km_top (kunmap v st') = kmap_base"
proof -
  obtain v st' where k: "kmap 0xFEC00000 PTE_WRITE sample_kmap = (v, st')" by fastforce
  have hi: "KMAP_OFFSET - PAGE_OFFSET \<le> (0xFEC00000 :: u32)" by (simp add: KMAP_OFFSET_def PAGE_OFFSET_def)
  note inv = kmap_high_inv [OF sample_kmap_inv hi k]
  have "mapped sample_kmap = {}" by (auto simp: mapped_def present_def sample_kmap_def page_flags_def)
  then have m: "mapped st' = {km_top sample_kmap}" using inv(2) by simp
  have "v = kmap_addr (km_top sample_kmap)" using kmap_high [OF hi] k by simp
  with kunmap_removes [OF inv(1), of "km_top sample_kmap"] m k show ?thesis by simp
qed

end
