(* ===== verification/Apic.thy ===== *)
theory Apic
  imports Acpi Irq Kmap
begin

text \<open>
  \<open>kernel/arch/x86/apic.c\<close>: the I/O APICs and the local APIC as the second interrupt controller. A
  pointer to an I/O APIC is its index in the array \<open>io_apic\<close>. The registers are in memory-mapped
  windows, named by the address that \<open>kmap\<close> returned: an I/O APIC has an index register and a data
  window onto its registers, the local APIC is an array of registers. Reading a register gives what
  was last written to it, as the hardware documents for the redirection table.
\<close>

subsection \<open>State\<close>

definition APIC_PAGE_FLAGS :: u32 where
  "APIC_PAGE_FLAGS = PTE_KERNEL OR PTE_READ OR PTE_WRITE OR PTE_NOCACHE"
definition ISA_IRQ_COUNT :: u32 where "ISA_IRQ_COUNT = 16"
definition ISA_POLARITY_MASK :: u32 where "ISA_POLARITY_MASK = 0x03"
definition ISA_POLARITY_HIGH :: u32 where "ISA_POLARITY_HIGH = 0x01"
definition ISA_POLARITY_LOW :: u32 where "ISA_POLARITY_LOW = 0x03"
definition ISA_TRIGGER_MASK :: u32 where "ISA_TRIGGER_MASK = 0x0C"
definition ISA_TRIGGER_LEVEL :: u32 where "ISA_TRIGGER_LEVEL = 0x0C"
definition ISA_TRIGGER_EDGE :: u32 where "ISA_TRIGGER_EDGE = 0x04"
definition IO_APIC_MAX_COUNT :: nat where "IO_APIC_MAX_COUNT = 32"
definition IO_APIC_ID_REG :: u32 where "IO_APIC_ID_REG = 0x00"
definition IO_APIC_VER_REG :: u32 where "IO_APIC_VER_REG = 0x01"
definition IO_APIC_REDTBL_REG :: u32 where "IO_APIC_REDTBL_REG = 0x10"
definition IO_APIC_PAGE_FLAGS :: u32 where "IO_APIC_PAGE_FLAGS = APIC_PAGE_FLAGS"
definition IO_APIC_DEST_ALL :: u32 where "IO_APIC_DEST_ALL = 0xFF"
definition IO_APIC_LOW_PRI :: u32 where "IO_APIC_LOW_PRI = BITUL 8"
definition IO_APIC_LOGICAL :: u32 where "IO_APIC_LOGICAL = BITUL 11"
definition IO_APIC_LEVEL :: u32 where "IO_APIC_LEVEL = BITUL 15"
definition IO_APIC_LOW :: u32 where "IO_APIC_LOW = BITUL 13"
definition IO_APIC_MASK :: u32 where "IO_APIC_MASK = BITUL 16"
definition LOCAL_APIC_MAX_COUNT :: nat where "LOCAL_APIC_MAX_COUNT = 32"
definition LOCAL_APIC_ID_REG :: u32 where "LOCAL_APIC_ID_REG = 0x08"
definition LOCAL_APIC_LD_REG :: u32 where "LOCAL_APIC_LD_REG = 0x34"
definition LOCAL_APIC_SI_REG :: u32 where "LOCAL_APIC_SI_REG = 0x3C"
definition LOCAL_APIC_EOI_REG :: u32 where "LOCAL_APIC_EOI_REG = 0x2C"
definition LOCAL_APIC_PAGE_FLAGS :: u32 where "LOCAL_APIC_PAGE_FLAGS = APIC_PAGE_FLAGS"
definition SPURIOUS_INTERRUPT_VECTOR :: u32 where "SPURIOUS_INTERRUPT_VECTOR = 0xFF"

lemmas isa_defs = ISA_IRQ_COUNT_def ISA_POLARITY_MASK_def ISA_POLARITY_HIGH_def ISA_POLARITY_LOW_def
  ISA_TRIGGER_MASK_def ISA_TRIGGER_LEVEL_def ISA_TRIGGER_EDGE_def
lemmas io_apic_bits = IO_APIC_LOW_PRI_def IO_APIC_LOGICAL_def IO_APIC_LEVEL_def IO_APIC_LOW_def
  IO_APIC_MASK_def BITUL_def

record io_apic =
  ia_iospace :: u32
  ia_gsi :: u32
  ia_irqs :: u32
  ia_id :: u32

record isa_irq_map =
  im_io_apic :: "nat option"
  im_flags :: u32
  im_gsi :: u32
  im_pin :: u32

record isa_irq_cfg =
  cfg_flags :: u32
  cfg_isa :: u32
  cfg_gsi :: u32

record apic =
  ap_io_apic :: "nat \<Rightarrow> io_apic"
  ap_io_apic_size :: nat
  ap_isa_irq :: "nat \<Rightarrow> isa_irq_map"
  ap_local_apic :: "nat \<Rightarrow> u32"
  ap_local_apic_iospace :: u32
  ap_local_apic_count :: nat
  ap_kmap :: kmap_state
  ap_index :: "u32 \<Rightarrow> u32"
  ap_regs :: "u32 \<Rightarrow> u32 \<Rightarrow> u32"
  ap_local_regs :: "u32 \<Rightarrow> u32"

subsection \<open>Registers\<close>

definition io_apic_read :: "u32 \<Rightarrow> u32 \<Rightarrow> apic \<Rightarrow> u32 \<times> apic" where
  "io_apic_read vaddr reg st =
     (let st1 = st\<lparr>ap_index := (ap_index st)(vaddr := reg AND 0xFF)\<rparr>
      in (ap_regs st1 vaddr (ap_index st1 vaddr), st1))"

definition io_apic_write :: "u32 \<Rightarrow> u32 \<Rightarrow> u32 \<Rightarrow> apic \<Rightarrow> apic" where
  "io_apic_write vaddr reg value st =
     (let st1 = st\<lparr>ap_index := (ap_index st)(vaddr := reg AND 0xFF)\<rparr>
      in st1\<lparr>ap_regs := (ap_regs st1)(vaddr := (ap_regs st1 vaddr)(ap_index st1 vaddr := value))\<rparr>)"

definition local_apic_read :: "u32 \<Rightarrow> apic \<Rightarrow> u32" where
  "local_apic_read reg st = ap_local_regs st reg"

definition local_apic_write :: "u32 \<Rightarrow> u32 \<Rightarrow> apic \<Rightarrow> apic" where
  "local_apic_write reg value st = st\<lparr>ap_local_regs := (ap_local_regs st)(reg := value)\<rparr>"

definition io_apic_irqs :: "u32 \<Rightarrow> apic \<Rightarrow> u32 \<times> apic" where
  "io_apic_irqs iospace st =
     (let (version, st1) = io_apic_read iospace IO_APIC_VER_REG st
      in (1 + (drop_bit 16 version AND 0xFF), st1))"

definition io_apic_id :: "u32 \<Rightarrow> apic \<Rightarrow> u32 \<times> apic" where
  "io_apic_id iospace st =
     (let (id, st1) = io_apic_read iospace IO_APIC_ID_REG st
      in (drop_bit 24 id AND 0x0F, st1))"

definition local_apic_pid :: "apic \<Rightarrow> u32" where
  "local_apic_pid st = drop_bit 24 (local_apic_read LOCAL_APIC_ID_REG st)"

subsection \<open>The I/O APICs\<close>

function find_loop :: "u32 \<Rightarrow> nat \<Rightarrow> apic \<Rightarrow> nat outcome" where
  "find_loop gsi i st =
     (if i < ap_io_apic_size st then
        (let a = ap_io_apic st i
         in if ia_gsi a \<le> gsi \<and> ia_gsi a + ia_irqs a > gsi then Inr i else find_loop gsi (i + 1) st)
      else Inl (Panic ''Cannot find IOAPIC for gsi''))"
  by pat_completeness auto
termination
  by (relation "measure (\<lambda>(g, i, st). ap_io_apic_size st - i)") auto

declare find_loop.simps [simp del]

definition io_apic_find :: "u32 \<Rightarrow> apic \<Rightarrow> nat outcome" where
  "io_apic_find gsi st = find_loop gsi 0 st"

definition io_apic_setup_isa :: "isa_irq_cfg \<Rightarrow> apic \<Rightarrow> apic outcome" where
  "io_apic_setup_isa cfg st =
     bind_outcome (assert_that (cfg_isa cfg < ISA_IRQ_COUNT) ''Cannot remap non-ISA interrupts'') (\<lambda>_.
     bind_outcome (io_apic_find (cfg_gsi cfg) st) (\<lambda>apic.
       Inr (st\<lparr>ap_isa_irq := (ap_isa_irq st)(unat (cfg_isa cfg) := \<lparr>im_io_apic = Some apic,
         im_flags = cfg_flags cfg, im_gsi = cfg_gsi cfg,
         im_pin = cfg_gsi cfg - ia_gsi (ap_io_apic st apic)\<rparr>)\<rparr>)))"

text \<open>The initialiser lists the fields by position: \<open>flags\<close>, \<open>isa\<close>, \<open>gsi\<close>.\<close>

fun isa_defaults_loop :: "u32 \<Rightarrow> nat \<Rightarrow> apic \<Rightarrow> apic outcome" where
  "isa_defaults_loop i 0 st = Inr st"
| "isa_defaults_loop i (Suc n) st =
     bind_outcome (io_apic_setup_isa \<lparr>cfg_flags = i, cfg_isa = i, cfg_gsi = HWIRQ_RISING\<rparr> st)
       (isa_defaults_loop (i + 1) n)"

definition io_apic_isa_defaults :: "apic \<Rightarrow> apic outcome" where
  "io_apic_isa_defaults st = isa_defaults_loop 0 (unat ISA_IRQ_COUNT) st"

definition io_apic_add :: "u32 \<Rightarrow> u32 \<Rightarrow> apic \<Rightarrow> apic outcome" where
  "io_apic_add paddr gsi st =
     bind_outcome (assert_that (ap_io_apic_size st < IO_APIC_MAX_COUNT) ''Too many IOAPICs'') (\<lambda>_.
       let i = ap_io_apic_size st;
           (iospace, km) = kmap paddr IO_APIC_PAGE_FLAGS (ap_kmap st);
           st1 = st\<lparr>ap_kmap := km\<rparr>;
           (irqs, st2) = io_apic_irqs iospace st1;
           (id, st3) = io_apic_id iospace st2
       in Inr (st3\<lparr>ap_io_apic := (ap_io_apic st3)(i := \<lparr>ia_iospace = iospace, ia_gsi = gsi,
            ia_irqs = irqs, ia_id = id\<rparr>), ap_io_apic_size := i + 1\<rparr>))"

definition acpi_handle_io_apic :: "memory \<Rightarrow> u32 \<Rightarrow> apic \<Rightarrow> apic outcome" where
  "acpi_handle_io_apic m header st =
     (if ap_io_apic_size st = IO_APIC_MAX_COUNT then Inr st
      else io_apic_add (io_apic_paddr m header) (io_apic_gsi_base m header) st)"

definition isa_source_cfg :: "u32 \<Rightarrow> u32 \<Rightarrow> u32 \<Rightarrow> isa_irq_cfg option" where
  "isa_source_cfg source gsi source_flags =
     (let polarity = source_flags AND ISA_POLARITY_MASK;
          trigger = source_flags AND ISA_TRIGGER_MASK
      in if source = gsi \<and> polarity = 0 \<and> trigger = 0 then None
         else
           (let polarity1 = (if polarity = 0 then ISA_POLARITY_HIGH else polarity);
                trigger1 = (if trigger = 0 then ISA_TRIGGER_EDGE else trigger);
                flags = (if trigger1 = ISA_TRIGGER_LEVEL
                  then (if polarity1 = ISA_POLARITY_HIGH then HWIRQ_HIGH else HWIRQ_LOW)
                  else (if polarity1 = ISA_POLARITY_HIGH then HWIRQ_RISING else HWIRQ_FALLING))
            in Some \<lparr>cfg_flags = flags, cfg_isa = source, cfg_gsi = gsi\<rparr>))"

definition acpi_handle_isa_source :: "memory \<Rightarrow> u32 \<Rightarrow> apic \<Rightarrow> apic outcome" where
  "acpi_handle_isa_source m header st =
     (case isa_source_cfg (ucast (isa_source_source m header)) (ucast (isa_source_gsi m header))
         (ucast (isa_source_flags m header)) of
        None \<Rightarrow> Inr st
      | Some cfg \<Rightarrow> io_apic_setup_isa cfg st)"

definition acpi_handle_local_apic :: "memory \<Rightarrow> u32 \<Rightarrow> apic \<Rightarrow> apic outcome" where
  "acpi_handle_local_apic m header st =
     (if ap_local_apic_count st = LOCAL_APIC_MAX_COUNT then Inr st
      else Inr (st\<lparr>ap_local_apic := (ap_local_apic st)(ap_local_apic_count st := ucast (local_apic_id m header)),
        ap_local_apic_count := ap_local_apic_count st + 1\<rparr>))"

definition setup_io_apic_acpi :: "memory \<Rightarrow> u32 \<Rightarrow> acpi \<Rightarrow> apic \<Rightarrow> apic outcome option" where
  "setup_io_apic_acpi m sign ac st =
     (case acpi_parse_madt m sign MADT_IO_APIC (acpi_handle_io_apic m) ac st of
        None \<Rightarrow> None
      | Some (Inl e) \<Rightarrow> Some (Inl e)
      | Some (Inr (n, st1)) \<Rightarrow>
          (case io_apic_isa_defaults st1 of
             Inl e \<Rightarrow> Some (Inl e)
           | Inr st2 \<Rightarrow>
               map_option (map_sum id snd)
                 (acpi_parse_madt m sign MADT_ISA_SOURCE (acpi_handle_isa_source m) ac st2)))"

definition setup_local_apic_acpi :: "memory \<Rightarrow> u32 \<Rightarrow> acpi \<Rightarrow> apic \<Rightarrow> apic outcome option" where
  "setup_local_apic_acpi m sign ac st =
     (case acpi_table_find m sign ac of
        Inl e \<Rightarrow> Some (Inl e)
      | Inr tbl \<Rightarrow>
          (case acpi_parse_madt m sign MADT_LOCAL_APIC (acpi_handle_local_apic m) ac st of
             None \<Rightarrow> None
           | Some (Inl e) \<Rightarrow> Some (Inl e)
           | Some (Inr (n, st1)) \<Rightarrow>
               (let (iospace, km) = kmap (madt_lapic_paddr m tbl) LOCAL_APIC_PAGE_FLAGS (ap_kmap st1)
                in Some (Inr (st1\<lparr>ap_kmap := km, ap_local_apic_iospace := iospace\<rparr>)))))"

subsection \<open>The controller\<close>

definition io_apic_setup_irq :: "nat \<Rightarrow> u32 \<Rightarrow> u32 \<Rightarrow> u32 \<Rightarrow> u32 \<Rightarrow> apic \<Rightarrow> apic" where
  "io_apic_setup_irq a pin ino flags cpus st =
     (let high = push_bit 24 (cpus AND 0xFF);
          low0 = (ino AND 0xFF) OR IO_APIC_LOW_PRI OR IO_APIC_LOGICAL;
          low1 = (if flags AND HWIRQ_DISABLED \<noteq> 0 then low0 OR IO_APIC_MASK else low0);
          low2 = (if flags AND (HWIRQ_FALLING OR HWIRQ_LOW) \<noteq> 0 then low1 OR IO_APIC_LOW else low1);
          low3 = (if flags AND (HWIRQ_HIGH OR HWIRQ_LOW) \<noteq> 0 then low2 OR IO_APIC_LEVEL else low2);
          iospace = ia_iospace (ap_io_apic st a);
          st1 = io_apic_write iospace (IO_APIC_REDTBL_REG + 2 * pin + 1) high st
      in io_apic_write iospace (IO_APIC_REDTBL_REG + 2 * pin) low3 st1)"

text \<open>How \<open>apic_setup\<close>, \<open>apic_mask\<close> and \<open>apic_unmask\<close> find the I/O APIC and the pin of an interrupt.\<close>

definition apic_resolve :: "u32 \<Rightarrow> apic \<Rightarrow> (u32 \<times> nat \<times> u32) outcome" where
  "apic_resolve irq st =
     (let (gsi, apic, pin) = (if irq < ISA_IRQ_COUNT
        then (im_gsi (ap_isa_irq st (unat irq)), im_io_apic (ap_isa_irq st (unat irq)), im_pin (ap_isa_irq st (unat irq)))
        else (irq, None, 0))
      in case apic of
           Some a \<Rightarrow> Inr (gsi, a, pin)
         | None \<Rightarrow> bind_outcome (io_apic_find gsi st) (\<lambda>a. Inr (gsi, a, gsi - ia_gsi (ap_io_apic st a))))"

definition apic_setup :: "u32 \<Rightarrow> u32 \<Rightarrow> apic \<Rightarrow> apic outcome" where
  "apic_setup irq flags st =
     (let flags1 = (if irq < ISA_IRQ_COUNT
        then (if flags AND HWIRQ_DISABLED \<noteq> 0 then im_flags (ap_isa_irq st (unat irq)) OR HWIRQ_DISABLED
              else im_flags (ap_isa_irq st (unat irq)))
        else flags)
      in bind_outcome (apic_resolve irq st) (\<lambda>(gsi, a, pin).
        Inr (io_apic_setup_irq a pin (gsi + HW_INTERRUPT_OFFSET) flags1 IO_APIC_DEST_ALL st)))"

definition apic_mask :: "u32 \<Rightarrow> apic \<Rightarrow> apic outcome" where
  "apic_mask irq st =
     bind_outcome (apic_resolve irq st) (\<lambda>(gsi, a, pin).
       let iospace = ia_iospace (ap_io_apic st a);
           (low, st1) = io_apic_read iospace (IO_APIC_REDTBL_REG + 2 * pin) st
       in Inr (io_apic_write iospace (IO_APIC_REDTBL_REG + 2 * pin) (low OR IO_APIC_MASK) st1))"

definition apic_unmask :: "u32 \<Rightarrow> apic \<Rightarrow> apic outcome" where
  "apic_unmask irq st =
     bind_outcome (apic_resolve irq st) (\<lambda>(gsi, a, pin).
       let iospace = ia_iospace (ap_io_apic st a);
           (low, st1) = io_apic_read iospace (IO_APIC_REDTBL_REG + 2 * pin) st
       in Inr (io_apic_write iospace (IO_APIC_REDTBL_REG + 2 * pin) (low AND NOT IO_APIC_MASK) st1))"

definition apic_eoi :: "u32 \<Rightarrow> apic \<Rightarrow> apic outcome" where
  "apic_eoi irq st = Inr (local_apic_write LOCAL_APIC_EOI_REG 0 st)"

definition apic_chip :: "apic irqchip" where
  "apic_chip = \<lparr>ic_setup = Some apic_setup, ic_mask = Some apic_mask, ic_unmask = Some apic_unmask,
     ic_eoi = Some apic_eoi\<rparr>"

definition setup_apic ::
  "memory \<Rightarrow> u32 \<Rightarrow> acpi \<Rightarrow> apic irqchip option \<times> apic \<Rightarrow> (apic irqchip option \<times> apic) outcome option" where
  "setup_apic m sign ac = (\<lambda>(chip, st).
     case setup_io_apic_acpi m sign ac st of
       None \<Rightarrow> None
     | Some (Inl e) \<Rightarrow> Some (Inl e)
     | Some (Inr st1) \<Rightarrow>
         map_option (map_sum id (\<lambda>st2. (irqchip_register apic_chip chip, st2)))
           (setup_local_apic_acpi m sign ac st1))"

function local_apic_loop :: "u32 \<Rightarrow> nat \<Rightarrow> apic \<Rightarrow> apic outcome" where
  "local_apic_loop pid i st =
     (if i < ap_local_apic_count st then
        (if pid = ap_local_apic st i then
           (let id = BITU (i mod 8);
                st1 = local_apic_write LOCAL_APIC_LD_REG (push_bit 24 id) st
            in Inr (local_apic_write LOCAL_APIC_SI_REG (SPURIOUS_INTERRUPT_VECTOR OR BITU 8) st1))
         else local_apic_loop pid (i + 1) st)
      else Inl (Panic ''Cannot find Local APIC''))"
  by pat_completeness auto
termination
  by (relation "measure (\<lambda>(p, i, st). ap_local_apic_count st - i)") auto

declare local_apic_loop.simps [simp del]

definition setup_local_apic :: "apic \<Rightarrow> apic outcome" where
  "setup_local_apic st = local_apic_loop (local_apic_pid st) 0 st"


subsection \<open>Lines and masks\<close>

text \<open>The line of an interrupt: the window of its I/O APIC and the index of its redirection entry.\<close>

definition apic_line :: "apic \<Rightarrow> u32 \<Rightarrow> (u32 \<times> u32) option" where
  "apic_line st irq =
     (case apic_resolve irq st of
        Inl e \<Rightarrow> None
      | Inr (gsi, a, pin) \<Rightarrow> Some (ia_iospace (ap_io_apic st a), (IO_APIC_REDTBL_REG + 2 * pin) AND 0xFF))"

definition apic_masked :: "apic \<Rightarrow> u32 \<times> u32 \<Rightarrow> bool" where
  "apic_masked st l = bit (ap_regs st (fst l) (snd l)) 16"

definition set_reg :: "u32 \<times> u32 \<Rightarrow> u32 \<Rightarrow> apic \<Rightarrow> apic" where
  "set_reg l v st = st\<lparr>ap_index := (ap_index st)(fst l := snd l),
     ap_regs := (ap_regs st)(fst l := (ap_regs st (fst l))(snd l := v))\<rparr>"

lemma io_apic_access:
  "io_apic_read io reg st = (ap_regs st io (reg AND 0xFF), st\<lparr>ap_index := (ap_index st)(io := reg AND 0xFF)\<rparr>)"
  "io_apic_write io reg v st = set_reg (io, reg AND 0xFF) v st"
  by (simp_all add: io_apic_read_def io_apic_write_def set_reg_def Let_def)

lemma set_reg_fields [simp]:
  "ap_regs (set_reg l v st) = (ap_regs st)(fst l := (ap_regs st (fst l))(snd l := v))"
  "ap_io_apic (set_reg l v st) = ap_io_apic st" "ap_io_apic_size (set_reg l v st) = ap_io_apic_size st"
  "ap_isa_irq (set_reg l v st) = ap_isa_irq st" "ap_local_regs (set_reg l v st) = ap_local_regs st"
  by (simp_all add: set_reg_def)

lemma find_loop_cong:
  "\<lbrakk>ap_io_apic st' = ap_io_apic st; ap_io_apic_size st' = ap_io_apic_size st\<rbrakk> \<Longrightarrow>
    find_loop gsi i st' = find_loop gsi i st"
proof (induction gsi i st rule: find_loop.induct)
  case (1 gsi i st)
  then show ?case by (subst (1 2) find_loop.simps) (auto simp: Let_def)
qed

lemma apic_resolve_cong:
  "\<lbrakk>ap_io_apic st' = ap_io_apic st; ap_io_apic_size st' = ap_io_apic_size st; ap_isa_irq st' = ap_isa_irq st\<rbrakk> \<Longrightarrow>
    apic_resolve irq st' = apic_resolve irq st"
  by (auto simp: apic_resolve_def io_apic_find_def find_loop_cong [of st' st] Let_def split: option.splits)

lemma apic_line_cong:
  "\<lbrakk>ap_io_apic st' = ap_io_apic st; ap_io_apic_size st' = ap_io_apic_size st; ap_isa_irq st' = ap_isa_irq st\<rbrakk> \<Longrightarrow>
    apic_line st' = apic_line st"
  by (auto simp: fun_eq_iff apic_line_def apic_resolve_cong [of st' st] split: sum.splits)

lemma apic_line_resolve:
  assumes "apic_line st irq = Some l"
  obtains gsi a pin where "apic_resolve irq st = Inr (gsi, a, pin)"
    and "l = (ia_iospace (ap_io_apic st a), (IO_APIC_REDTBL_REG + 2 * pin) AND 0xFF)"
  using assms by (auto simp: apic_line_def split: sum.splits)

lemma mask_call:
  assumes "apic_line st irq = Some l"
  shows "apic_mask irq st = Inr (set_reg l (ap_regs st (fst l) (snd l) OR IO_APIC_MASK) st)"
    and "apic_unmask irq st = Inr (set_reg l (ap_regs st (fst l) (snd l) AND NOT IO_APIC_MASK) st)"
proof -
  from assms obtain gsi a pin where r: "apic_resolve irq st = Inr (gsi, a, pin)"
    "l = (ia_iospace (ap_io_apic st a), (IO_APIC_REDTBL_REG + 2 * pin) AND 0xFF)" by (rule apic_line_resolve)
  show "apic_mask irq st = Inr (set_reg l (ap_regs st (fst l) (snd l) OR IO_APIC_MASK) st)"
    "apic_unmask irq st = Inr (set_reg l (ap_regs st (fst l) (snd l) AND NOT IO_APIC_MASK) st)"
    by (simp_all add: apic_mask_def apic_unmask_def r io_apic_access Let_def set_reg_def)
qed

lemma mask_bit:
  "bit (v OR IO_APIC_MASK) 16" "\<not> bit (v AND NOT IO_APIC_MASK) 16"
  "(v OR IO_APIC_MASK) AND NOT IO_APIC_MASK = v AND NOT IO_APIC_MASK"
  by (simp_all add: io_apic_bits bit_simps) (rule bit_word_eqI; auto simp: bit_simps)

interpretation apics: irq_controller apic_chip "\<lambda>_. True" apic_line apic_masked
proof
  fix st i l assume l: "apic_line st i = Some l"
  note m = mask_call [OF l]
  have line: "apic_line (set_reg l v st) = apic_line st" for v by (rule apic_line_cong) simp_all
  have masked: "apic_masked (set_reg l v st) = (apic_masked st)(l := bit v 16)" for v
    by (cases l) (auto simp: fun_eq_iff apic_masked_def)
  show "\<exists>st'. irqchip_mask (Some apic_chip) i st = Inr st' \<and> True \<and> apic_line st' = apic_line st \<and>
      apic_masked st' = (apic_masked st)(l := True)"
    by (simp add: irqchip_defs apic_chip_def m(1) line masked mask_bit)
  show "\<exists>st'. irqchip_unmask (Some apic_chip) i st = Inr st' \<and> True \<and> apic_line st' = apic_line st \<and>
      apic_masked st' = (apic_masked st)(l := False)"
    by (simp add: irqchip_defs apic_chip_def m(2) line masked mask_bit)
  show "\<exists>st'. irqchip_eoi (Some apic_chip) i st = Inr st' \<and> True \<and> apic_line st' = apic_line st \<and>
      apic_masked st' = apic_masked st"
    by (simp add: irqchip_defs apic_chip_def apic_eoi_def local_apic_write_def apic_masked_def fun_eq_iff)
      (simp add: apic_line_cong [of "st\<lparr>ap_local_regs := (ap_local_regs st)(LOCAL_APIC_EOI_REG := 0)\<rparr>" st])
qed

text \<open>The calls touch nothing but the mask bits of the redirection entries.\<close>

definition same_but_masks :: "apic \<Rightarrow> apic \<Rightarrow> bool" where
  "same_but_masks st st' \<longleftrightarrow> (\<forall>io r. ap_regs st' io r AND NOT IO_APIC_MASK = ap_regs st io r AND NOT IO_APIC_MASK) \<and>
     ap_io_apic st' = ap_io_apic st \<and> ap_isa_irq st' = ap_isa_irq st"

lemma calls_same_but_masks:
  "\<lbrakk>\<forall>c\<in>set cs. apic_line st (irq_of c) \<noteq> None; irq_calls (Some apic_chip) cs st = Inr st'\<rbrakk> \<Longrightarrow>
    same_but_masks st st'"
proof (induction cs arbitrary: st)
  case Nil
  then show ?case by (simp add: same_but_masks_def)
next
  case (Cons c cs)
  then obtain l where l: "apic_line st (irq_of c) = Some l" by auto
  have "\<exists>st1. irq_calls (Some apic_chip) (c # cs) st = irq_calls (Some apic_chip) cs st1 \<and>
      same_but_masks st st1 \<and> apic_line st1 = apic_line st"
  proof (cases c)
    case (Mask i)
    then show ?thesis using mask_call(1) [of st i l] l
      by (auto simp: irqchip_defs apic_chip_def same_but_masks_def mask_bit intro!: apic_line_cong)
  next
    case (Unmask i)
    then show ?thesis using mask_call(2) [of st i l] l
      by (auto simp: irqchip_defs apic_chip_def same_but_masks_def mask_bit and.assoc intro!: apic_line_cong)
  next
    case (Eoi i)
    then show ?thesis
      by (auto simp: irqchip_defs apic_chip_def apic_eoi_def local_apic_write_def same_but_masks_def
          intro!: apic_line_cong)
  qed
  then obtain st1 where st1: "irq_calls (Some apic_chip) (c # cs) st = irq_calls (Some apic_chip) cs st1"
    "same_but_masks st st1" "apic_line st1 = apic_line st" by blast
  have "same_but_masks st1 st'" using Cons.IH [of st1] Cons.prems st1(1,3) by simp
  with st1(2) show ?case by (simp add: same_but_masks_def)
qed

subsection \<open>Redirection entries\<close>

lemma bit_flag:
  "k < 32 \<Longrightarrow> bit (push_bit k (1 :: u32)) n \<longleftrightarrow> n = k"
  "k < 32 \<Longrightarrow> bit (push_bit k (of_bool b :: u32)) n \<longleftrightarrow> n = k \<and> b"
  by (auto simp: bit_simps)

lemma hwirq_bits:
  "(f :: u32) AND HWIRQ_DISABLED \<noteq> 0 \<longleftrightarrow> bit f 4"
  "f AND (HWIRQ_FALLING OR HWIRQ_LOW) \<noteq> 0 \<longleftrightarrow> bit f 1 \<or> bit f 3"
  "f AND (HWIRQ_HIGH OR HWIRQ_LOW) \<noteq> 0 \<longleftrightarrow> bit f 2 \<or> bit f 3"
proof -
  have p: "(16 :: u32) = push_bit 4 1" "(2 :: u32) OR 8 = push_bit 1 1 OR push_bit 3 1"
    "(4 :: u32) OR 8 = push_bit 2 1 OR push_bit 3 1" by (simp_all add: push_bit_eq_mult)
  have z: "v = 0 \<longleftrightarrow> (\<forall>k. \<not> bit v k)" for v :: u32 by (auto intro: bit_word_eqI)
  have e: "f AND push_bit n 1 = 0 \<longleftrightarrow> \<not> bit f n" if "n < 32" for n
    by (simp only: z bit_and_iff bit_flag(1) [OF that]) auto
  have e2: "f AND (push_bit m 1 OR push_bit n 1) = 0 \<longleftrightarrow> \<not> bit f m \<and> \<not> bit f n" if "m < 32" "n < 32" for m n
    by (simp only: z bit_and_iff bit_or_iff bit_flag(1) [OF that(1)] bit_flag(1) [OF that(2)]) auto
  show "f AND HWIRQ_DISABLED \<noteq> 0 \<longleftrightarrow> bit f 4" unfolding hwirq_defs p by (simp only: e) simp
  show "f AND (HWIRQ_FALLING OR HWIRQ_LOW) \<noteq> 0 \<longleftrightarrow> bit f 1 \<or> bit f 3" unfolding hwirq_defs p by (simp only: e2) simp
  show "f AND (HWIRQ_HIGH OR HWIRQ_LOW) \<noteq> 0 \<longleftrightarrow> bit f 2 \<or> bit f 3" unfolding hwirq_defs p by (simp only: e2) simp
qed

text \<open>The low word of a redirection entry as the code puts it together.\<close>

definition redir_low :: "u32 \<Rightarrow> u32 \<Rightarrow> u32" where
  "redir_low ino f = (ino AND mask 8) OR push_bit 8 1 OR push_bit 11 1 OR
     push_bit 16 (of_bool (bit f 4)) OR push_bit 13 (of_bool (bit f 1 \<or> bit f 3)) OR
     push_bit 15 (of_bool (bit f 2 \<or> bit f 3))"

lemma redir_low_bit:
  "bit (redir_low ino f) n \<longleftrightarrow> n < 8 \<and> bit ino n \<or> n = 8 \<or> n = 11 \<or> n = 16 \<and> bit f 4 \<or>
    n = 13 \<and> (bit f 1 \<or> bit f 3) \<or> n = 15 \<and> (bit f 2 \<or> bit f 3)"
  unfolding redir_low_def bit_or_iff bit_and_iff bit_mask_iff
  by (auto simp: bit_flag simp del: push_bit_of_1 push_bit_of_Suc_0 push_bit_numeral_minus_1)

lemma redir_low_fields:
  "redir_low ino f AND mask 8 = ino AND mask 8"
  "drop_bit 8 (redir_low ino f) AND mask 3 = 1"
  "bit (redir_low ino f) 11" "bit (redir_low ino f) 13 \<longleftrightarrow> bit f 1 \<or> bit f 3"
  "bit (redir_low ino f) 15 \<longleftrightarrow> bit f 2 \<or> bit f 3" "bit (redir_low ino f) 16 \<longleftrightarrow> bit f 4"
       apply (intro bit_word_eqI, auto simp: redir_low_bit bit_and_iff bit_mask_iff)[1]
      apply (intro bit_word_eqI, auto simp: redir_low_bit bit_and_iff bit_mask_iff bit_drop_bit_eq bit_1_iff)[1]
     apply (simp_all add: redir_low_bit)
  done

lemma redir_index_distinct: "((0x10 + 2 * pin + 1) AND 0xFF :: u32) \<noteq> (0x10 + 2 * pin) AND 0xFF"
proof
  assume a: "((0x10 + 2 * pin + 1) AND 0xFF :: u32) = (0x10 + 2 * pin) AND 0xFF"
  have ff: "(0xFF :: u32) = mask 8" by (simp add: mask_eq_exp_minus_1)
  have b: "bit (v AND 0xFF) 0 \<longleftrightarrow> odd v" for v :: u32 unfolding ff bit_and_iff bit_mask_iff by (simp add: bit_0)
  show False using b [of "0x10 + 2 * pin + 1"] b [of "0x10 + 2 * pin"] a by simp
qed

lemma io_apic_setup_irq_regs:
  assumes "io = ia_iospace (ap_io_apic st a)" and "k = (IO_APIC_REDTBL_REG + 2 * pin) AND 0xFF"
    and "k' = (IO_APIC_REDTBL_REG + 2 * pin + 1) AND 0xFF"
  shows "io_apic_setup_irq a pin ino f cpus st =
      set_reg (io, k) (redir_low ino f) (set_reg (io, k') (push_bit 24 (cpus AND 0xFF)) st)" and "k \<noteq> k'"
proof -
  show "k \<noteq> k'" using redir_index_distinct [of pin] assms(2,3) by (simp add: IO_APIC_REDTBL_REG_def)
  have ff: "(0xFF :: u32) = mask 8" by (simp add: mask_eq_exp_minus_1)
  show "io_apic_setup_irq a pin ino f cpus st =
      set_reg (io, k) (redir_low ino f) (set_reg (io, k') (push_bit 24 (cpus AND 0xFF)) st)"
    unfolding assms io_apic_setup_irq_def Let_def io_apic_access(2) hwirq_bits redir_low_def ff io_apic_bits
    by (simp add: or.assoc)
qed

subsection \<open>The default mapping of the ISA interrupts\<close>

lemma isa_defaults_loop_run:
  assumes "k + n \<le> 16" and "io_apic_find 1 st = Inr a"
  shows "\<exists>st'. isa_defaults_loop (of_nat k) n st = Inr st' \<and> ap_io_apic st' = ap_io_apic st \<and>
    ap_io_apic_size st' = ap_io_apic_size st \<and>
    (\<forall>j. ap_isa_irq st' j = (if k \<le> j \<and> j < k + n then \<lparr>im_io_apic = Some a, im_flags = of_nat j, im_gsi = 1,
       im_pin = 1 - ia_gsi (ap_io_apic st a)\<rparr> else ap_isa_irq st j))"
  using assms
proof (induction n arbitrary: k st)
  case (Suc n)
  have u: "unat (of_nat k :: u32) = k" using Suc.prems(1) by (simp add: unat_of_nat take_bit_nat_eq_self)
  then have lt: "(of_nat k :: u32) < 16" using Suc.prems(1) by (simp add: word_less_nat_alt)
  define st1 where "st1 = st\<lparr>ap_isa_irq := (ap_isa_irq st)(k := \<lparr>im_io_apic = Some a, im_flags = of_nat k,
    im_gsi = 1, im_pin = 1 - ia_gsi (ap_io_apic st a)\<rparr>)\<rparr>"
  have s: "io_apic_setup_isa \<lparr>cfg_flags = of_nat k, cfg_isa = of_nat k, cfg_gsi = HWIRQ_RISING\<rparr> st = Inr st1"
    using lt Suc.prems(2) u
    by (simp add: io_apic_setup_isa_def assert_that_def ISA_IRQ_COUNT_def HWIRQ_RISING_def st1_def)
  have "io_apic_find 1 st1 = Inr a" using Suc.prems(2) find_loop_cong [of st1 st]
    by (simp add: io_apic_find_def st1_def)
  from Suc.IH [of "Suc k", OF _ this] Suc.prems(1) obtain st' where
    "isa_defaults_loop (of_nat (Suc k)) n st1 = Inr st'" "ap_io_apic st' = ap_io_apic st1"
    "ap_io_apic_size st' = ap_io_apic_size st1"
    "\<forall>j. ap_isa_irq st' j = (if Suc k \<le> j \<and> j < Suc k + n then \<lparr>im_io_apic = Some a, im_flags = of_nat j, im_gsi = 1,
       im_pin = 1 - ia_gsi (ap_io_apic st1 a)\<rparr> else ap_isa_irq st1 j)" by auto
  then show ?case by (auto simp: s st1_def add.commute)
qed auto

subsection \<open>Properties\<close>

text \<open>
  C24: whatever calls of \<open>irqchip_mask\<close>, \<open>irqchip_unmask\<close> and \<open>irqchip_eoi\<close> follow on the APIC for
  interrupts that have an I/O APIC, none fails, the mask bits of the redirection entries are those
  the calls ask for, and nothing else of any register of an I/O APIC changes.
\<close>

theorem apic_masks:
  assumes "\<forall>c\<in>set cs. apic_line st (irq_of c) \<noteq> None"
  shows "\<exists>st'. irq_calls (Some apic_chip) cs st = Inr st' \<and>
    (\<forall>io r. bit (ap_regs st' io r) 16 =
       fold (mask_effect (\<lambda>i. the (apic_line st i))) cs (apic_masked st) (io, r)) \<and>
    (\<forall>io r. ap_regs st' io r AND NOT IO_APIC_MASK = ap_regs st io r AND NOT IO_APIC_MASK)"
proof -
  from apics.history [OF TrueI assms] obtain st' where st': "irq_calls (Some apic_chip) cs st = Inr st'"
    "apic_masked st' = fold (mask_effect (\<lambda>i. the (apic_line st i))) cs (apic_masked st)" by blast
  have "same_but_masks st st'" by (rule calls_same_but_masks [OF assms st'(1)])
  then have "\<forall>io r. ap_regs st' io r AND NOT IO_APIC_MASK = ap_regs st io r AND NOT IO_APIC_MASK"
    by (simp add: same_but_masks_def)
  with st' show ?thesis by (metis apic_masked_def fst_conv snd_conv)
qed

text \<open>A machine with one I/O APIC of 24 lines; the ISA interrupts are not mapped yet.\<close>

definition sample_apic :: apic where
  "sample_apic = \<lparr>ap_io_apic = (\<lambda>_. \<lparr>ia_iospace = 0xFFC00000, ia_gsi = 0, ia_irqs = 24, ia_id = 0\<rparr>),
     ap_io_apic_size = 1, ap_isa_irq = (\<lambda>_. \<lparr>im_io_apic = None, im_flags = 0, im_gsi = 0, im_pin = 0\<rparr>),
     ap_local_apic = (\<lambda>_. 0), ap_local_apic_iospace = 0xFFC01000, ap_local_apic_count = 1,
     ap_kmap = \<lparr>km_tables = (\<lambda>_. 0), km_top = 2\<rparr>, ap_index = (\<lambda>_. 0), ap_regs = (\<lambda>_ _. 0x10000),
     ap_local_regs = (\<lambda>_. 0)\<rparr>"

lemma sample_apic_line: "irq < 16 \<Longrightarrow> apic_line sample_apic irq = Some (0xFFC00000, 0x10)"
  by (simp add: apic_line_def apic_resolve_def sample_apic_def ISA_IRQ_COUNT_def io_apic_find_def
      find_loop.simps IO_APIC_REDTBL_REG_def)

theorem apic_masks_witness:
  "\<exists>st'. irq_calls (Some apic_chip) [Unmask 0, Eoi 0] sample_apic = Inr st' \<and>
    \<not> bit (ap_regs st' 0xFFC00000 0x10) 16 \<and> bit (ap_regs st' 0xFFC00000 0x12) 16"
proof -
  have "\<forall>c\<in>set [Unmask 0, Eoi 0]. apic_line sample_apic (irq_of c) \<noteq> None" by (simp add: sample_apic_line)
  from apic_masks [OF this] obtain st' where
    st': "irq_calls (Some apic_chip) [Unmask 0, Eoi 0] sample_apic = Inr st'"
    "\<forall>io r. bit (ap_regs st' io r) 16 = ((apic_masked sample_apic)((0xFFC00000, 0x10) := False)) (io, r)"
    by (auto simp: sample_apic_line)
  moreover have "apic_masked sample_apic (0xFFC00000, 0x12)" by (simp add: apic_masked_def sample_apic_def)
  ultimately show ?thesis by auto
qed

text \<open>
  C25: \<open>apic_setup\<close> writes the redirection entry of the interrupt and no other register. Its low word
  has the vector (the global number plus 0x20, as a byte), lowest-priority delivery, logical
  destination, low polarity for falling or low, level triggering for high or low, and the mask bit
  exactly when the interrupt is disabled; its high word names all processors. For an ISA interrupt
  the polarity and the trigger are those of the mapping and only \<open>HWIRQ_DISABLED\<close> of the request
  counts.
\<close>

theorem apic_setup_redirects:
  assumes "apic_resolve irq st = Inr (gsi, a, pin)" and "io = ia_iospace (ap_io_apic st a)"
    and "k = (0x10 + 2 * pin) AND 0xFF" and "k' = (0x10 + 2 * pin + 1) AND 0xFF"
    and "f = (if irq < 16 then im_flags (ap_isa_irq st (unat irq)) OR (flags AND HWIRQ_DISABLED) else flags)"
  shows "\<exists>st'. irqchip_setup (Some apic_chip) irq flags st = Inr st' \<and>
    ap_regs st' io k AND mask 8 = (gsi + 0x20) AND mask 8 \<and>
    drop_bit 8 (ap_regs st' io k) AND mask 3 = 1 \<and> bit (ap_regs st' io k) 11 \<and>
    (bit (ap_regs st' io k) 13 \<longleftrightarrow> f AND (HWIRQ_FALLING OR HWIRQ_LOW) \<noteq> 0) \<and>
    (bit (ap_regs st' io k) 15 \<longleftrightarrow> f AND (HWIRQ_HIGH OR HWIRQ_LOW) \<noteq> 0) \<and>
    (bit (ap_regs st' io k) 16 \<longleftrightarrow> f AND HWIRQ_DISABLED \<noteq> 0) \<and>
    ap_regs st' io k' = 0xFF000000 \<and>
    (\<forall>w r. (w, r) \<noteq> (io, k) \<and> (w, r) \<noteq> (io, k') \<longrightarrow> ap_regs st' w r = ap_regs st w r) \<and>
    apic_line st' = apic_line st"
proof -
  define low where "low = redir_low (gsi + 0x20) f"
  define st' where "st' = set_reg (io, k) low (set_reg (io, k') 0xFF000000 st)"
  have k: "k = (IO_APIC_REDTBL_REG + 2 * pin) AND 0xFF" "k' = (IO_APIC_REDTBL_REG + 2 * pin + 1) AND 0xFF"
    by (simp_all add: assms(3,4) IO_APIC_REDTBL_REG_def)
  note w = io_apic_setup_irq_regs [OF assms(2) k]
  have "(if irq < ISA_IRQ_COUNT
        then (if flags AND HWIRQ_DISABLED \<noteq> 0 then im_flags (ap_isa_irq st (unat irq)) OR HWIRQ_DISABLED
              else im_flags (ap_isa_irq st (unat irq))) else flags) = f"
  proof -
    have bits: "bit HWIRQ_DISABLED n \<longleftrightarrow> n = 4" for n
      using bit_flag(1) [of 4 n] by (simp add: HWIRQ_DISABLED_def)
    have "flags AND HWIRQ_DISABLED = (if bit flags 4 then HWIRQ_DISABLED else 0)"
      by (rule bit_word_eqI) (auto simp: bit_and_iff bits)
    then show ?thesis unfolding assms(5) ISA_IRQ_COUNT_def hwirq_bits by simp
  qed
  then have run: "irqchip_setup (Some apic_chip) irq flags st = Inr st'"
    by (simp add: irqchip_defs apic_chip_def apic_setup_def assms(1) Let_def w(1) HW_INTERRUPT_OFFSET_def
        IO_APIC_DEST_ALL_def st'_def low_def)
  have regs: "ap_regs st' io k = low" "ap_regs st' io k' = 0xFF000000"
    "\<And>v r. (v, r) \<noteq> (io, k) \<and> (v, r) \<noteq> (io, k') \<Longrightarrow> ap_regs st' v r = ap_regs st v r"
    using w(2) by (auto simp: st'_def)
  have lines: "apic_line st' = apic_line st" by (rule apic_line_cong) (simp_all add: st'_def)
  note fields = redir_low_fields [of "gsi + 0x20" f, folded low_def, folded regs(1), folded hwirq_bits]
  show ?thesis
    by (rule exI [of _ st'], intro conjI run fields regs(2) lines)
      (use regs(3) in blast)
qed

theorem apic_setup_redirects_witness:
  "\<exists>st'. irqchip_setup (Some apic_chip) 20 (HWIRQ_LOW OR HWIRQ_DISABLED) sample_apic = Inr st' \<and>
    ap_regs st' 0xFFC00000 0x38 AND mask 8 = 0x34 \<and> bit (ap_regs st' 0xFFC00000 0x38) 13 \<and>
    bit (ap_regs st' 0xFFC00000 0x38) 16 \<and> ap_regs st' 0xFFC00000 0x39 = 0xFF000000"
proof -
  have r: "apic_resolve 20 sample_apic = Inr (20, 0, 20)"
    by (simp add: apic_resolve_def sample_apic_def ISA_IRQ_COUNT_def io_apic_find_def find_loop.simps)
  have "mask 8 = (0xFF :: u32)" by (simp add: mask_eq_exp_minus_1)
  with apic_setup_redirects [OF r refl refl refl refl, of "HWIRQ_LOW OR HWIRQ_DISABLED"]
  show ?thesis by (auto simp: hwirq_defs sample_apic_def)
qed

text \<open>
  As long as some I/O APIC serves line 1, \<open>io_apic_isa_defaults\<close> maps all 16 ISA interrupts to
  the global interrupt 1 and takes the number of the interrupt for its flags, so they all share one
  redirection entry and masking any of them masks all. (The initialiser gives the fields by
  position, in an order that is not the order of the structure.)
\<close>

lemma io_apic_isa_defaults_share:
  assumes "io_apic_find 1 st = Inr a"
  shows "\<exists>st'. io_apic_isa_defaults st = Inr st' \<and>
    (\<forall>i < 16. ap_isa_irq st' i = \<lparr>im_io_apic = Some a, im_flags = of_nat i, im_gsi = 1,
       im_pin = 1 - ia_gsi (ap_io_apic st a)\<rparr>) \<and>
    (\<forall>i < 16. apic_line st' i = apic_line st' 1)"
proof -
  define e where "e i = \<lparr>im_io_apic = Some a, im_flags = i, im_gsi = 1, im_pin = 1 - ia_gsi (ap_io_apic st a)\<rparr>" for i
  have n: "unat ISA_IRQ_COUNT = 16" by (simp add: ISA_IRQ_COUNT_def)
  obtain st' where st': "io_apic_isa_defaults st = Inr st'"
    "ap_io_apic st' = ap_io_apic st" "\<forall>j < 16. ap_isa_irq st' j = e (of_nat j)"
  proof -
    have "0 + 16 \<le> (16 :: nat)" by simp
    from isa_defaults_loop_run [OF this assms] obtain st' where "isa_defaults_loop (of_nat 0) 16 st = Inr st'"
      "ap_io_apic st' = ap_io_apic st"
      "\<forall>j. ap_isa_irq st' j = (if 0 \<le> j \<and> j < 0 + 16 then e (of_nat j) else ap_isa_irq st j)"
      unfolding e_def by blast
    then show ?thesis by (intro that [of st']) (simp_all add: io_apic_isa_defaults_def n)
  qed
  have "apic_line st' i = Some (ia_iospace (ap_io_apic st a),
      (IO_APIC_REDTBL_REG + 2 * (1 - ia_gsi (ap_io_apic st a))) AND 0xFF)" if "i < 16" for i
  proof -
    from that have "unat i < 16" by (simp add: word_less_nat_alt)
    with st'(3) that show ?thesis
      by (simp add: apic_line_def apic_resolve_def ISA_IRQ_COUNT_def e_def st'(2))
  qed
  then have "\<forall>i < 16. apic_line st' i = apic_line st' 1" by simp
  moreover have "\<forall>i < 16. ap_isa_irq st' i = \<lparr>im_io_apic = Some a, im_flags = of_nat i, im_gsi = 1,
       im_pin = 1 - ia_gsi (ap_io_apic st a)\<rparr>" using st'(3) by (simp only: e_def)
  ultimately show ?thesis using st'(1) by blast
qed

lemma io_apic_isa_defaults_share_witness:
  "\<exists>st'. io_apic_isa_defaults sample_apic = Inr st' \<and> apic_line st' 7 = apic_line st' 1 \<and>
    im_flags (ap_isa_irq st' 8) = HWIRQ_LOW"
proof -
  have "io_apic_find 1 sample_apic = Inr 0" by (simp add: io_apic_find_def find_loop.simps sample_apic_def)
  from io_apic_isa_defaults_share [OF this] obtain st' where st': "io_apic_isa_defaults sample_apic = Inr st'"
    "\<forall>i < 16. ap_isa_irq st' i = \<lparr>im_io_apic = Some 0, im_flags = of_nat i, im_gsi = 1,
       im_pin = 1 - ia_gsi (ap_io_apic sample_apic 0)\<rparr>" "\<forall>i < 16. apic_line st' i = apic_line st' 1" by blast
  from st'(2) have "im_flags (ap_isa_irq st' 8) = HWIRQ_LOW" by (simp add: HWIRQ_LOW_def)
  moreover have "apic_line st' 7 = apic_line st' 1" by (rule st'(3) [rule_format]) simp
  ultimately show ?thesis using st'(1) by blast
qed

end
