(* ===== verification/Apic_Boot.thy ===== *)
theory Apic_Boot
  imports Apic
begin

text \<open>
  What \<open>setup_acpi\<close>, \<open>setup_apic\<close> and \<open>setup_local_apic\<close> make of the tables of the firmware: which root
  pointer is found, which I/O APICs and local APICs are registered, where every ISA interrupt goes,
  and when the set-up stops. The result is described from the entries of the MADT alone.
\<close>

subsection \<open>The root pointer\<close>

definition same_root_sign :: "memory \<Rightarrow> u32 \<Rightarrow> u32 \<Rightarrow> bool" where
  "same_root_sign m a b \<longleftrightarrow> (\<forall>i < 8. m (a + of_nat i) = m (b + of_nat i))"

definition paragraphs :: "u32 \<Rightarrow> nat \<Rightarrow> u32 list" where
  "paragraphs a n = map (\<lambda>k. a + 16 * of_nat k) [0..<n]"

lemma paragraphs_Suc: "paragraphs a (Suc n) = a # paragraphs (a + 16) n"
proof -
  have "[0..<Suc n] = 0 # map Suc [0..<n]" by (simp add: upt_conv_Cons map_Suc_upt del: upt_Suc)
  then show ?thesis by (simp add: paragraphs_def algebra_simps del: upt_Suc)
qed

lemma acpi_find_rsdp_sign_first:
  assumes "unat a + 16 * n < 2 ^ 32" and "unat sign + 8 < 2 ^ 32"
  shows "acpi_find_rsdp_sign m sign a (a + 16 * of_nat n) =
    Some (case find (same_root_sign m sign) (paragraphs a n) of None \<Rightarrow> 0 | Some p \<Rightarrow> p)"
  using assms(1)
proof (induction n arbitrary: a)
  case 0
  show ?case by (subst acpi_find_rsdp_sign.simps) (simp add: paragraphs_def)
next
  case (Suc n)
  have s: "memcmp sign a ACPI_RSDP_SIGN_SIZE m = 0 \<longleftrightarrow> same_root_sign m sign a"
    using memcmp_eq_0_iff [of sign ACPI_RSDP_SIGN_SIZE a m] assms(2)
    by (simp add: ACPI_RSDP_SIGN_SIZE_def same_root_sign_def)
  have n: "unat (16 * of_nat (Suc n) :: u32) = 16 * Suc n"
    using Suc.prems by (simp add: unat_word_ariths unat_of_nat take_bit_nat_eq_self)
  have lt: "a < a + 16 * of_nat (Suc n)"
    using Suc.prems n by (simp add: word_less_nat_alt unat_plus_no_wrap del: of_nat_Suc)
  have "unat (a + 16) = unat a + 16" using Suc.prems by (subst unat_plus_no_wrap) simp_all
  with Suc.IH [of "a + 16"] Suc.prems
  have IH: "acpi_find_rsdp_sign m sign (a + 16) (a + 16 * of_nat (Suc n)) =
    Some (case find (same_root_sign m sign) (paragraphs (a + 16) n) of None \<Rightarrow> 0 | Some p \<Rightarrow> p)"
    by (simp add: algebra_simps)
  show ?case
    by (subst acpi_find_rsdp_sign.simps) (use lt s IH in \<open>simp add: paragraphs_Suc del: of_nat_Suc\<close>)
qed

text \<open>
  The places where the code looks: 64 paragraphs from the address that the word at \<open>0x40E0\<close> gives,
  then the area of the BIOS.
\<close>

definition root_places :: "memory \<Rightarrow> u32 list" where
  "root_places m = paragraphs (virt_addr (ucast (read16 m (virt_addr (push_bit 4 0x40E))))) 64 @
     paragraphs 0xC00E0000 0x2000"

lemma paragraphs_nonzero:
  assumes "0 < unat a" and "unat a + 16 * n < 2 ^ 32"
  shows "0 \<notin> set (paragraphs a n)"
proof
  assume "0 \<in> set (paragraphs a n)"
  then obtain k where k: "k < n" "a + 16 * of_nat k = 0" by (auto simp: paragraphs_def)
  have "unat (16 * of_nat k :: u32) = 16 * k"
    using assms k by (simp add: unat_word_ariths unat_of_nat take_bit_nat_eq_self)
  then have "unat (a + 16 * of_nat k) = unat a + 16 * k"
    using assms k(1) by (subst unat_plus_no_wrap) simp_all
  with assms(1) show False unfolding k(2) by simp
qed

lemma handle_all_append:
  "handle_all f (xs @ ys) s = bind_outcome (handle_all f xs s) (handle_all f ys)"
  by (induction xs arbitrary: s) (auto simp: bind_outcome_def split: sum.splits)

lemma find_append: "find P (xs @ ys) = (case find P xs of None \<Rightarrow> find P ys | Some x \<Rightarrow> Some x)"
  by (induction xs) auto

lemma setup_acpi_search:
  assumes "unat sign + 8 < 2 ^ 32"
  shows "setup_acpi m sign st = Some (case find (same_root_sign m sign) (root_places m) of
      None \<Rightarrow> st\<lparr>ac_rsdp := 0\<rparr> | Some p \<Rightarrow> st\<lparr>ac_rsdp := p, ac_rsdt := virt_addr (rsdp_rsdt_paddr m p)\<rparr>)"
    and "find (same_root_sign m sign) (root_places m) = Some p \<Longrightarrow> p \<noteq> 0"
proof -
  define e where "e = (ucast (read16 m (virt_addr (push_bit 4 0x40E))) :: u32)"
  have w: "unat w < 2 ^ 16" for w :: u16 using unsigned_less [of w, where 'a = nat] by simp
  have "unat e < 2 ^ 16"
    using w [of "read16 m (virt_addr (push_bit 4 0x40E))"]
    by (simp add: e_def unsigned_ucast_eq take_bit_nat_eq_self)
  then have v: "unat (virt_addr e) = 0xC0000000 + unat e"
    by (simp add: virt_addr_def PAGE_OFFSET_def unat_plus_no_wrap)
  have r: "virt_addr (e + 0x400) = virt_addr e + 16 * of_nat 64" by (simp add: virt_addr_def)
  have b: "virt_addr 0xE0000 = 0xC00E0000" "virt_addr 0x100000 = 0xC00E0000 + 16 * of_nat 0x2000"
    by (simp_all add: virt_addr_def PAGE_OFFSET_def)
  have f1: "acpi_find_rsdp_sign m sign (virt_addr e) (virt_addr (e + 0x400)) =
      Some (case find (same_root_sign m sign) (paragraphs (virt_addr e) 64) of None \<Rightarrow> 0 | Some p \<Rightarrow> p)"
    unfolding r using v \<open>unat e < _\<close> assms by (intro acpi_find_rsdp_sign_first) simp_all
  have f2: "acpi_find_rsdp_sign m sign (virt_addr 0xE0000) (virt_addr 0x100000) =
      Some (case find (same_root_sign m sign) (paragraphs 0xC00E0000 0x2000) of None \<Rightarrow> 0 | Some p \<Rightarrow> p)"
    unfolding b using assms by (intro acpi_find_rsdp_sign_first) simp_all
  have rp: "root_places m = paragraphs (virt_addr e) 64 @ paragraphs 0xC00E0000 0x2000"
    by (simp only: root_places_def e_def)
  have z: "0 \<notin> set (root_places m)"
    using paragraphs_nonzero [of "virt_addr e" 64] paragraphs_nonzero [of "0xC00E0000" "0x2000"] v \<open>unat e < _\<close>
    by (auto simp: rp)
  then show nz: "find (same_root_sign m sign) (root_places m) = Some p \<Longrightarrow> p \<noteq> 0" for p
    by (auto simp: find_Some_iff) (metis nth_mem)
  have z1: "0 \<notin> set (paragraphs (virt_addr e) 64)" using z by (simp add: rp)
  have "p \<noteq> 0" if "find (same_root_sign m sign) (paragraphs (virt_addr e) 64) = Some p" for p
    using that z1 by (auto simp: find_Some_iff) (metis nth_mem)
  then have probe: "acpi_rsdp_probe m sign = Some (case find (same_root_sign m sign) (root_places m) of
      None \<Rightarrow> 0 | Some p \<Rightarrow> p)"
    unfolding acpi_rsdp_probe_def acpi_find_rsdp_addr_def Let_def e_def [symmetric] f1 f2 rp find_append
    by (auto split: option.split)
  show "setup_acpi m sign st = Some (case find (same_root_sign m sign) (root_places m) of
      None \<Rightarrow> st\<lparr>ac_rsdp := 0\<rparr> | Some p \<Rightarrow> st\<lparr>ac_rsdp := p, ac_rsdt := virt_addr (rsdp_rsdt_paddr m p)\<rparr>)"
    unfolding setup_acpi_def probe using nz by (auto split: option.split)
qed

subsection \<open>The I/O APICs\<close>

text \<open>
  What is registered for an entry of the MADT whose registers are mapped at the page table entry
  \<open>pe\<close>, when the windows have the registers \<open>regs\<close>.
\<close>

definition io_apic_of :: "memory \<Rightarrow> (u32 \<Rightarrow> u32 \<Rightarrow> u32) \<Rightarrow> nat \<Rightarrow> u32 \<Rightarrow> io_apic" where
  "io_apic_of m regs pe h = \<lparr>ia_iospace = kmap_addr pe, ia_gsi = io_apic_gsi_base m h,
     ia_irqs = 1 + (drop_bit 16 (regs (kmap_addr pe) 1) AND 0xFF),
     ia_id = drop_bit 24 (regs (kmap_addr pe) 0) AND 0x0F\<rparr>"

definition io_apics_of :: "memory \<Rightarrow> (u32 \<Rightarrow> u32 \<Rightarrow> u32) \<Rightarrow> nat \<Rightarrow> u32 list \<Rightarrow> io_apic list" where
  "io_apics_of m regs pe es = map (\<lambda>i. io_apic_of m regs (pe + i) (es ! i)) [0..<length es]"

lemma io_apics_of_snoc [simp]:
  "io_apics_of m regs pe [] = []"
  "io_apics_of m regs pe (es @ [e]) = io_apics_of m regs pe es @ [io_apic_of m regs (pe + length es) e]"
  by (simp_all add: io_apics_of_def nth_append)

definition apics_of :: "apic \<Rightarrow> io_apic list" where
  "apics_of st = map (ap_io_apic st) [0..<ap_io_apic_size st]"

definition high_paddr :: "u32 \<Rightarrow> bool" where
  "high_paddr p \<longleftrightarrow> KMAP_OFFSET - PAGE_OFFSET \<le> p"

text \<open>\<open>mapped_at km pe p\<close>: the entry \<open>pe\<close> of the window maps the page frame of \<open>p\<close>, uncached.\<close>

definition mapped_at :: "kmap_state \<Rightarrow> nat \<Rightarrow> u32 \<Rightarrow> bool" where
  "mapped_at km pe p \<longleftrightarrow> km_tables km pe = create_table_entry p (APIC_PAGE_FLAGS OR PTE_PRESENT)"

text \<open>The parts of the state that the walks over the MADT leave alone.\<close>

definition same_devices :: "apic \<Rightarrow> apic \<Rightarrow> bool" where
  "same_devices st st' \<longleftrightarrow> ap_regs st' = ap_regs st \<and> ap_local_regs st' = ap_local_regs st"

lemma io_apic_add_high:
  assumes "ap_io_apic_size st < 32" and "high_paddr p"
  shows "\<exists>st'. io_apic_add p g st = Inr st' \<and> same_devices st st' \<and> ap_isa_irq st' = ap_isa_irq st \<and>
    ap_local_apic st' = ap_local_apic st \<and> ap_local_apic_count st' = ap_local_apic_count st \<and>
    ap_io_apic_size st' = ap_io_apic_size st + 1 \<and>
    ap_io_apic st' = (ap_io_apic st)(ap_io_apic_size st := \<lparr>ia_iospace = kmap_addr (km_top (ap_kmap st)), ia_gsi = g,
      ia_irqs = 1 + (drop_bit 16 (ap_regs st (kmap_addr (km_top (ap_kmap st))) 1) AND 0xFF),
      ia_id = drop_bit 24 (ap_regs st (kmap_addr (km_top (ap_kmap st))) 0) AND 0x0F\<rparr>) \<and>
    ap_kmap st' = snd (kmap p APIC_PAGE_FLAGS (ap_kmap st))"
  using assms(1) kmap_high [OF assms(2) [unfolded high_paddr_def]]
  by (simp add: io_apic_add_def assert_that_def IO_APIC_MAX_COUNT_def io_apic_irqs_def io_apic_id_def io_apic_access
      IO_APIC_VER_REG_def IO_APIC_ID_REG_def IO_APIC_PAGE_FLAGS_def same_devices_def Let_def)

text \<open>
  \<open>apics_from st st' es\<close>: \<open>st'\<close> is \<open>st\<close> with the I/O APICs of the entries \<open>es\<close> registered and their
  registers mapped, one after the other.
\<close>

definition apics_from :: "memory \<Rightarrow> u32 list \<Rightarrow> apic \<Rightarrow> apic \<Rightarrow> bool" where
  "apics_from m es st st' \<longleftrightarrow> same_devices st st' \<and> ap_isa_irq st' = ap_isa_irq st \<and>
     ap_local_apic st' = ap_local_apic st \<and> ap_local_apic_count st' = ap_local_apic_count st \<and>
     ap_io_apic_size st' = ap_io_apic_size st + length es \<and>
     apics_of st' = apics_of st @ io_apics_of m (ap_regs st) (km_top (ap_kmap st)) es \<and>
     kmap_inv (ap_kmap st') \<and> km_top (ap_kmap st') = km_top (ap_kmap st) + length es \<and>
     (\<forall>i < km_top (ap_kmap st). km_tables (ap_kmap st') i = km_tables (ap_kmap st) i) \<and>
     (\<forall>i < length es. mapped_at (ap_kmap st') (km_top (ap_kmap st) + i) (io_apic_paddr m (es ! i)))"

lemma io_apics_added:
  assumes "kmap_inv (ap_kmap st)" and "km_top (ap_kmap st) + length es \<le> kmap_base + 0x8000"
    and "\<forall>h \<in> set es. high_paddr (io_apic_paddr m h)" and "ap_io_apic_size st + length es \<le> 32"
  shows "\<exists>st'. handle_all (acpi_handle_io_apic m) es st = Inr st' \<and> apics_from m es st st'"
  using assms
proof (induction es rule: rev_induct)
  case Nil
  then show ?case by (simp add: apics_from_def same_devices_def apics_of_def)
next
  case (snoc e es)
  then obtain st1 where st1: "handle_all (acpi_handle_io_apic m) es st = Inr st1" "apics_from m es st st1" by auto
  have size: "ap_io_apic_size st1 < 32" and hi: "high_paddr (io_apic_paddr m e)"
    using snoc.prems st1(2) by (auto simp: apics_from_def)
  from io_apic_add_high [OF this, of "io_apic_gsi_base m e"] obtain st' where
    st': "io_apic_add (io_apic_paddr m e) (io_apic_gsi_base m e) st1 = Inr st'" "same_devices st1 st'"
      "ap_isa_irq st' = ap_isa_irq st1" "ap_local_apic st' = ap_local_apic st1"
      "ap_local_apic_count st' = ap_local_apic_count st1" "ap_io_apic_size st' = ap_io_apic_size st1 + 1"
      "ap_io_apic st' = (ap_io_apic st1)(ap_io_apic_size st1 := io_apic_of m (ap_regs st1) (km_top (ap_kmap st1)) e)"
      "ap_kmap st' = snd (kmap (io_apic_paddr m e) APIC_PAGE_FLAGS (ap_kmap st1))"
    unfolding io_apic_of_def by blast
  have top: "km_top (ap_kmap st1) < kmap_base + 0x8000" and inv: "kmap_inv (ap_kmap st1)"
    using snoc.prems(2) st1(2) by (auto simp: apics_from_def)
  have "handle_all (acpi_handle_io_apic m) (es @ [e]) st = Inr st'"
    using st1(1) st'(1) size by (simp add: handle_all_append acpi_handle_io_apic_def IO_APIC_MAX_COUNT_def)
  moreover have "kmap_inv (ap_kmap st')"
    unfolding st'(8)
    by (rule kmap_high_inv(1) [OF inv top hi [unfolded high_paddr_def]]) (rule prod.collapse [symmetric])
  ultimately show ?case using st1(2) st' kmap_high [OF hi [unfolded high_paddr_def], of APIC_PAGE_FLAGS "ap_kmap st1"]
    by (auto simp: apics_from_def same_devices_def nth_append mapped_at_def less_Suc_eq apics_of_def)
qed

lemma io_apics_full:
  "ap_io_apic_size st = 32 \<Longrightarrow> handle_all (acpi_handle_io_apic m) es st = Inr st"
  by (induction es) (simp_all add: acpi_handle_io_apic_def IO_APIC_MAX_COUNT_def)

text \<open>Entries behind the 32nd are left out.\<close>

lemma io_apics_registered:
  assumes "ap_io_apic_size st = 0" and "kmap_inv (ap_kmap st)"
    and "km_top (ap_kmap st) + length (take 32 es) \<le> kmap_base + 0x8000"
    and "\<forall>h \<in> set (take 32 es). high_paddr (io_apic_paddr m h)"
  shows "\<exists>st'. handle_all (acpi_handle_io_apic m) es st = Inr st' \<and> apics_from m (take 32 es) st st'"
proof -
  from io_apics_added [OF assms(2,3,4)] assms(1) obtain st' where
    st': "handle_all (acpi_handle_io_apic m) (take 32 es) st = Inr st'" "apics_from m (take 32 es) st st'" by auto
  have "handle_all (acpi_handle_io_apic m) (drop 32 es) st' = Inr st'"
  proof (cases "length es \<le> 32")
    case False
    then have "ap_io_apic_size st' = 32" using st'(2) assms(1) by (simp add: apics_from_def)
    then show ?thesis by (rule io_apics_full)
  qed simp
  with st' handle_all_append [of "acpi_handle_io_apic m" "take 32 es" "drop 32 es" st] show ?thesis by auto
qed

subsection \<open>The ISA interrupts\<close>

definition serves :: "io_apic \<Rightarrow> u32 \<Rightarrow> bool" where
  "serves a g \<longleftrightarrow> ia_gsi a \<le> g \<and> g < ia_gsi a + ia_irqs a"

definition server :: "io_apic list \<Rightarrow> u32 \<Rightarrow> nat option" where
  "server as g = find (\<lambda>i. serves (as ! i) g) [0..<length as]"

lemma find_loop_first:
  "find_loop g i st = (case find (\<lambda>i. serves (ap_io_apic st i) g) [i..<ap_io_apic_size st] of
     None \<Rightarrow> Inl (Panic ''Cannot find IOAPIC for gsi'') | Some a \<Rightarrow> Inr a)"
proof (induction g i st rule: find_loop.induct)
  case (1 g i st)
  then show ?case
    by (subst find_loop.simps) (auto simp: Let_def serves_def upt_conv_Cons)
qed

lemma io_apic_find_server:
  "io_apic_find g st = (case server (apics_of st) g of
     None \<Rightarrow> Inl (Panic ''Cannot find IOAPIC for gsi'') | Some a \<Rightarrow> Inr a)"
proof -
  have "find (\<lambda>i. serves (ap_io_apic st i) g) [0..<ap_io_apic_size st] = server (apics_of st) g"
    unfolding server_def by (rule find_cong) (simp_all add: apics_of_def)
  then show ?thesis by (simp add: io_apic_find_def find_loop_first)
qed

lemma server_SomeD:
  assumes "server as g = Some a"
  shows "a < length as" "serves (as ! a) g" "\<forall>i < a. \<not> serves (as ! i) g"
  using assms by (auto simp: server_def find_Some_iff)

text \<open>The entry of the table \<open>isa_irq\<close> that a configuration leads to.\<close>

definition routed :: "io_apic list \<Rightarrow> isa_irq_cfg \<Rightarrow> isa_irq_map" where
  "routed as c = \<lparr>im_io_apic = server as (cfg_gsi c), im_flags = cfg_flags c, im_gsi = cfg_gsi c,
     im_pin = cfg_gsi c - ia_gsi (as ! the (server as (cfg_gsi c)))\<rparr>"

definition routable :: "io_apic list \<Rightarrow> isa_irq_cfg \<Rightarrow> bool" where
  "routable as c \<longleftrightarrow> cfg_isa c < 16 \<and> server as (cfg_gsi c) \<noteq> None"

lemma setup_isa_routes:
  "routable (apics_of st) c \<Longrightarrow> io_apic_setup_isa c st =
    Inr (st\<lparr>ap_isa_irq := (ap_isa_irq st)(unat (cfg_isa c) := routed (apics_of st) c)\<rparr>)"
  "\<not> routable (apics_of st) c \<Longrightarrow> \<exists>msg. io_apic_setup_isa c st = Inl (Panic msg)"
  using server_SomeD(1) [of "apics_of st" "cfg_gsi c"]
  by (auto simp: routable_def routed_def io_apic_setup_isa_def io_apic_find_server assert_that_def ISA_IRQ_COUNT_def)
    (simp add: apics_of_def)

lemma apics_of_update [simp]: "apics_of (st\<lparr>ap_isa_irq := f\<rparr>) = apics_of st"
  by (simp add: apics_of_def)

text \<open>In a list of configurations the last one for an interrupt counts.\<close>

definition last_for :: "nat \<Rightarrow> isa_irq_cfg list \<Rightarrow> isa_irq_cfg option" where
  "last_for j cs = find (\<lambda>c. unat (cfg_isa c) = j) (rev cs)"

lemma last_for_append:
  "last_for j (cs @ ds) = (case last_for j ds of None \<Rightarrow> last_for j cs | Some c \<Rightarrow> Some c)"
  "last_for j (cs @ [c]) = (if unat (cfg_isa c) = j then Some c else last_for j cs)"
  by (simp_all add: last_for_def find_append split: option.split)

lemma setup_all_routes:
  assumes "\<forall>c \<in> set cs. routable (apics_of st) c"
  shows "\<exists>f. handle_all io_apic_setup_isa cs st = Inr (st\<lparr>ap_isa_irq := f\<rparr>) \<and>
    (\<forall>j. f j = (case last_for j cs of None \<Rightarrow> ap_isa_irq st j | Some c \<Rightarrow> routed (apics_of st) c))"
  using assms
proof (induction cs rule: rev_induct)
  case (snoc c cs)
  then obtain f where f: "handle_all io_apic_setup_isa cs st = Inr (st\<lparr>ap_isa_irq := f\<rparr>)"
    "\<forall>j. f j = (case last_for j cs of None \<Rightarrow> ap_isa_irq st j | Some c \<Rightarrow> routed (apics_of st) c)" by auto
  let ?st = "st\<lparr>ap_isa_irq := f\<rparr>"
  have "io_apic_setup_isa c ?st = Inr (st\<lparr>ap_isa_irq := f(unat (cfg_isa c) := routed (apics_of st) c)\<rparr>)"
    using setup_isa_routes(1) [of ?st c] snoc.prems by simp
  with f(1) have "handle_all io_apic_setup_isa (cs @ [c]) st =
      Inr (st\<lparr>ap_isa_irq := f(unat (cfg_isa c) := routed (apics_of st) c)\<rparr>)" by (simp add: handle_all_append)
  moreover have "(f(unat (cfg_isa c) := routed (apics_of st) c)) j = (case last_for j (cs @ [c]) of
      None \<Rightarrow> ap_isa_irq st j | Some c \<Rightarrow> routed (apics_of st) c)" for j by (simp add: last_for_append(2) f(2))
  ultimately show ?case by blast
next
  case Nil
  show ?case by (rule exI [of _ "ap_isa_irq st"]) (simp add: last_for_def)
qed

lemma setup_all_fails:
  assumes "\<exists>c \<in> set cs. \<not> routable (apics_of st) c"
  shows "\<exists>msg. handle_all io_apic_setup_isa cs st = Inl (Panic msg)"
  using assms
proof (induction cs arbitrary: st)
  case (Cons c cs)
  show ?case
  proof (cases "routable (apics_of st) c")
    case False
    then show ?thesis using setup_isa_routes(2) [of st c] by auto
  next
    case True
    let ?st = "st\<lparr>ap_isa_irq := (ap_isa_irq st)(unat (cfg_isa c) := routed (apics_of st) c)\<rparr>"
    have "\<exists>d \<in> set cs. \<not> routable (apics_of ?st) d" using Cons.prems True by auto
    from Cons.IH [OF this] show ?thesis using setup_isa_routes(1) [OF True] by simp
  qed
qed simp

text \<open>The defaults of the code, and the overrides of the MADT.\<close>

definition isa_default :: "nat \<Rightarrow> isa_irq_cfg" where
  "isa_default j = \<lparr>cfg_flags = of_nat j, cfg_isa = of_nat j, cfg_gsi = 1\<rparr>"

definition isa_override :: "memory \<Rightarrow> u32 \<Rightarrow> isa_irq_cfg option" where
  "isa_override m h = isa_source_cfg (ucast (isa_source_source m h)) (ucast (isa_source_gsi m h))
     (ucast (isa_source_flags m h))"

definition isa_overrides :: "memory \<Rightarrow> u32 list \<Rightarrow> isa_irq_cfg list" where
  "isa_overrides m hs = List.map_filter (isa_override m) (filter (of_type m MADT_ISA_SOURCE) hs)"

lemma isa_defaults_list:
  "isa_defaults_loop (of_nat k) n = handle_all io_apic_setup_isa (map isa_default [k..<k + n])"
proof (induction n arbitrary: k)
  case (Suc n)
  have up: "[k..<k + Suc n] = k # [Suc k..<Suc k + n]" by (simp add: upt_conv_Cons del: upt_Suc)
  have d: "\<lparr>cfg_flags = of_nat k, cfg_isa = of_nat k, cfg_gsi = HWIRQ_RISING\<rparr> = isa_default k"
    by (simp add: isa_default_def HWIRQ_RISING_def)
  show ?case unfolding up fun_eq_iff isa_defaults_loop.simps d using Suc.IH [of "Suc k"]
    by (simp add: add.commute del: upt_Suc)
qed (simp add: fun_eq_iff)

lemma handle_overrides_list:
  "handle_all (acpi_handle_isa_source m) es = handle_all io_apic_setup_isa (List.map_filter (isa_override m) es)"
  by (induction es)
    (auto simp: fun_eq_iff map_filter_def acpi_handle_isa_source_def isa_override_def bind_outcome_def
      split: option.splits sum.splits)

text \<open>What becomes of an ISA interrupt: its last override, or the default.\<close>

definition isa_choice :: "memory \<Rightarrow> u32 list \<Rightarrow> nat \<Rightarrow> isa_irq_cfg" where
  "isa_choice m hs j = (case last_for j (isa_overrides m hs) of None \<Rightarrow> isa_default j | Some c \<Rightarrow> c)"

lemma last_for_defaults:
  assumes "j < 16"
  shows "last_for j (map isa_default [0..<16]) = Some (isa_default j)"
proof -
  have *: "unat (cfg_isa (isa_default i)) = j \<longleftrightarrow> i = j" if "i < 16" for i
    using that assms by (simp add: isa_default_def unat_of_nat take_bit_nat_eq_self)
  have r: "rev (map isa_default [0..<16]) ! k = isa_default (15 - k)" if "k < 16" for k
    using that by (simp add: rev_nth del: upt_Suc)
  have "find (\<lambda>c. unat (cfg_isa c) = j) (rev (map isa_default [0..<16])) = Some (isa_default j)"
    unfolding find_Some_iff
  proof (intro exI [of _ "15 - j"] conjI allI impI)
    fix k assume "k < 15 - j"
    then show "unat (cfg_isa (rev (map isa_default [0..<16]) ! k)) \<noteq> j" using r [of k] * [of "15 - k"] by simp
  qed (use assms r [of "15 - j"] * [of j] in simp_all)
  then show ?thesis by (simp add: last_for_def)
qed

lemma isa_setup_result:
  fixes m hs
  defines "cs \<equiv> map isa_default [0..<16] @ isa_overrides m hs"
  assumes "\<forall>c \<in> set cs. routable (apics_of st) c"
  shows "\<exists>f. handle_all io_apic_setup_isa cs st = Inr (st\<lparr>ap_isa_irq := f\<rparr>) \<and>
    (\<forall>j < 16. f j = routed (apics_of st) (isa_choice m hs j))"
proof -
  from setup_all_routes [OF assms(2)] obtain f where f: "handle_all io_apic_setup_isa cs st = Inr (st\<lparr>ap_isa_irq := f\<rparr>)"
    "\<forall>j. f j = (case last_for j cs of None \<Rightarrow> ap_isa_irq st j | Some c \<Rightarrow> routed (apics_of st) c)" by blast
  have "f j = routed (apics_of st) (isa_choice m hs j)" if "j < 16" for j
    using f(2) [rule_format, of j]
    by (simp add: cs_def last_for_append last_for_defaults [OF that] isa_choice_def split: option.splits)
  with f(1) show ?thesis by blast
qed

subsection \<open>The set-up\<close>

text \<open>The MADT is found, and its entries are those at the addresses \<open>hs\<close>.\<close>

definition madt_entries :: "memory \<Rightarrow> u32 \<Rightarrow> acpi \<Rightarrow> u32 \<Rightarrow> u32 list \<Rightarrow> bool" where
  "madt_entries m sign ac tbl hs \<longleftrightarrow> acpi_available ac \<and> acpi_table_find m sign ac = Inr tbl \<and> tbl \<noteq> 0 \<and>
     entries_at m (tbl + SIZEOF_MADT) (tbl + table_length m tbl) hs"

lemma parse_madt_entries:
  "madt_entries m sign ac tbl hs \<Longrightarrow> acpi_parse_madt m sign type handler ac s =
    Some (bind_outcome (handle_all handler (filter (of_type m type) hs) s)
      (\<lambda>s1. Inr (of_nat (length (filter (of_type m type) hs)), s1)))"
  by (auto simp: madt_entries_def acpi_parse_madt_def madt_loop_entries [where count = 0, simplified])

lemma isa_defaults_all:
  "io_apic_isa_defaults st = handle_all io_apic_setup_isa (map isa_default [0..<16]) st"
proof -
  have "unat ISA_IRQ_COUNT = 16" by (simp add: ISA_IRQ_COUNT_def)
  then show ?thesis using isa_defaults_list [of 0 16] by (simp add: io_apic_isa_defaults_def del: upt_Suc)
qed

definition isa_cfgs :: "memory \<Rightarrow> u32 list \<Rightarrow> isa_irq_cfg list" where
  "isa_cfgs m hs = map isa_default [0..<16] @ isa_overrides m hs"

text \<open>The room and the addresses that the set-up needs.\<close>

definition apic_ready :: "memory \<Rightarrow> u32 \<Rightarrow> u32 list \<Rightarrow> apic \<Rightarrow> bool" where
  "apic_ready m tbl hs st \<longleftrightarrow> ap_io_apic_size st = 0 \<and> ap_local_apic_count st = 0 \<and> kmap_inv (ap_kmap st) \<and>
     km_top (ap_kmap st) + 33 \<le> kmap_base + 0x8000 \<and> high_paddr (madt_lapic_paddr m tbl) \<and>
     (\<forall>h \<in> set (take 32 (filter (of_type m MADT_IO_APIC) hs)). high_paddr (io_apic_paddr m h))"

lemma setup_io_apic_acpi_result:
  assumes "madt_entries m sign ac tbl hs" and "apic_ready m tbl hs st"
  shows "\<exists>st1. apics_from m (take 32 (filter (of_type m MADT_IO_APIC) hs)) st st1 \<and>
    setup_io_apic_acpi m sign ac st = Some (handle_all io_apic_setup_isa (isa_cfgs m hs) st1)"
proof -
  let ?es = "filter (of_type m MADT_IO_APIC) hs"
  have "km_top (ap_kmap st) + length (take 32 ?es) \<le> kmap_base + 0x8000"
    using assms(2) by (auto simp: apic_ready_def)
  with io_apics_registered [of st ?es m] assms(2) obtain st1 where
    st1: "handle_all (acpi_handle_io_apic m) ?es st = Inr st1" "apics_from m (take 32 ?es) st st1"
    by (auto simp: apic_ready_def)
  have "setup_io_apic_acpi m sign ac st = Some (bind_outcome (io_apic_isa_defaults st1)
      (handle_all (acpi_handle_isa_source m) (filter (of_type m MADT_ISA_SOURCE) hs)))"
    unfolding setup_io_apic_acpi_def parse_madt_entries [OF assms(1)] st1(1)
    by (auto simp: bind_outcome_def split: sum.split)
  also have "\<dots> = Some (handle_all io_apic_setup_isa (isa_cfgs m hs) st1)"
    by (simp only: isa_defaults_all handle_overrides_list isa_cfgs_def isa_overrides_def handle_all_append)
  finally show ?thesis using st1(2) by blast
qed

lemma local_apics_added:
  assumes "ap_local_apic_count st + length es \<le> 32"
  shows "\<exists>f. handle_all (acpi_handle_local_apic m) es st =
      Inr (st\<lparr>ap_local_apic := f, ap_local_apic_count := ap_local_apic_count st + length es\<rparr>) \<and>
    (\<forall>i < ap_local_apic_count st. f i = ap_local_apic st i) \<and>
    (\<forall>i < length es. f (ap_local_apic_count st + i) = ucast (local_apic_id m (es ! i)))"
  using assms
proof (induction es rule: rev_induct)
  case Nil
  show ?case by (rule exI [of _ "ap_local_apic st"]) simp
next
  case (snoc e es)
  then obtain f where f: "handle_all (acpi_handle_local_apic m) es st =
      Inr (st\<lparr>ap_local_apic := f, ap_local_apic_count := ap_local_apic_count st + length es\<rparr>)"
    "\<forall>i < ap_local_apic_count st. f i = ap_local_apic st i"
    "\<forall>i < length es. f (ap_local_apic_count st + i) = ucast (local_apic_id m (es ! i))" by auto
  let ?f = "f(ap_local_apic_count st + length es := ucast (local_apic_id m e))"
  have "handle_all (acpi_handle_local_apic m) (es @ [e]) st =
      Inr (st\<lparr>ap_local_apic := ?f, ap_local_apic_count := ap_local_apic_count st + length (es @ [e])\<rparr>)"
    using snoc.prems by (simp add: handle_all_append f(1) acpi_handle_local_apic_def LOCAL_APIC_MAX_COUNT_def)
  then show ?case by (rule exI [of _ ?f, OF conjI]) (use f(2,3) in \<open>auto simp: nth_append less_Suc_eq\<close>)
qed

lemma local_apics_full:
  "ap_local_apic_count st = 32 \<Longrightarrow> handle_all (acpi_handle_local_apic m) es st = Inr st"
  by (induction es) (simp_all add: acpi_handle_local_apic_def LOCAL_APIC_MAX_COUNT_def)

definition local_ids :: "memory \<Rightarrow> u32 list \<Rightarrow> u32 list" where
  "local_ids m hs = map (\<lambda>h. ucast (local_apic_id m h)) (take 32 (filter (of_type m MADT_LOCAL_APIC) hs))"

definition local_apics_of :: "apic \<Rightarrow> u32 list" where
  "local_apics_of st = map (ap_local_apic st) [0..<ap_local_apic_count st]"

lemma local_apics_registered:
  assumes "ap_local_apic_count st = 0"
  shows "\<exists>f n. handle_all (acpi_handle_local_apic m) (filter (of_type m MADT_LOCAL_APIC) hs) st =
      Inr (st\<lparr>ap_local_apic := f, ap_local_apic_count := n\<rparr>) \<and> map f [0..<n] = local_ids m hs"
proof -
  let ?es = "filter (of_type m MADT_LOCAL_APIC) hs"
  from local_apics_added [of st "take 32 ?es" m] assms obtain f where
    f: "handle_all (acpi_handle_local_apic m) (take 32 ?es) st =
      Inr (st\<lparr>ap_local_apic := f, ap_local_apic_count := length (take 32 ?es)\<rparr>)"
    "\<forall>i < length (take 32 ?es). f i = ucast (local_apic_id m (take 32 ?es ! i))" by auto
  have "handle_all (acpi_handle_local_apic m) (take 32 ?es @ drop 32 ?es) st =
      Inr (st\<lparr>ap_local_apic := f, ap_local_apic_count := length (take 32 ?es)\<rparr>)"
  proof (cases "length ?es \<le> 32")
    case False
    then show ?thesis by (simp only: handle_all_append f(1) bind_outcome_simps) (rule local_apics_full, simp)
  next
    case True
    with f(1) show ?thesis by simp
  qed
  moreover have "map f [0..<length (take 32 ?es)] = local_ids m hs"
    using f(2) by (intro nth_equalityI) (simp_all add: local_ids_def)
  ultimately show ?thesis by auto
qed

lemma setup_local_apic_acpi_result:
  assumes "madt_entries m sign ac tbl hs" and "ap_local_apic_count st = 0"
    and "high_paddr (madt_lapic_paddr m tbl)"
  shows "\<exists>st'. setup_local_apic_acpi m sign ac st = Some (Inr st') \<and> same_devices st st' \<and>
    ap_io_apic st' = ap_io_apic st \<and> ap_io_apic_size st' = ap_io_apic_size st \<and> ap_isa_irq st' = ap_isa_irq st \<and>
    local_apics_of st' = local_ids m hs \<and> ap_local_apic_iospace st' = kmap_addr (km_top (ap_kmap st)) \<and>
    ap_kmap st' = snd (kmap (madt_lapic_paddr m tbl) APIC_PAGE_FLAGS (ap_kmap st))"
proof -
  from local_apics_registered [OF assms(2), of m hs] obtain f n where
    f: "handle_all (acpi_handle_local_apic m) (filter (of_type m MADT_LOCAL_APIC) hs) st =
      Inr (st\<lparr>ap_local_apic := f, ap_local_apic_count := n\<rparr>)" "map f [0..<n] = local_ids m hs" by blast
  have t: "acpi_table_find m sign ac = Inr tbl" using assms(1) by (simp add: madt_entries_def)
  show ?thesis
    unfolding setup_local_apic_acpi_def t parse_madt_entries [OF assms(1)] f(1)
    using f(2) kmap_high [OF assms(3) [unfolded high_paddr_def], of APIC_PAGE_FLAGS "ap_kmap st"]
    by (simp add: LOCAL_APIC_PAGE_FLAGS_def same_devices_def local_apics_of_def)
qed

lemma isa_lines:
  assumes "apics_of st = as" and "\<forall>j < 16. ap_isa_irq st j = routed as (f j)" and "\<forall>j < 16. routable as (f j)"
    and "irq < 16"
  shows "apic_line st irq = Some (ia_iospace (as ! the (server as (cfg_gsi (f (unat irq))))),
    (0x10 + 2 * (cfg_gsi (f (unat irq)) - ia_gsi (as ! the (server as (cfg_gsi (f (unat irq))))))) AND 0xFF)"
proof -
  have j: "unat irq < 16" using assms(4) by (simp add: word_less_nat_alt)
  with assms(3) obtain a where a: "server as (cfg_gsi (f (unat irq))) = Some a" by (auto simp: routable_def)
  have "a < ap_io_apic_size st" using server_SomeD(1) [OF a] assms(1) by (auto simp: apics_of_def)
  then have "ap_io_apic st a = as ! a" using assms(1) by (auto simp: apics_of_def)
  then show ?thesis using assms(2,4) j a
    by (simp add: apic_line_def apic_resolve_def ISA_IRQ_COUNT_def routed_def IO_APIC_REDTBL_REG_def)
qed

lemma isa_choice_routable:
  assumes "\<forall>c \<in> set (isa_cfgs m hs). routable as c" and "j < 16"
  shows "routable as (isa_choice m hs j)"
proof (cases "last_for j (isa_overrides m hs)")
  case None
  then show ?thesis using assms by (simp add: isa_choice_def isa_cfgs_def)
next
  case (Some c)
  then have "c \<in> set (isa_overrides m hs)" by (auto simp: last_for_def find_Some_iff) (metis length_rev nth_mem set_rev)
  with Some show ?thesis using assms(1) by (simp add: isa_choice_def isa_cfgs_def)
qed

text \<open>\<open>setup_local_apic\<close> looks for the number of the running processor among those registered.\<close>

lemma local_apic_loop_first:
  "local_apic_loop pid i st = (case find (\<lambda>i. ap_local_apic st i = pid) [i..<ap_local_apic_count st] of
     None \<Rightarrow> Inl (Panic ''Cannot find Local APIC'')
   | Some k \<Rightarrow> Inr (st\<lparr>ap_local_regs := (ap_local_regs st)(0x34 := push_bit 24 (BITU (k mod 8)), 0x3C := 0x1FF)\<rparr>))"
proof (induction pid i st rule: local_apic_loop.induct)
  case (1 pid i st)
  have b: "SPURIOUS_INTERRUPT_VECTOR OR BITU 8 = 0x1FF"
    by (simp add: SPURIOUS_INTERRUPT_VECTOR_def BITU_def)
  from 1 show ?case
    by (subst local_apic_loop.simps)
      (auto simp: Let_def local_apic_write_def upt_conv_Cons b LOCAL_APIC_LD_REG_def LOCAL_APIC_SI_REG_def)
qed

definition own_index :: "apic \<Rightarrow> nat option" where
  "own_index st = find (\<lambda>i. local_apics_of st ! i = drop_bit 24 (ap_local_regs st 8)) [0..<length (local_apics_of st)]"

lemma setup_local_apic_result:
  "setup_local_apic st = (case own_index st of
     None \<Rightarrow> Inl (Panic ''Cannot find Local APIC'')
   | Some k \<Rightarrow> Inr (st\<lparr>ap_local_regs := (ap_local_regs st)(0x34 := push_bit 24 (BITU (k mod 8)), 0x3C := 0x1FF)\<rparr>))"
proof -
  have "find (\<lambda>i. ap_local_apic st i = drop_bit 24 (ap_local_regs st 8)) [0..<ap_local_apic_count st] = own_index st"
    unfolding own_index_def by (rule find_cong) (simp_all add: local_apics_of_def)
  then show ?thesis
    by (simp add: setup_local_apic_def local_apic_loop_first local_apic_pid_def local_apic_read_def LOCAL_APIC_ID_REG_def)
qed

lemma setup_apic_result:
  assumes "madt_entries m sign ac tbl hs" and "apic_ready m tbl hs st"
    and "ios = take 32 (filter (of_type m MADT_IO_APIC) hs)" and "pe = km_top (ap_kmap st)"
    and "as = io_apics_of m (ap_regs st) pe ios"
  shows "if \<forall>c \<in> set (isa_cfgs m hs). routable as c
    then \<exists>st'. setup_apic m sign ac (chip, st) = Some (Inr (Some apic_chip, st')) \<and> apics_of st' = as \<and>
      (\<forall>j < 16. ap_isa_irq st' j = routed as (isa_choice m hs j)) \<and>
      local_apics_of st' = local_ids m hs \<and> same_devices st st' \<and> kmap_inv (ap_kmap st') \<and>
      ap_local_apic_iospace st' = kmap_addr (pe + length ios) \<and>
      mapped_at (ap_kmap st') (pe + length ios) (madt_lapic_paddr m tbl) \<and>
      (\<forall>i < length ios. mapped_at (ap_kmap st') (pe + i) (io_apic_paddr m (ios ! i)))
    else \<exists>msg. setup_apic m sign ac (chip, st) = Some (Inl (Panic msg))"
proof -
  from setup_io_apic_acpi_result [OF assms(1,2)] obtain st1 where
    st1: "apics_from m ios st st1" "setup_io_apic_acpi m sign ac st = Some (handle_all io_apic_setup_isa (isa_cfgs m hs) st1)"
    unfolding assms(3) by blast
  have "apics_of st = []" using assms(2) by (simp add: apic_ready_def apics_of_def)
  then have as: "apics_of st1 = as" using st1(1) assms(4,5) by (simp add: apics_from_def)
  show ?thesis
  proof (cases "\<forall>c \<in> set (isa_cfgs m hs). routable as c")
    case False
    then have "\<exists>c \<in> set (isa_cfgs m hs). \<not> routable (apics_of st1) c" by (simp add: as)
    from setup_all_fails [OF this] obtain msg where "handle_all io_apic_setup_isa (isa_cfgs m hs) st1 = Inl (Panic msg)"
      by blast
    with False show ?thesis by (simp add: setup_apic_def st1(2))
  next
    case True
    then have "\<forall>c \<in> set (isa_cfgs m hs). routable (apics_of st1) c" by (simp add: as)
    from isa_setup_result [of m hs st1, folded isa_cfgs_def, OF this] obtain f where
      f: "handle_all io_apic_setup_isa (isa_cfgs m hs) st1 = Inr (st1\<lparr>ap_isa_irq := f\<rparr>)"
        "\<forall>j < 16. f j = routed as (isa_choice m hs j)" unfolding as by blast
    let ?st2 = "st1\<lparr>ap_isa_irq := f\<rparr>"
    have c: "ap_local_apic_count ?st2 = 0" and hi: "high_paddr (madt_lapic_paddr m tbl)"
      using st1(1) assms(2) by (simp_all add: apics_from_def apic_ready_def)
    from setup_local_apic_acpi_result [OF assms(1) c hi] obtain st' where
      st': "setup_local_apic_acpi m sign ac ?st2 = Some (Inr st')" "same_devices ?st2 st'"
        "ap_io_apic st' = ap_io_apic ?st2" "ap_io_apic_size st' = ap_io_apic_size ?st2" "ap_isa_irq st' = f"
        "local_apics_of st' = local_ids m hs" "ap_local_apic_iospace st' = kmap_addr (km_top (ap_kmap ?st2))"
        "ap_kmap st' = snd (kmap (madt_lapic_paddr m tbl) APIC_PAGE_FLAGS (ap_kmap ?st2))" by auto
    have run: "setup_apic m sign ac (chip, st) = Some (Inr (Some apic_chip, st'))"
      by (simp add: setup_apic_def st1(2) f(1) st'(1) irqchip_register_def)
    have top: "km_top (ap_kmap st1) = pe + length ios" "kmap_inv (ap_kmap st1)"
      "\<forall>i < length ios. mapped_at (ap_kmap st1) (pe + i) (io_apic_paddr m (ios ! i))"
      using st1(1) assms(4) by (simp_all add: apics_from_def)
    have room: "km_top (ap_kmap st1) < kmap_base + 0x8000"
      using assms(2,3,4) top(1) by (auto simp: apic_ready_def)
    have "kmap_inv (ap_kmap st')" unfolding st'(8)
      by (rule kmap_high_inv(1) [of "ap_kmap st1", OF top(2) room hi [unfolded high_paddr_def]])
        (simp, rule prod.collapse [symmetric])
    moreover have "apics_of st' = as" using as by (simp add: apics_of_def st'(3,4))
    moreover have "same_devices st st'" using st'(2) st1(1) by (simp add: same_devices_def apics_from_def)
    ultimately show ?thesis using True run f(2) st'(5-8) top
        kmap_high [OF hi [unfolded high_paddr_def], of APIC_PAGE_FLAGS "ap_kmap st1"]
      by (simp add: mapped_at_def)
  qed
qed

subsection \<open>Properties\<close>

text \<open>
  C33: \<open>setup_acpi\<close> always returns. It looks at the 64 paragraphs from the start of the extended BIOS
  data area (as the code computes it) and then at those of the BIOS area, takes the first that has the
  signature and finds the root table through it. When there is none, ACPI is not available.
\<close>

theorem setup_acpi_finds_root:
  assumes "unat sign + 8 < 2 ^ 32"
  shows "\<exists>st'. setup_acpi m sign st = Some st' \<and>
    (acpi_available st' \<longleftrightarrow> (\<exists>p \<in> set (root_places m). same_root_sign m sign p)) \<and>
    (acpi_available st' \<longrightarrow> (\<exists>k < length (root_places m). ac_rsdp st' = root_places m ! k \<and>
       same_root_sign m sign (ac_rsdp st') \<and> (\<forall>i < k. \<not> same_root_sign m sign (root_places m ! i)) \<and>
       ac_rsdt st' = virt_addr (rsdp_rsdt_paddr m (ac_rsdp st'))))"
proof (cases "find (same_root_sign m sign) (root_places m)")
  case None
  then have "setup_acpi m sign st = Some (st\<lparr>ac_rsdp := 0\<rparr>)" using setup_acpi_search(1) [OF assms] by simp
  moreover from None have "\<forall>p \<in> set (root_places m). \<not> same_root_sign m sign p" by (auto simp: find_None_iff)
  ultimately show ?thesis by (simp add: acpi_available_def)
next
  case (Some p)
  then have "setup_acpi m sign st = Some (st\<lparr>ac_rsdp := p, ac_rsdt := virt_addr (rsdp_rsdt_paddr m p)\<rparr>)"
    using setup_acpi_search(1) [OF assms] by simp
  moreover from Some have "p \<noteq> 0" by (rule setup_acpi_search(2) [OF assms])
  moreover from Some have k: "\<exists>k < length (root_places m). p = root_places m ! k \<and> same_root_sign m sign p \<and>
      (\<forall>i < k. \<not> same_root_sign m sign (root_places m ! i))" by (auto simp: find_Some_iff)
  moreover from k have "\<exists>p \<in> set (root_places m). same_root_sign m sign p" by (metis nth_mem)
  ultimately show ?thesis by (simp add: acpi_available_def)
qed

text \<open>The tables of the example behind a root pointer in the area of the BIOS; its signature is at \<open>0xC0009010\<close>.\<close>

definition root_sign :: "u32 \<Rightarrow> memory \<Rightarrow> memory" where
  "root_sign a m = m(a := 0x52, a + 1 := 0x53, a + 2 := 0x44, a + 3 := 0x20, a + 4 := 0x50, a + 5 := 0x54,
     a + 6 := 0x52, a + 7 := 0x20)"

definition sample_firmware :: memory where
  "sample_firmware = (root_sign 0xC0009010 (root_sign 0xC00F0000 sample_tables))(0xC00F0011 := 0x10)"

lemma sample_root: "same_root_sign sample_firmware 0xC0009010 0xC00F0000" "rsdp_rsdt_paddr sample_firmware 0xC00F0000 = 0x1000"
proof -
  have "list_all (\<lambda>i. sample_firmware (0xC0009010 + of_nat i) = sample_firmware (0xC00F0000 + of_nat i)) [0..<8]"
    by code_simp
  then show "same_root_sign sample_firmware 0xC0009010 0xC00F0000" by (simp add: same_root_sign_def list_all_iff)
  show "rsdp_rsdt_paddr sample_firmware 0xC00F0000 = 0x1000" by code_simp
qed

theorem setup_acpi_finds_root_witness:
  "\<exists>st'. setup_acpi sample_firmware 0xC0009010 \<lparr>ac_rsdp = 0, ac_rsdt = 0\<rparr> = Some st' \<and> acpi_available st'"
proof -
  have "0xC00F0000 = 0xC00E0000 + 16 * (of_nat 0x1000 :: u32)" by simp
  then have "0xC00F0000 \<in> set (root_places sample_firmware)"
    unfolding root_places_def paragraphs_def set_append set_map
    by (intro UnI2 image_eqI [where x = "0x1000"]) simp_all
  with sample_root(1) setup_acpi_finds_root [of "0xC0009010" sample_firmware "\<lparr>ac_rsdp = 0, ac_rsdt = 0\<rparr>"]
  show ?thesis by auto
qed

text \<open>
  C23: with a MADT whose entries follow each other, \<open>setup_apic\<close> returns or stops. It stops exactly when
  no I/O APIC serves the global interrupt 1, or an override names an interrupt from 16 on or a global
  interrupt that none serves. Otherwise the APIC takes over with: the first 32 I/O APICs of the table
  in order, each with its first interrupt, the size its version register gives, and its registers
  mapped in a window of its own; every ISA interrupt leads to the I/O APIC and the pin of its last
  override, or of the default (global interrupt 1 for all, with the number of the interrupt as flags);
  the first 32 local APICs; no register written. Then \<open>setup_local_apic\<close> enables the one of the running
  processor under its place modulo 8, or stops when it is not among them.
\<close>

theorem setup_apic_configures:
  assumes "madt_entries m sign ac tbl hs" and "apic_ready m tbl hs st"
    and "ios = take 32 (filter (of_type m MADT_IO_APIC) hs)" and "pe = km_top (ap_kmap st)"
    and "as = io_apics_of m (ap_regs st) pe ios"
  shows "if server as 1 \<noteq> None \<and> (\<forall>c \<in> set (isa_overrides m hs). cfg_isa c < 16 \<and> server as (cfg_gsi c) \<noteq> None)
    then \<exists>st'. setup_apic m sign ac (chip, st) = Some (Inr (Some apic_chip, st')) \<and> apics_of st' = as \<and>
      (\<forall>j < 16. ap_isa_irq st' j = routed as (isa_choice m hs j)) \<and> (\<forall>irq < 16. apic_line st' irq \<noteq> None) \<and>
      (\<forall>i < length ios. mapped_at (ap_kmap st') (pe + i) (io_apic_paddr m (ios ! i))) \<and>
      mapped_at (ap_kmap st') (pe + length ios) (madt_lapic_paddr m tbl) \<and>
      local_apics_of st' = local_ids m hs \<and> ap_regs st' = ap_regs st \<and> ap_local_regs st' = ap_local_regs st \<and>
      setup_local_apic st' = (case find (\<lambda>i. local_ids m hs ! i = drop_bit 24 (ap_local_regs st 8)) [0..<length (local_ids m hs)] of
          None \<Rightarrow> Inl (Panic ''Cannot find Local APIC'')
        | Some k \<Rightarrow> Inr (st'\<lparr>ap_local_regs := (ap_local_regs st)(0x34 := push_bit 24 (BITU (k mod 8)), 0x3C := 0x1FF)\<rparr>))
    else \<exists>msg. setup_apic m sign ac (chip, st) = Some (Inl (Panic msg))"
proof -
  have d: "routable as (isa_default j) \<longleftrightarrow> server as 1 \<noteq> None" if "j < 16" for j
    using that by (simp add: routable_def isa_default_def word_less_nat_alt unat_of_nat take_bit_nat_eq_self)
  have ok: "(\<forall>c \<in> set (isa_cfgs m hs). routable as c) \<longleftrightarrow>
      server as 1 \<noteq> None \<and> (\<forall>c \<in> set (isa_overrides m hs). cfg_isa c < 16 \<and> server as (cfg_gsi c) \<noteq> None)"
  proof -
    have "(\<forall>c \<in> set (map isa_default [0..<16]). routable as c) \<longleftrightarrow> (\<forall>j < 16. routable as (isa_default j))"
      by auto
    also have "\<dots> \<longleftrightarrow> (\<forall>j < (16 :: nat). server as 1 \<noteq> None)" using d by blast
    also have "\<dots> \<longleftrightarrow> server as 1 \<noteq> None" by (meson zero_less_numeral)
    finally have "(\<forall>c \<in> set (map isa_default [0..<16]). routable as c) \<longleftrightarrow> server as 1 \<noteq> None" .
    then show ?thesis by (simp only: isa_cfgs_def set_append ball_Un) (simp only: routable_def)
  qed
  note r = setup_apic_result [OF assms, of chip]
  show ?thesis
  proof (cases "\<forall>c \<in> set (isa_cfgs m hs). routable as c")
    case False
    with r show ?thesis by (simp only: ok if_False)
  next
    case True
    with r obtain st' where st': "setup_apic m sign ac (chip, st) = Some (Inr (Some apic_chip, st'))" "apics_of st' = as"
      "\<forall>j < 16. ap_isa_irq st' j = routed as (isa_choice m hs j)" "local_apics_of st' = local_ids m hs"
      "same_devices st st'" "mapped_at (ap_kmap st') (pe + length ios) (madt_lapic_paddr m tbl)"
      "\<forall>i < length ios. mapped_at (ap_kmap st') (pe + i) (io_apic_paddr m (ios ! i))" by auto
    have "apic_line st' irq \<noteq> None" if "irq < 16" for irq
      using isa_lines [OF st'(2,3) _ that] isa_choice_routable [OF True] by auto
    moreover have regs: "ap_regs st' = ap_regs st" "ap_local_regs st' = ap_local_regs st"
      using st'(5) by (simp_all add: same_devices_def)
    moreover note setup_local_apic_result [of st', unfolded own_index_def st'(4) regs(2)]
    ultimately show ?thesis unfolding if_P [OF True [unfolded ok]] using st'
      by (intro exI [of _ st'] conjI) simp_all
  qed
qed

text \<open>The machine of the example before the set-up: version register \<open>0x170011\<close> in the first window.\<close>

definition bare_apic :: apic where
  "bare_apic = sample_apic\<lparr>ap_io_apic_size := 0, ap_local_apic_count := 0, ap_kmap := sample_kmap,
     ap_regs := (\<lambda>_ r. if r = 1 then 0x170011 else 0x10000)\<rparr>"

lemma sample_setup_apic:
  "madt_entries sample_tables 0xC0009000 sample_acpi 0xC0003000 [0xC000302C, 0xC0003034, 0xC0003040]"
  "apic_ready sample_tables 0xC0003000 [0xC000302C, 0xC0003034, 0xC0003040] bare_apic"
proof -
  show "madt_entries sample_tables 0xC0009000 sample_acpi 0xC0003000 [0xC000302C, 0xC0003034, 0xC0003040]"
    unfolding madt_entries_def SIZEOF_MADT_def
    using sample_madt(1-3) sample_entries(1) by (simp del: entries_at.simps)
  have "high_paddr (madt_lapic_paddr sample_tables 0xC0003000)" "high_paddr (io_apic_paddr sample_tables 0xC0003034)"
    by code_simp+
  then show "apic_ready sample_tables 0xC0003000 [0xC000302C, 0xC0003034, 0xC0003040] bare_apic"
    unfolding apic_ready_def sample_entries(2) using sample_kmap_inv(1)
    by (simp add: bare_apic_def sample_kmap_def)
qed

theorem setup_apic_configures_witness:
  "\<exists>st'. setup_apic sample_tables 0xC0009000 sample_acpi (None, bare_apic) = Some (Inr (Some apic_chip, st')) \<and>
    im_gsi (ap_isa_irq st' 0) = 2 \<and> im_flags (ap_isa_irq st' 0) = HWIRQ_RISING \<and> im_gsi (ap_isa_irq st' 7) = 1 \<and>
    apic_line st' 7 \<noteq> None"
proof -
  let ?hs = "[0xC000302C, 0xC0003034, 0xC0003040] :: u32 list"
  define as where "as = io_apics_of sample_tables (ap_regs bare_apic) 0x38000 [0xC0003034]"
  have g: "io_apic_gsi_base sample_tables 0xC0003034 = 0" by code_simp
  have as: "as = [\<lparr>ia_iospace = kmap_addr 0x38000, ia_gsi = 0, ia_irqs = 24, ia_id = 0\<rparr>]"
    by (simp add: as_def io_apics_of_def io_apic_of_def g bare_apic_def)
  have ov: "isa_overrides sample_tables ?hs = [\<lparr>cfg_flags = HWIRQ_RISING, cfg_isa = 0, cfg_gsi = 2\<rparr>]"
    unfolding isa_overrides_def sample_entries(3) by code_simp
  have s: "server as 1 = Some 0" "server as 2 = Some 0" by (simp_all add: as server_def serves_def)
  have top: "(0x38000 :: nat) = km_top (ap_kmap bare_apic)" by (simp add: bare_apic_def sample_kmap_def)
  have io: "take 32 (filter (of_type sample_tables MADT_IO_APIC) ?hs) = [0xC0003034]" unfolding sample_entries(2) by simp
  from setup_apic_configures [OF sample_setup_apic io [symmetric] top as_def, of None] s ov obtain st' where
    st': "setup_apic sample_tables 0xC0009000 sample_acpi (None, bare_apic) = Some (Inr (Some apic_chip, st'))"
      "\<forall>j < 16. ap_isa_irq st' j = routed as (isa_choice sample_tables ?hs j)" "\<forall>irq < 16. apic_line st' irq \<noteq> None"
    by auto
  have "isa_choice sample_tables ?hs 0 = \<lparr>cfg_flags = HWIRQ_RISING, cfg_isa = 0, cfg_gsi = 2\<rparr>"
    "isa_choice sample_tables ?hs 7 = isa_default 7" by (simp_all add: isa_choice_def ov last_for_def)
  with st' show ?thesis by (simp add: routed_def isa_default_def)
qed

end
