(* ===== verification/Statistics.thy ===== *)
theory Statistics
  imports Page_Alloc
begin

text \<open>
  \<open>zone_stat\<close> and \<open>stat\<close> of \<open>kernel/start.c\<close>: the report on the page allocator that the boot prints.
  The report is the list of what the code passes to \<open>debug\<close>. It walks the free areas of the
  allocator, so it is a second reader of their contract.
\<close>

subsection \<open>The code\<close>

datatype report = Zone_frames u32 u32 | Blocks u32 nat

partial_function (option) area_total :: "page_node list_heap \<Rightarrow> page_node \<Rightarrow> page_node \<Rightarrow> u32 \<Rightarrow> u32 option" where
  "area_total h head cur n =
     (if cur \<noteq> head then area_total h head (lh_next h cur) (n + 1) else Some n)"

declare area_total.simps [code]

fun areas_stat :: "zone_type \<Rightarrow> nat \<Rightarrow> nat \<Rightarrow> page_state \<Rightarrow> report list option" where
  "areas_stat z i 0 st = Some []"
| "areas_stat z i (Suc n) st =
     (let head = Free_area z i
      in case area_total (pg_links st) head (lh_next (pg_links st) head) 0 of
           None \<Rightarrow> None
         | Some n1 \<Rightarrow>
             map_option ((@) (if n1 \<noteq> 0 then [Blocks n1 i] else [])) (areas_stat z (i + 1) n st))"

definition zone_stat :: "zone_type \<Rightarrow> page_state \<Rightarrow> report list option" where
  "zone_stat z st =
     map_option ((#) (Zone_frames (z_start_pfn (nd_zones st z)) (z_end_pfn (nd_zones st z))))
       (areas_stat z 0 MAX_ORDER st)"

definition stat :: "page_state \<Rightarrow> report list option" where
  "stat st =
     (case zone_stat ZONE_NORMAL st of
        None \<Rightarrow> None
      | Some r \<Rightarrow> map_option ((@) r) (zone_stat ZONE_HIGH st))"

subsection \<open>The report adds up\<close>

text \<open>The frames that a report counts.\<close>

fun counted :: "report \<Rightarrow> nat" where
  "counted (Zone_frames s e) = 0"
| "counted (Blocks n k) = unat n * 2 ^ k"

lemma area_total_length:
  "dlseg h p xs q \<Longrightarrow> q \<notin> set xs \<Longrightarrow> area_total h q (lh_next h p) n = Some (n + of_nat (length xs))"
proof (induction xs arbitrary: p n)
  case Nil
  then show ?case by (subst area_total.simps) simp
next
  case (Cons x xs)
  then show ?case by (subst area_total.simps) (auto simp: ac_simps)
qed

lemma areas_stat_result:
  assumes "page_inv st Z F A {}" and "z \<in> Z" and "i + n \<le> MAX_ORDER"
  shows "areas_stat z i n st =
    Some (concat (map (\<lambda>k. if of_nat (length (F z k)) \<noteq> (0 :: u32) then [Blocks (of_nat (length (F z k))) k] else [])
      [i ..< i + n]))"
  using assms(3)
proof (induction n arbitrary: i)
  case (Suc n)
  then have "Free_area z i \<in> areas Z" using assms(2) by simp
  moreover have "list_family list_rep (pg_links st) (areas Z) (area_lists F)" using assms(1) by (simp add: page_inv_def)
  ultimately have r: "list_rep (pg_links st) (Free_area z i) (map Chain (F z i))"
    using lists.family_rep by fastforce
  then have "area_total (pg_links st) (Free_area z i) (lh_next (pg_links st) (Free_area z i)) 0 =
      Some (0 + of_nat (length (map Chain (F z i))))"
    by (intro area_total_length) (auto simp: list_rep_def)
  moreover have "[i ..< i + Suc n] = i # [i + 1 ..< i + 1 + n]" by (simp add: upt_conv_Cons)
  ultimately show ?case using Suc.IH [of "i + 1"] Suc.prems by (simp del: upt_Suc)
qed simp

lemma zone_block_lists:
  assumes "page_inv st Z F A {}" and "z \<in> Z"
  shows "k < MAX_ORDER \<Longrightarrow> distinct (F z k)" and "k < MAX_ORDER \<Longrightarrow> length (F z k) < 2 ^ 32"
    and "card (free_frames z st A) = (\<Sum>k<MAX_ORDER. length (F z k) * 2 ^ k)"
proof -
  have b: "block_inv st Z (zone_blocks F) A {}" using assms(1) by (simp add: page_inv_def)
  have fam: "list_family list_rep (pg_links st) (areas Z) (area_lists F)" using assms(1) by (simp add: page_inv_def)
  show d: "distinct (F z k)" if "k < MAX_ORDER" for k
    using lists.family_distinct [OF fam, of "Free_area z k"] that assms(2) by (simp add: distinct_map)
  note ok = zone_blocks_ok(1) [OF assms]
  have fin: "finite (zone_blocks F z)"
  proof -
    have "zone_blocks F z \<subseteq> (\<Union>k<MAX_ORDER. (\<lambda>p. (p, k)) ` set (F z k))" by (auto simp: zone_blocks_def)
    then show ?thesis by (rule finite_subset) simp
  qed
  have "card (free_frames z st A) = card (\<Union>(span ` zone_blocks F z))" by (simp add: free_frames_blocks [OF assms])
  also have "\<dots> = (\<Sum>c\<in>zone_blocks F z. card (span c))"
    by (rule card_UN_disjoint) (use fin ok blocks_ok_disjoint in \<open>auto simp: span_def\<close>)
  also have "\<dots> = (\<Sum>c\<in>zone_blocks F z. 2 ^ snd c)" by (simp add: span_def)
  also have "zone_blocks F z = (\<lambda>(k, p). (p, k)) ` (SIGMA k:{..<MAX_ORDER}. set (F z k))"
    by (auto simp: zone_blocks_def image_def)
  also have "(\<Sum>c\<in>\<dots>. 2 ^ snd c) = (\<Sum>(k, p)\<in>(SIGMA k:{..<MAX_ORDER}. set (F z k)). 2 ^ k :: nat)"
    by (subst sum.reindex) (auto simp: inj_on_def case_prod_beta)
  also have "\<dots> = (\<Sum>k<MAX_ORDER. \<Sum>p\<in>set (F z k). 2 ^ k)" by (rule sum.Sigma [symmetric]) simp_all
  also have "\<dots> = (\<Sum>k<MAX_ORDER. length (F z k) * 2 ^ k)"
    by (rule sum.cong) (simp_all add: d distinct_card)
  finally show c: "card (free_frames z st A) = (\<Sum>k<MAX_ORDER. length (F z k) * 2 ^ k)" .
  show "length (F z k) < 2 ^ 32" if "k < MAX_ORDER"
  proof -
    have "length (F z k) \<le> length (F z k) * 2 ^ k" by simp
    also have "\<dots> \<le> card (free_frames z st A)" unfolding c using that by (intro member_le_sum) simp_all
    also have "\<dots> \<le> card (frames z st)" by (rule card_mono) (auto simp: free_frames_def frames_def)
    also have "\<dots> \<le> unat (z_end_pfn (nd_zones st z))" by (simp add: frames_def)
    also have "\<dots> < 2 ^ 32" by simp
    finally show ?thesis .
  qed
qed

lemma zone_stat_result:
  assumes "page_inv st Z F A {}" and "z \<in> Z"
  shows "\<exists>r. zone_stat z st = Some (Zone_frames (z_start_pfn (nd_zones st z)) (z_end_pfn (nd_zones st z)) # r) \<and>
    sum_list (map counted r) = card (free_frames z st A)"
proof -
  let ?r = "\<lambda>k. if of_nat (length (F z k)) \<noteq> (0 :: u32) then [Blocks (of_nat (length (F z k))) k] else []"
  have "sum_list (map counted (?r k)) = length (F z k) * 2 ^ k" if "k < MAX_ORDER" for k
    using zone_block_lists(2) [OF assms that] by (auto simp: word_unat_eq_iff unat_of_nat take_bit_nat_eq_self)
  then have "sum_list (map (\<lambda>k. sum_list (map counted (?r k))) [0..<MAX_ORDER]) =
      sum_list (map (\<lambda>k. length (F z k) * 2 ^ k) [0..<MAX_ORDER])"
    by (intro arg_cong [where f = sum_list] map_cong) simp_all
  moreover have "sum_list (map counted (concat xss)) = sum_list (map (\<lambda>xs. sum_list (map counted xs)) xss)" for xss
    by (induction xss) simp_all
  ultimately have "sum_list (map counted (concat (map ?r [0..<MAX_ORDER]))) = (\<Sum>k<MAX_ORDER. length (F z k) * 2 ^ k)"
    by (simp add: comp_def interv_sum_list_conv_sum_set_nat lessThan_atLeast0)
  with areas_stat_result [OF assms, of 0 MAX_ORDER] zone_block_lists(3) [OF assms] show ?thesis
    by (simp add: zone_stat_def)
qed

end
