(* ===== verification/Start.thy ===== *)
theory Start
  imports Console Setup_Memory Task Apic_Boot Statistics
begin

text \<open>
  \<open>start_kernel\<close> of \<open>kernel/start.c\<close> and \<open>setup_arch\<close> of \<open>kernel/arch/x86/setup.c\<close>: the boot of the
  kernel as the composition of its components. The machine is the state of all components side by
  side; what two of them share (the ports, the page allocator, the descriptor table) is kept once and
  handed to each in turn. The addresses that the linker chooses are an argument.

  The page structures, the kernel image and the memory of the tasks are stores of their own, though
  \<open>setup_page_alloc\<close> frees the frames they lie in: a task that is given such a frame writes over them,
  and that is not modelled. \<open>start_kernel_runs\<close> therefore has conditions under which the first task gets
  frames that are apart from both.
\<close>

subsection \<open>The machine\<close>

datatype chip = Chip_i8259a | Chip_apic

record machine =
  mc_memory :: memory
  mc_consoles :: "console_node list_heap"
  mc_devices :: devices
  mc_gdt_ptr :: table_ptr
  mc_idt :: "nat \<Rightarrow> u64"
  mc_idt_ptr :: table_ptr
  mc_irq_mask :: u32
  mc_chip :: "chip option"
  mc_boot :: memory_setup
  mc_tasks :: tasking
  mc_acpi :: acpi
  mc_apic :: apic

record image =
  im_gdt :: u32
  im_idt :: u32
  im_irq_entries :: u32
  im_begin :: u32
  im_end :: u32
  im_page_dir :: u32
  im_rsdp_sign :: u32
  im_madt_sign :: u32
  im_init :: u32

definition bind_run :: "'a outcome option \<Rightarrow> ('a \<Rightarrow> 'b outcome option) \<Rightarrow> 'b outcome option" where
  "bind_run r f = (case r of None \<Rightarrow> None | Some (Inl e) \<Rightarrow> Some (Inl e) | Some (Inr x) \<Rightarrow> f x)"

lemma bind_run_simps [simp]:
  "bind_run None f = None" "bind_run (Some (Inl e)) f = Some (Inl e)" "bind_run (Some (Inr x)) f = f x"
  by (simp_all add: bind_run_def)

lemma bind_run_assoc: "bind_run (bind_run r f) g = bind_run r (\<lambda>x. bind_run (f x) g)"
  by (auto simp: bind_run_def split: option.splits sum.splits)

subsection \<open>The steps of \<open>setup_arch\<close>\<close>

definition boot_consoles :: "machine \<Rightarrow> machine" where
  "boot_consoles mc =
     (let (h, d) = init_serial_console (init_vga_console (mc_consoles mc, mc_devices mc))
      in mc\<lparr>mc_consoles := h, mc_devices := d\<rparr>)"

definition boot_tables :: "image \<Rightarrow> machine \<Rightarrow> machine" where
  "boot_tables im mc =
     (let (gdt, gp) = setup_gdt (tk_gdt (mc_tasks mc)) (im_gdt im);
          (idt, ip) = setup_idt (im_irq_entries im) (mc_idt mc) (im_idt im)
      in mc\<lparr>mc_tasks := (mc_tasks mc)\<lparr>tk_gdt := gdt\<rparr>, mc_gdt_ptr := gp, mc_idt := idt, mc_idt_ptr := ip\<rparr>)"

definition pic_of :: "machine \<Rightarrow> pic" where
  "pic_of mc = \<lparr>pic_irq_mask = mc_irq_mask mc, pic_ports = dv_ports (mc_devices mc)\<rparr>"

definition boot_i8259a :: "machine \<Rightarrow> machine" where
  "boot_i8259a mc =
     (let (c, p) = setup_i8259a (None, pic_of mc)
      in mc\<lparr>mc_chip := map_option (\<lambda>_. Chip_i8259a) c, mc_irq_mask := pic_irq_mask p,
           mc_devices := (mc_devices mc)\<lparr>dv_ports := pic_ports p\<rparr>\<rparr>)"

definition boot_memory :: "image \<Rightarrow> u32 \<Rightarrow> machine \<Rightarrow> machine outcome option" where
  "boot_memory im mbi mc =
     map_option (map_sum id (\<lambda>ms. mc\<lparr>mc_boot := ms, mc_tasks := (mc_tasks mc)\<lparr>tk_pages := ms_pages ms\<rparr>\<rparr>))
       (setup_memory (im_begin im) (im_end im) (im_page_dir im) (mc_memory mc) mbi
         ((mc_boot mc)\<lparr>ms_pages := tk_pages (mc_tasks mc)\<rparr>))"

definition boot_swapper :: "image \<Rightarrow> machine \<Rightarrow> machine outcome option" where
  "boot_swapper im mc =
     Some (map_sum id (\<lambda>k. mc\<lparr>mc_tasks := k\<rparr>) (setup_swapper (im_page_dir im) (mc_tasks mc)))"

definition boot_acpi :: "image \<Rightarrow> machine \<Rightarrow> machine outcome option" where
  "boot_acpi im mc =
     map_option (\<lambda>ac. Inr (mc\<lparr>mc_acpi := ac\<rparr>)) (setup_acpi (mc_memory mc) (im_rsdp_sign im) (mc_acpi mc))"

definition boot_apic :: "image \<Rightarrow> machine \<Rightarrow> machine outcome option" where
  "boot_apic im mc =
     bind_run (setup_apic (mc_memory mc) (im_madt_sign im) (mc_acpi mc) (None, mc_apic mc)) (\<lambda>(c, ap).
     bind_run (Some (setup_local_apic ap)) (\<lambda>ap1.
       Some (Inr (mc\<lparr>mc_apic := ap1, mc_chip := map_option (\<lambda>_. Chip_apic) c\<rparr>))))"

definition setup_arch :: "image \<Rightarrow> u32 \<Rightarrow> machine \<Rightarrow> machine outcome option" where
  "setup_arch im mbi mc =
     (let m1 = boot_consoles mc;
          m2 = boot_tables im m1;
          m3 = boot_i8259a m2
      in bind_run (boot_memory im mbi m3) (\<lambda>m4.
         bind_run (boot_swapper im m4) (\<lambda>m5.
         bind_run (boot_acpi im m5) (boot_apic im))))"

text \<open>
  \<open>start_kernel\<close> up to the loop: the statistics, and the task of \<open>init\<close> behind the swapper. The loop
  and \<open>init\<close> both call \<open>schedule\<close> for ever.
\<close>

definition start_tasks :: "image \<Rightarrow> machine \<Rightarrow> (report list \<times> machine) outcome option" where
  "start_tasks im mc =
     (case stat (tk_pages (mc_tasks mc)) of
        None \<Rightarrow> None
      | Some rep \<Rightarrow>
          Some (map_sum id (\<lambda>(task, k1).
              let k2 = task_init (im_page_dir im) task (im_init im) k1;
                  k3 = schedule_task task k2
              in (rep, mc\<lparr>mc_tasks := k3\<rparr>))
            (alloc_task (mc_tasks mc))))"

definition start_kernel :: "image \<Rightarrow> u32 \<Rightarrow> machine \<Rightarrow> (report list \<times> machine) outcome option" where
  "start_kernel im mbi mc = bind_run (setup_arch im mbi mc) (start_tasks im)"

subsection \<open>What the boot establishes\<close>

definition booted :: "(u32 \<times> nat) set \<Rightarrow> machine \<Rightarrow> bool" where
  "booted A mc \<longleftrightarrow> registered (mc_consoles mc) [Vga_console, Serial_console] \<and>
     owns {ZONE_NORMAL, ZONE_HIGH} (tk_pages (mc_tasks mc)) A \<and>
     low_zone {ZONE_NORMAL, ZONE_HIGH} (tk_pages (mc_tasks mc)) \<and>
     cpu_ok (mc_tasks mc) \<and> list_rep (tk_links (mc_tasks mc)) Active []"

text \<open>The static data when the kernel is entered.\<close>

definition fresh_machine :: "machine \<Rightarrow> bool" where
  "fresh_machine mc \<longleftrightarrow> list_rep (mc_consoles mc) Consoles [] \<and> list_rep (tk_links (mc_tasks mc)) Active [] \<and>
     ms_bootmem (mc_boot mc) = boot_mem_init \<and> mc_irq_mask mc = 0xFFFF"

lemma boot_consoles_registered:
  assumes "list_rep (mc_consoles mc) Consoles []"
  shows "registered (mc_consoles (boot_consoles mc)) [Vga_console, Serial_console]"
proof -
  have "list_rep (list_insert_before Consoles (Console_link Vga_console) (mc_consoles mc)) Consoles
      ([] @ [Console_link Vga_console])"
    using assms by (intro lists.rep_ins_before) simp_all
  from lists.rep_ins_before [OF this, of "Console_link Serial_console"] show ?thesis
    by (simp add: boot_consoles_def init_vga_console_def init_serial_console_def register_console_def registered_def)
qed

lemma boot_consoles_same [simp]:
  "mc_tasks (boot_consoles mc) = mc_tasks mc" "mc_boot (boot_consoles mc) = mc_boot mc"
  "mc_apic (boot_consoles mc) = mc_apic mc" "mc_memory (boot_consoles mc) = mc_memory mc" "mc_irq_mask (boot_consoles mc) = mc_irq_mask mc"
  by (simp_all add: boot_consoles_def split: prod.split)

lemma boot_tables_same [simp]:
  "tk_links (mc_tasks (boot_tables im mc)) = tk_links (mc_tasks mc)"
  "tk_pages (mc_tasks (boot_tables im mc)) = tk_pages (mc_tasks mc)"
  "mc_apic (boot_tables im mc) = mc_apic mc" "mc_boot (boot_tables im mc) = mc_boot mc" "mc_memory (boot_tables im mc) = mc_memory mc"
  "mc_irq_mask (boot_tables im mc) = mc_irq_mask mc" "mc_consoles (boot_tables im mc) = mc_consoles mc"
  by (simp_all add: boot_tables_def split: prod.split)

lemma boot_i8259a_same [simp]:
  "mc_tasks (boot_i8259a mc) = mc_tasks mc" "mc_boot (boot_i8259a mc) = mc_boot mc"
  "mc_apic (boot_i8259a mc) = mc_apic mc" "mc_memory (boot_i8259a mc) = mc_memory mc" "mc_consoles (boot_i8259a mc) = mc_consoles mc"
  "mc_chip (boot_i8259a mc) = Some Chip_i8259a" "mc_idt (boot_i8259a mc) = mc_idt mc"
  by (simp_all add: boot_i8259a_def setup_i8259a_def irqchip_register_def)

text \<open>The descriptors of the kernel and of the user, and the gates.\<close>

definition tables_ok :: "image \<Rightarrow> machine \<Rightarrow> bool" where
  "tables_ok im mc \<longleftrightarrow>
     (\<forall>i \<in> {1, 2, 3, 4}. seg_base (tk_gdt (mc_tasks mc) i) = 0 \<and> seg_limit (tk_gdt (mc_tasks mc) i) = 0xFFFFF) \<and>
     (\<forall>i < 256. gate_offset (mc_idt mc i) = im_irq_entries im + 16 * of_nat i \<and>
        gate_selector (mc_idt mc i) = KERNEL_CODE_SELECTOR)"

lemma boot_tables_ok: "tables_ok im (boot_tables im mc)"
proof -
  have "drop_bit 16 (INT_GATE OR IDT_KERNEL) = 0" by (simp add: idt_flag_defs)
  then show ?thesis
    by (simp add: tables_ok_def boot_tables_def setup_gdt_def setup_idt_def Let_def gdt_selector_defs seg_base_init
        seg_limit_init setup_gates_nth init_isr_gate_def gate_offset_init gate_selector_init mult.commute)
qed

lemma pic_of_boot_i8259a: "pic_of (boot_i8259a mc) = pic_remap HW_INTERRUPT_OFFSET (pic_of mc)"
  by (simp add: boot_i8259a_def setup_i8259a_def pic_of_def)

lemma boot_i8259a_masked:
  "mc_irq_mask mc = 0xFFFF \<Longrightarrow> pic_masked (pic_of (boot_i8259a mc)) = (\<lambda>l. l < 16)"
  unfolding pic_of_boot_i8259a by (rule pic_remap_masked(2)) (simp add: pic_of_def)

text \<open>The steps after the swapper leave all of this alone.\<close>

lemma boot_acpi_same:
  "boot_acpi im mc = Some (Inr mc') \<Longrightarrow> \<exists>ac. mc' = mc\<lparr>mc_acpi := ac\<rparr>"
  by (auto simp: boot_acpi_def)

lemma map_sum_id_Inr: "map_sum id f x = Inr y \<longleftrightarrow> (\<exists>z. x = Inr z \<and> y = f z)"
  by (cases x) auto

lemma setup_apic_chip: "setup_apic m sign ac (c0, ap) = Some (Inr (c, ap')) \<Longrightarrow> c = Some apic_chip"
  by (auto simp: setup_apic_def irqchip_register_def map_sum_id_Inr split: option.splits sum.splits)

lemma boot_apic_same:
  "boot_apic im mc = Some (Inr mc') \<Longrightarrow> \<exists>ap. mc' = mc\<lparr>mc_apic := ap, mc_chip := Some Chip_apic\<rparr>"
  by (auto simp: boot_apic_def bind_run_def split: option.splits sum.splits) (frule setup_apic_chip, force)

lemma boot_devices_same:
  assumes "bind_run (boot_acpi im mc) (boot_apic im) = Some (Inr mc')"
  shows "mc_chip mc' = Some Chip_apic \<and> mc_tasks mc' = mc_tasks mc \<and> mc_consoles mc' = mc_consoles mc \<and>
    mc_idt mc' = mc_idt mc \<and> pic_of mc' = pic_of mc"
proof -
  obtain m1 where "boot_acpi im mc = Some (Inr m1)" "boot_apic im m1 = Some (Inr mc')"
    using assms by (auto simp: bind_run_def split: option.splits sum.splits)
  with boot_acpi_same boot_apic_same show ?thesis by (fastforce simp: pic_of_def)
qed

lemma low_zone_frames:
  assumes "frames ZONE_NORMAL st = {0 ..< n}" and "0 < n" and "n \<le> 0x38000"
  shows "low_zone {ZONE_NORMAL, ZONE_HIGH} st"
proof -
  let ?a = "unat (z_start_pfn (nd_zones st ZONE_NORMAL))" and ?b = "unat (z_end_pfn (nd_zones st ZONE_NORMAL))"
  from assms(1) have f: "{?a ..< ?b} = {0 ..< n}" by (simp add: frames_def)
  moreover from this assms(2) have "?a < ?b" by (metis atLeastLessThan_empty_iff)
  ultimately have "?b = n" using assms(2) by (simp add: atLeastLessThan_eq_iff)
  with assms(3) show ?thesis by (simp add: low_zone_def)
qed

text \<open>
  Tables of the firmware with which the set-up of the APIC succeeds: a root pointer, a MADT, I/O APICs
  that serve the default and the overrides, and the running processor among the local APICs.
\<close>

definition firmware_ok :: "image \<Rightarrow> memory \<Rightarrow> apic \<Rightarrow> bool" where
  "firmware_ok im m ap \<longleftrightarrow> unat (im_rsdp_sign im) + 8 < 2 ^ 32 \<and>
     (\<exists>p tbl hs. find (same_root_sign m (im_rsdp_sign im)) (root_places m) = Some p \<and>
       madt_entries m (im_madt_sign im) \<lparr>ac_rsdp = p, ac_rsdt = virt_addr (rsdp_rsdt_paddr m p)\<rparr> tbl hs \<and>
       apic_ready m tbl hs ap \<and>
       (\<forall>c \<in> set (isa_cfgs m hs). routable (io_apics_of m (ap_regs ap) (km_top (ap_kmap ap))
          (take 32 (filter (of_type m MADT_IO_APIC) hs))) c) \<and>
       drop_bit 24 (ap_local_regs ap 8) \<in> set (local_ids m hs))"

lemma boot_devices_return:
  assumes "firmware_ok im (mc_memory mc) (mc_apic mc)"
  shows "\<exists>m6. bind_run (boot_acpi im mc) (boot_apic im) = Some (Inr m6) \<and>
    (\<forall>irq < 16. apic_line (mc_apic m6) irq \<noteq> None)"
proof -
  let ?m = "mc_memory mc" and ?ap = "mc_apic mc"
  from assms obtain p tbl hs where fw: "find (same_root_sign ?m (im_rsdp_sign im)) (root_places ?m) = Some p"
    "madt_entries ?m (im_madt_sign im) \<lparr>ac_rsdp = p, ac_rsdt = virt_addr (rsdp_rsdt_paddr ?m p)\<rparr> tbl hs"
    "apic_ready ?m tbl hs ?ap"
    "\<forall>c \<in> set (isa_cfgs ?m hs). routable (io_apics_of ?m (ap_regs ?ap) (km_top (ap_kmap ?ap))
        (take 32 (filter (of_type ?m MADT_IO_APIC) hs))) c"
    "drop_bit 24 (ap_local_regs ?ap 8) \<in> set (local_ids ?m hs)" and sign: "unat (im_rsdp_sign im) + 8 < 2 ^ 32"
    unfolding firmware_ok_def by blast
  let ?ac = "\<lparr>ac_rsdp = p, ac_rsdt = virt_addr (rsdp_rsdt_paddr ?m p)\<rparr>"
  have ac: "setup_acpi ?m (im_rsdp_sign im) (mc_acpi mc) = Some ?ac"
    using setup_acpi_search(1) [OF sign, of ?m "mc_acpi mc"] fw(1) by simp
  from setup_apic_result [OF fw(2,3) refl refl refl, of None, unfolded if_P [OF fw(4)]] obtain ap where
    ap: "setup_apic ?m (im_madt_sign im) ?ac (None, ?ap) = Some (Inr (Some apic_chip, ap))"
      "apics_of ap = io_apics_of ?m (ap_regs ?ap) (km_top (ap_kmap ?ap)) (take 32 (filter (of_type ?m MADT_IO_APIC) hs))"
      "\<forall>j < 16. ap_isa_irq ap j = routed (io_apics_of ?m (ap_regs ?ap) (km_top (ap_kmap ?ap))
        (take 32 (filter (of_type ?m MADT_IO_APIC) hs))) (isa_choice ?m hs j)"
      "local_apics_of ap = local_ids ?m hs" "same_devices ?ap ap" by blast
  have lines: "apic_line ap irq \<noteq> None" if "irq < 16" for irq
    using isa_lines [OF ap(2,3) _ that] isa_choice_routable [OF fw(4)] by auto
  have "own_index ap \<noteq> None" using fw(5) ap(5)
    by (auto simp: own_index_def ap(4) same_devices_def find_None_iff in_set_conv_nth)
  moreover have "apic_line (ap\<lparr>ap_local_regs := r\<rparr>) = apic_line ap" for r by (rule apic_line_cong) simp_all
  ultimately obtain ap1 where ap1: "setup_local_apic ap = Inr ap1" "apic_line ap1 = apic_line ap"
    using setup_local_apic_result [of ap] by auto
  have "bind_run (boot_acpi im mc) (boot_apic im) =
      Some (Inr (mc\<lparr>mc_acpi := ?ac, mc_apic := ap1, mc_chip := Some Chip_apic\<rparr>))"
    by (simp add: boot_acpi_def ac boot_apic_def ap(1) ap1(1))
  with lines ap1(2) show ?thesis by (intro exI conjI) (assumption, simp)
qed

text \<open>The steps before the memory set-up, and the swapper task.\<close>

lemma early_boot_ok:
  assumes "fresh_machine mc" and "m3 = boot_i8259a (boot_tables im (boot_consoles mc))"
  shows "registered (mc_consoles m3) [Vga_console, Serial_console]" "tables_ok im m3"
    "mc_chip m3 = Some Chip_i8259a" "pic_masked (pic_of m3) = (\<lambda>l. l < 16)"
    "list_rep (tk_links (mc_tasks m3)) Active []" "mc_memory m3 = mc_memory mc"
    "ms_bootmem ((mc_boot m3)\<lparr>ms_pages := tk_pages (mc_tasks m3)\<rparr>) = boot_mem_init"
    "tk_regs (mc_tasks m3) = tk_regs (mc_tasks mc)" "mc_apic m3 = mc_apic mc"
  using boot_consoles_registered [of mc] boot_tables_ok [of im "boot_consoles mc"]
    boot_i8259a_masked [of "boot_tables im (boot_consoles mc)"] assms(1)
  by (simp_all add: assms(2) fresh_machine_def tables_ok_def) (simp add: boot_tables_def split: prod.split)

lemma boot_swapper_ok:
  assumes "registered (mc_consoles mc) [Vga_console, Serial_console]" and "tables_ok im mc"
    and "list_rep (tk_links (mc_tasks mc)) Active []" and "owns {ZONE_NORMAL, ZONE_HIGH} (tk_pages (mc_tasks mc)) A"
    and "low_zone {ZONE_NORMAL, ZONE_HIGH} (tk_pages (mc_tasks mc))"
  shows "\<exists>m5. boot_swapper im mc = Some (Inr m5) \<and> booted A m5 \<and> tables_ok im m5 \<and> pic_of m5 = pic_of mc \<and>
    mc_chip m5 = mc_chip mc \<and> tk_regs (mc_tasks m5) = tk_regs (mc_tasks mc) \<and>
    tk_pages (mc_tasks m5) = tk_pages (mc_tasks mc) \<and> mc_memory m5 = mc_memory mc \<and> mc_apic m5 = mc_apic mc"
proof -
  obtain k where k: "setup_swapper (im_page_dir im) (mc_tasks mc) = Inr k" "cpu_ok k"
    "tk_regs k = tk_regs (mc_tasks mc)" "tk_links k = tk_links (mc_tasks mc)" "tk_pages k = tk_pages (mc_tasks mc)"
    "\<forall>i. i \<noteq> 5 \<longrightarrow> tk_gdt k i = tk_gdt (mc_tasks mc) i"
    using setup_swapper_ok [of "im_page_dir im" "mc_tasks mc"] by blast
  then show ?thesis using assms
    by (intro exI [of _ "mc\<lparr>mc_tasks := k\<rparr>"])
      (simp add: boot_swapper_def booted_def tables_ok_def pic_of_def)
qed

text \<open>All of \<open>setup_arch\<close>.\<close>

lemma setup_arch_result:
  assumes "fresh_machine mc" and "4096 \<le> memory_size rs" and "apart_regions rs"
    and "mmap_at (mc_memory mc) (mbi_mmap_addr (mc_memory mc) mbi)
      (mbi_mmap_addr (mc_memory mc) mbi + mbi_mmap_length (mc_memory mc) mbi) rs"
  shows "setup_arch im mbi mc = Some (Inl (Panic ''alloc_page_array: allocation failed'')) \<and>
      \<not> memory_room (im_begin im) (im_end im) rs \<or>
    (\<exists>m5 A. setup_arch im mbi mc = bind_run (boot_acpi im m5) (boot_apic im) \<and>
      A = memory_kept (im_begin im) (im_end im) rs \<and> booted A m5 \<and>
      frames ZONE_NORMAL (tk_pages (mc_tasks m5)) = {0 ..< min (memory_size rs div 4096) 0x38000} \<and>
      frames ZONE_HIGH (tk_pages (mc_tasks m5)) = {min (memory_size rs div 4096) 0x38000 ..< memory_size rs div 4096} \<and>
      tables_ok im m5 \<and> mc_chip m5 = Some Chip_i8259a \<and> pic_masked (pic_of m5) = (\<lambda>l. l < 16) \<and>
      tk_regs (mc_tasks m5) = tk_regs (mc_tasks mc) \<and>
      (\<forall>m6. setup_arch im mbi mc = Some (Inr m6) \<longrightarrow> booted A m6 \<and> tables_ok im m6 \<and>
        tk_pages (mc_tasks m6) = tk_pages (mc_tasks m5) \<and>
        mc_chip m6 = Some Chip_apic \<and> pic_masked (pic_of m6) = (\<lambda>l. l < 16)) \<and>
      (firmware_ok im (mc_memory mc) (mc_apic mc) \<longrightarrow>
        (\<exists>m6. setup_arch im mbi mc = Some (Inr m6) \<and> (\<forall>irq < 16. apic_line (mc_apic m6) irq \<noteq> None))) \<and>
      (\<forall>m6. setup_arch im mbi mc = Some (Inr m6) \<longrightarrow> mc_tasks m6 = mc_tasks m5) \<and>
      array_at (memory_taken (im_begin im) (im_end im) rs) (memory_size rs div 4096)
        (nd_pages (tk_pages (mc_tasks m5))))"
proof -
  define m3 where "m3 = boot_i8259a (boot_tables im (boot_consoles mc))"
  note m3 = early_boot_ok [OF assms(1) m3_def]
  have arch: "setup_arch im mbi mc = bind_run (boot_memory im mbi m3) (\<lambda>m4.
      bind_run (boot_swapper im m4) (\<lambda>m5. bind_run (boot_acpi im m5) (boot_apic im)))"
    by (simp add: setup_arch_def m3_def Let_def)
  from setup_memory_result [OF assms(4) assms(3) m3(7) assms(2), of "im_begin im" "im_end im" "im_page_dir im"]
  show ?thesis
  proof (elim disjE exE conjE)
    assume "setup_memory (im_begin im) (im_end im) (im_page_dir im) (mc_memory mc) mbi
        ((mc_boot m3)\<lparr>ms_pages := tk_pages (mc_tasks m3)\<rparr>) = Some (Inl (Panic ''alloc_page_array: allocation failed''))"
      and "\<not> memory_room (im_begin im) (im_end im) rs"
    then show ?thesis by (simp add: arch boot_memory_def m3(6))
  next
    fix ms A
    assume s: "setup_memory (im_begin im) (im_end im) (im_page_dir im) (mc_memory mc) mbi
        ((mc_boot m3)\<lparr>ms_pages := tk_pages (mc_tasks m3)\<rparr>) = Some (Inr ms)"
      and o: "owns {ZONE_NORMAL, ZONE_HIGH} (ms_pages ms) A" "A = memory_kept (im_begin im) (im_end im) rs"
      and f: "frames ZONE_NORMAL (ms_pages ms) = {0..<min (memory_size rs div 4096) 0x38000}"
        "frames ZONE_HIGH (ms_pages ms) = {min (memory_size rs div 4096) 0x38000..<memory_size rs div 4096}"
      and at: "array_at (memory_taken (im_begin im) (im_end im) rs) (memory_size rs div 4096) (nd_pages (ms_pages ms))"
    let ?m4 = "m3\<lparr>mc_boot := ms, mc_tasks := (mc_tasks m3)\<lparr>tk_pages := ms_pages ms\<rparr>\<rparr>"
    have "0 < min (memory_size rs div 4096) 0x38000" using assms(2) by (simp add: div_greater_zero_iff)
    then have low: "low_zone {ZONE_NORMAL, ZONE_HIGH} (ms_pages ms)" by (intro low_zone_frames [OF f(1)]) simp_all
    from boot_swapper_ok [of ?m4 im A] m3(1,2,5) o(1) low obtain m5 where
      m5: "boot_swapper im ?m4 = Some (Inr m5)" "booted A m5" "tables_ok im m5" "pic_of m5 = pic_of ?m4"
        "mc_chip m5 = mc_chip ?m4" "tk_regs (mc_tasks m5) = tk_regs (mc_tasks ?m4)"
        "tk_pages (mc_tasks m5) = tk_pages (mc_tasks ?m4)" "mc_memory m5 = mc_memory ?m4"
        "mc_apic m5 = mc_apic ?m4" by (auto simp: tables_ok_def)
    have eq: "setup_arch im mbi mc = bind_run (boot_acpi im m5) (boot_apic im)"
      using m5(1) by (simp add: arch boot_memory_def m3(6) s)
    have p5: "pic_of m5 = pic_of m3" using m5(4) by (simp add: pic_of_def)
    have late: "booted A m6 \<and> tables_ok im m6 \<and> tk_pages (mc_tasks m6) = tk_pages (mc_tasks m5) \<and> mc_chip m6 = Some Chip_apic \<and> pic_masked (pic_of m6) = (\<lambda>l. l < 16)"
      if "setup_arch im mbi mc = Some (Inr m6)" for m6
      using boot_devices_same [OF that [unfolded eq]] m5(2,3) p5 m3(4) by (simp add: booted_def tables_ok_def)
    have tasks: "mc_tasks m6 = mc_tasks m5" if "setup_arch im mbi mc = Some (Inr m6)" for m6
      using boot_devices_same [OF that [unfolded eq]] by simp
    have full: "\<exists>m6. setup_arch im mbi mc = Some (Inr m6) \<and> (\<forall>irq < 16. apic_line (mc_apic m6) irq \<noteq> None)"
      if "firmware_ok im (mc_memory mc) (mc_apic mc)"
      using boot_devices_return [of im m5] that by (simp add: eq m5(8,9) m3(6,9))
    show ?thesis
      by (rule disjI2, rule exI [of _ m5], rule exI [of _ A])
        (use eq o(2) m5 p5 m3(3,4,8) f late full tasks at in simp)
  qed
qed

subsection \<open>The first tasks\<close>

lemma alloc_task_frame:
  "alloc_task k = Inr (t, k') \<Longrightarrow> \<exists>st. k' = k\<lparr>tk_pages := st, tk_links := null_task_link t (tk_links k),
    tk_tid := (tk_tid k)(t := 0)\<rparr>"
  by (auto simp: alloc_task_def bind_outcome_Inr_iff Let_def split: option.splits)

lemma null_task_link_rep: "list_rep h Active [] \<Longrightarrow> list_rep (null_task_link t h) Active []"
  by (simp add: list_rep_def null_task_link_def)

lemma new_task_queue:
  assumes "cpu_ok k" and "list_rep (tk_links k) Active []" and "alloc_task k = Inr (t, k1)"
    and "k3 = schedule_task t (task_init dir t entry k1)" and "stack_owner (task_stack t) = t"
  shows "tk_pages k3 = tk_pages k1" and "current_task k3 = current_task k"
    and "t \<noteq> current_task k \<Longrightarrow> sched_inv k3 [t]" and "cx_eip (saved_regs k3 t) = entry"
proof -
  from alloc_task_frame [OF assms(3)] obtain st where k1: "k1 = k\<lparr>tk_pages := st,
    tk_links := null_task_link t (tk_links k), tk_tid := (tk_tid k)(t := 0)\<rparr>" by blast
  show "tk_pages k3 = tk_pages k1" "current_task k3 = current_task k" "cx_eip (saved_regs k3 t) = entry"
    by (simp_all add: assms(4) k1 schedule_task_def task_init_def tk_map_def Let_def current_task_def saved_regs_def)
  have "list_rep (list_insert_before Active (Task_link t) (null_task_link t (tk_links k))) Active ([] @ [Task_link t])"
    by (intro lists.rep_ins_before null_task_link_rep assms(2)) simp
  then have q: "list_rep (tk_links k3) Active [Task_link t]"
    by (simp add: assms(4) k1 schedule_task_def task_init_def tk_map_def Let_def)
  assume ne: "t \<noteq> current_task k"
  have "cpu_ok k3" using assms(1) ne
    by (simp add: assms(4) k1 schedule_task_def task_init_def tk_map_def Let_def cpu_ok_def current_task_def)
  moreover have "runnable k3 t"
    by (simp add: assms(4,5) k1 schedule_task_def task_init_def tk_map_def Let_def runnable_def saved_regs_def)
  ultimately show "sched_inv k3 [t]" using q ne
    by (simp add: sched_inv_def \<open>current_task k3 = current_task k\<close>)
qed

lemma stat_result:
  assumes "page_inv st {ZONE_NORMAL, ZONE_HIGH} F A {}"
  shows "\<exists>rn rh. stat st = Some (rn @ rh) \<and>
    sum_list (map counted rn) = card (free_frames ZONE_NORMAL st A) \<and>
    sum_list (map counted rh) = card (free_frames ZONE_HIGH st A)"
proof -
  obtain rn where "zone_stat ZONE_NORMAL st = Some rn" "sum_list (map counted rn) = card (free_frames ZONE_NORMAL st A)"
    using zone_stat_result [OF assms, of ZONE_NORMAL] by force
  moreover obtain rh where "zone_stat ZONE_HIGH st = Some rh" "sum_list (map counted rh) = card (free_frames ZONE_HIGH st A)"
    using zone_stat_result [OF assms, of ZONE_HIGH] by force
  ultimately show ?thesis by (intro exI [of _ rn] exI [of _ rh]) (simp add: stat_def)
qed

lemma start_tasks_result:
  assumes "booted A mc" and "aligned r 1" and "span (r, 1) \<subseteq> free_frames ZONE_NORMAL (tk_pages (mc_tasks mc)) A"
  shows "\<exists>rn rh p mc'. start_tasks im mc = Some (Inr (rn @ rh, mc')) \<and>
    sum_list (map counted rn) = card (free_frames ZONE_NORMAL (tk_pages (mc_tasks mc)) A) \<and>
    sum_list (map counted rh) = card (free_frames ZONE_HIGH (tk_pages (mc_tasks mc)) A) \<and>
    (p, 1) \<notin> A \<and> owns {ZONE_NORMAL, ZONE_HIGH} (tk_pages (mc_tasks mc')) (insert (p, 1) A) \<and>
    unat p + 2 \<le> 0x38000 \<and> current_task (mc_tasks mc') = current_task (mc_tasks mc) \<and>
    (slab_at p \<noteq> current_task (mc_tasks mc) \<longrightarrow> sched_inv (mc_tasks mc') [slab_at p]) \<and>
    cx_eip (saved_regs (mc_tasks mc') (slab_at p)) = im_init im \<and>
    alloc_pages 1 ALLOC_NORMAL (tk_pages (mc_tasks mc)) = Inr (Some p, tk_pages (mc_tasks mc')) \<and>
    same_layout (tk_pages (mc_tasks mc)) (tk_pages (mc_tasks mc'))"
proof -
  let ?k = "mc_tasks mc" and ?Z = "{ZONE_NORMAL, ZONE_HIGH}"
  from assms(1) have b: "owns ?Z (tk_pages ?k) A" "low_zone ?Z (tk_pages ?k)" "cpu_ok ?k"
    "list_rep (tk_links ?k) Active []" by (simp_all add: booted_def)
  from b(1) obtain F where inv: "page_inv (tk_pages ?k) ?Z F A {}" by (auto simp: owns_def)
  from stat_result [OF inv] obtain rn rh where rep: "stat (tk_pages ?k) = Some (rn @ rh)"
    "sum_list (map counted rn) = card (free_frames ZONE_NORMAL (tk_pages ?k) A)"
    "sum_list (map counted rh) = card (free_frames ZONE_HIGH (tk_pages ?k) A)" by blast
  have ex: "\<exists>r. aligned r 1 \<and> span (r, 1) \<subseteq> free_frames ZONE_NORMAL (tk_pages ?k) A" using assms(2,3) by blast
  from alloc_task_result [OF b(1,2), unfolded if_P [OF ex]] obtain p k1 where
    a: "alloc_task ?k = Inr (slab_at p, k1)" "owns ?Z (tk_pages k1) (insert (p, 1) A)" "(p, 1) \<notin> A"
      "aligned p 1" "unat p + 2 \<le> 0x38000" "alloc_pages 1 ALLOC_NORMAL (tk_pages ?k) = Inr (Some p, tk_pages k1)"
      "same_layout (tk_pages ?k) (tk_pages k1)" by blast
  note top = stack_owner_top [OF new_task_aligned [OF a(4,5)]]
  define k3 where "k3 = schedule_task (slab_at p) (task_init (im_page_dir im) (slab_at p) (im_init im) k1)"
  note q = new_task_queue [OF b(3,4) a(1) k3_def top]
  have "start_tasks im mc = Some (Inr (rn @ rh, mc\<lparr>mc_tasks := k3\<rparr>))"
    by (simp add: start_tasks_def rep(1) a(1) k3_def Let_def)
  then show ?thesis using rep(2,3) a(2,3,5,6,7) q
    by (intro exI [of _ rn] exI [of _ rh] exI [of _ p] exI [of _ "mc\<lparr>mc_tasks := k3\<rparr>"]) simp
qed

lemma start_tasks_frame:
  "start_tasks im mc = Some (Inr (rep, mc')) \<Longrightarrow> \<exists>k. mc' = mc\<lparr>mc_tasks := k\<rparr>"
  by (auto simp: start_tasks_def map_sum_id_Inr split: option.splits)

text \<open>What is free after the boot: everything, or everything but frame 0.\<close>

lemma boot_free_frames:
  assumes "A \<subseteq> {(0, 0)}" and "frames ZONE_NORMAL st = {0 ..< min n 0x38000}"
    and "frames ZONE_HIGH st = {min n 0x38000 ..< n}"
  shows "n \<noteq> 0 \<Longrightarrow> card (free_frames ZONE_NORMAL st A) = min n 0x38000 - card A"
    and "n \<noteq> 0 \<Longrightarrow> card (free_frames ZONE_HIGH st A) = n - min n 0x38000"
    and "4 \<le> n \<Longrightarrow> span (2, 1) \<subseteq> free_frames ZONE_NORMAL st A"
proof -
  from assms(1) have A: "A = {} \<or> A = {(0, 0)}" by blast
  have z: "span (0, 0) = {0}" by (auto simp: span_def)
  show "card (free_frames ZONE_NORMAL st A) = min n 0x38000 - card A" if "n \<noteq> 0"
    using A that by (auto simp: free_frames_def assms(2) z card_Diff_subset)
  show "card (free_frames ZONE_HIGH st A) = n - min n 0x38000" if "n \<noteq> 0"
  proof -
    have "free_frames ZONE_HIGH st A = {min n 0x38000 ..< n}"
      using A that by (auto simp: free_frames_def assms(3) z)
    then show ?thesis by simp
  qed
  show "span (2, 1) \<subseteq> free_frames ZONE_NORMAL st A" if "4 \<le> n"
    using A that by (auto simp: free_frames_def assms(2) span_def)
qed

text \<open>
  All frames but frame 0 are free after the boot, those of the kernel image and of the page array
  included, so a task may be given memory that is in use. That does not happen when the first four
  pages are usable memory with nothing reserved in it, the page array has no place among them, and the
  normal zone does not end in a pair of pages of its own: then the one free block of order 1 is frames
  2 and 3, and the first task gets them.
\<close>

definition first_pages_spare :: "image \<Rightarrow> region list \<Rightarrow> bool" where
  "first_pages_spare im rs \<longleftrightarrow>
     (let bm = memory_taken (im_begin im) (im_end im) rs; n = memory_size rs div 4096
      in placed (Bootmem.live (bm_memory bm)) (Bootmem.live (bm_reserved bm)) 1 0x4000 0 0x4000 0 \<and>
         (\<forall>c. placed (Bootmem.live (bm_memory bm)) (Bootmem.live (bm_reserved bm)) 4096 (n * 20) 4096 0x38000000 c \<longrightarrow> 0x4000 \<le> c) \<and>
         min n 0x38000 mod 4 < 2)"

lemma spare_kept:
  assumes "first_pages_spare im rs"
  shows "memory_kept (im_begin im) (im_end im) rs = {(0, 0)}"
proof -
  let ?bm = "memory_taken (im_begin im) (im_end im) rs"
  have "placed (Bootmem.live (bm_memory ?bm)) (Bootmem.live (bm_reserved ?bm)) 1 0x4000 0 0x4000 0"
    using assms by (simp add: first_pages_spare_def Let_def)
  then have "first_page_usable ?bm" by (fastforce simp: first_page_usable_def placed_def clear_def)
  then show ?thesis by (simp add: memory_kept_def frames_kept_def)
qed

lemma spare_array:
  assumes "first_pages_spare im rs"
    and "array_at (memory_taken (im_begin im) (im_end im) rs) (memory_size rs div 4096) v"
  shows "0xC0004000 \<le> v"
proof -
  from assms obtain a where v: "v = virt_addr a" and a: "0x4000 \<le> unat a" "unat a \<le> 0x38000000"
    unfolding array_at_def first_pages_spare_def Let_def by (fastforce simp: placed_def)
  have "unat (a + 0xC0000000) = unat a + 0xC0000000" using a(2) by (simp add: unat_word_ariths)
  with a(1) show ?thesis by (simp add: v virt_addr_def PAGE_OFFSET_def word_le_nat_alt)
qed

lemma first_pair:
  assumes "owns {ZONE_NORMAL, ZONE_HIGH} st {(0, 0)}" and "frames ZONE_NORMAL st = {0 ..< m}" and "4 \<le> m"
    and "m mod 4 < 2" and "alloc_pages 1 ALLOC_NORMAL st = Inr (Some p, st')"
  shows "p = 2"
proof -
  from assms(1) obtain F where F: "page_inv st {ZONE_NORMAL, ZONE_HIGH} F {(0, 0)} {}" by (auto simp: owns_def)
  have z: "ZONE_NORMAL \<in> {ZONE_NORMAL, ZONE_HIGH}" by simp
  have one: "(1 :: nat) < MAX_ORDER" by (simp add: MAX_ORDER_def)
  note pair = low_pair [OF F z assms(2-4)]
  obtain q qs where q: "F ZONE_NORMAL 1 = q # qs"
    using pair(1) one by (cases "F ZONE_NORMAL 1") (simp_all add: zone_blocks_def)
  have "(q, 1) \<in> zone_blocks F ZONE_NORMAL" using q one by (simp add: zone_blocks_def)
  then have "q = 2" by (rule pair(2))
  have "alloc_pages_node 1 ZONE_NORMAL st = Inr (Some p, st')"
    using assms(5) normal_flag by (simp add: alloc_pages_def MAX_ORDER_def)
  from alloc_pages_node_first [OF F z one q this] \<open>q = 2\<close> show ?thesis by simp
qed

text \<open>The first task on such a machine, which the swapper alternates with.\<close>

lemma start_first_task:
  assumes "booted {(0, 0)} mc" and "frames ZONE_NORMAL (tk_pages (mc_tasks mc)) = {0 ..< min n 0x38000}"
    and "frames ZONE_HIGH (tk_pages (mc_tasks mc)) = {min n 0x38000 ..< n}" and "4 \<le> n"
    and "min n 0x38000 mod 4 < 2" and "0xC0004000 \<le> current_task (mc_tasks mc)"
  shows "\<exists>rn rh k. start_tasks im mc = Some (Inr (rn @ rh, mc\<lparr>mc_tasks := k\<rparr>)) \<and>
    sum_list (map counted rn) = min n 0x38000 - 1 \<and> sum_list (map counted rh) = n - min n 0x38000 \<and>
    owns {ZONE_NORMAL, ZONE_HIGH} (tk_pages k) {(2, 1), (0, 0)} \<and>
    nd_pages (tk_pages k) = nd_pages (tk_pages (mc_tasks mc)) \<and>
    cx_eip (saved_regs k 0xC0002000) = im_init im \<and>
    (\<forall>i k'. sched_runs i k k' \<longrightarrow> (\<exists>k''. schedule k' = Inr k'') \<and>
      current_task k' = (if even i then current_task (mc_tasks mc) else 0xC0002000))"
proof -
  let ?A = "{(0, 0)} :: (u32 \<times> nat) set"
  note free = boot_free_frames [OF order.refl assms(2,3)]
  from start_tasks_result [OF assms(1) _ free(3) [OF assms(4)], of im] obtain rn rh p mc' where
    s: "start_tasks im mc = Some (Inr (rn @ rh, mc'))"
      "sum_list (map counted rn) = card (free_frames ZONE_NORMAL (tk_pages (mc_tasks mc)) ?A)"
      "sum_list (map counted rh) = card (free_frames ZONE_HIGH (tk_pages (mc_tasks mc)) ?A)"
      "owns {ZONE_NORMAL, ZONE_HIGH} (tk_pages (mc_tasks mc')) (insert (p, 1) ?A)"
      "current_task (mc_tasks mc') = current_task (mc_tasks mc)"
      "slab_at p \<noteq> current_task (mc_tasks mc) \<longrightarrow> sched_inv (mc_tasks mc') [slab_at p]"
      "cx_eip (saved_regs (mc_tasks mc') (slab_at p)) = im_init im"
      "alloc_pages 1 ALLOC_NORMAL (tk_pages (mc_tasks mc)) = Inr (Some p, tk_pages (mc_tasks mc'))"
      "same_layout (tk_pages (mc_tasks mc)) (tk_pages (mc_tasks mc'))" by (auto simp: aligned_def)
  from start_tasks_frame [OF s(1)] obtain k where k: "mc' = mc\<lparr>mc_tasks := k\<rparr>" by blast
  have "4 \<le> min n 0x38000" using assms(4) by simp
  from first_pair [OF _ assms(2) this assms(5) s(8)] assms(1) have p: "p = 2" by (simp add: booted_def)
  then have t: "slab_at p = 0xC0002000" by (simp add: slab_at_def virt_addr_def PAGE_OFFSET_def PAGE_SHIFT_def)
  have "(0xC0002000 :: u32) < 0xC0004000" by simp
  then have "0xC0002000 < current_task (mc_tasks mc)" using assms(6) by (rule less_le_trans)
  then have inv: "sched_inv k [0xC0002000]" using s(6) t k by simp
  have "(\<exists>k''. schedule k' = Inr k'') \<and> current_task k' = (if even i then current_task (mc_tasks mc) else 0xC0002000)"
    if "sched_runs i k k'" for i k'
    using scheduler.two_alternate [OF that inv] scheduler.never_stuck [OF that inv] s(5) k by simp
  moreover have "n \<noteq> 0" using assms(4) by simp
  note free(1,2) [OF this]
  ultimately show ?thesis using s(1-4,7,9) p t k
    by - (rule exI [of _ rn], rule exI [of _ rh], rule exI [of _ k], simp add: same_layout_def)
qed

subsection \<open>An interrupt\<close>

text \<open>
  \<open>raw_irq_handler\<close>: the stub of an interrupt calls it with the address of the registers it has
  pushed. It prints five of them and spins; the value is the state in which it spins. The buffer is
  that of \<open>printf\<close>, \<open>fmt\<close> the address of the format.
\<close>

definition ctx_irq :: "memory \<Rightarrow> u32 \<Rightarrow> u32" where "ctx_irq m ctx = read32 m (ctx + 28)"
definition ctx_err :: "memory \<Rightarrow> u32 \<Rightarrow> u32" where "ctx_err m ctx = read32 m (ctx + 32)"
definition ctx_eip :: "memory \<Rightarrow> u32 \<Rightarrow> u32" where "ctx_eip m ctx = read32 m (ctx + 36)"
definition ctx_cs :: "memory \<Rightarrow> u32 \<Rightarrow> u32" where "ctx_cs m ctx = read32 m (ctx + 40)"
definition ctx_eflags :: "memory \<Rightarrow> u32 \<Rightarrow> u32" where "ctx_eflags m ctx = read32 m (ctx + 44)"

definition raw_irq_handler ::
  "console_node list_heap \<Rightarrow> u32 \<Rightarrow> u32 \<Rightarrow> u32 \<Rightarrow> memory \<Rightarrow> devices \<Rightarrow> (memory \<times> devices) outcome option" where
  "raw_irq_handler h buffer fmt ctx m d =
     printf h buffer fmt [ctx_irq m ctx, ctx_err m ctx, ctx_eip m ctx, ctx_cs m ctx, ctx_eflags m ctx] m d"

lemma small_signed:
  assumes "(v :: u32) < 256"
  shows "\<not> v <s 0" and "nat \<bar>sint v\<bar> = unat v"
proof -
  have "uint v < 256" using assms by (simp add: word_less_def)
  then have "sint v = int (unat v)" by (simp add: sint_u32)
  then show "\<not> v <s 0" "nat \<bar>sint v\<bar> = unat v" by (simp_all add: word_sless_alt)
qed

definition raw_irq_format :: "u8 list" where
  "raw_irq_format = map (\<lambda>c. of_nat (of_char c)) ''%d %x %x %x %x'' @ [10]"

definition hex_text :: "u32 \<Rightarrow> u8 list" where "hex_text v = 32 # numeral_string 16 (unat v)"

lemma raw_irq_handler_prints:
  assumes "registered h ks" and "line_ok d" and "string_at m fmt raw_irq_format"
    and "apart buffer fmt raw_irq_format" and "unat buffer + 34 \<le> 2 ^ 32" and "ctx_irq m ctx < 256"
  shows "\<exists>m' d'. raw_irq_handler h buffer fmt ctx m d = Some (Inr (m', d')) \<and>
    line_text d' = line_text d @ (if Serial_console \<in> set ks then numeral_string 10 (unat (ctx_irq m ctx)) @
      hex_text (ctx_err m ctx) @ hex_text (ctx_eip m ctx) @ hex_text (ctx_cs m ctx) @ hex_text (ctx_eflags m ctx) @ [10]
      else [])"
proof -
  let ?out = "numeral_string 10 (unat (ctx_irq m ctx)) @ hex_text (ctx_err m ctx) @ hex_text (ctx_eip m ctx) @
    hex_text (ctx_cs m ctx) @ hex_text (ctx_eflags m ctx) @ [10]"
  let ?args = "[ctx_irq m ctx, ctx_err m ctx, ctx_eip m ctx, ctx_cs m ctx, ctx_eflags m ctx]"
  have irq: "\<not> ctx_irq m ctx <s 0" "nat \<bar>sint (ctx_irq m ctx)\<bar> = unat (ctx_irq m ctx)"
    using small_signed [OF assms(6)] by simp_all
  have "prints m buffer ([37, 100] @ [32, 37, 120] @ [32, 37, 120] @ [32, 37, 120] @ [32, 37, 120] @ [10]) ?args
      ((if ctx_irq m ctx <s 0 then [45] else []) @ numeral_string 10 (nat \<bar>sint (ctx_irq m ctx)\<bar>) @
        hex_text (ctx_err m ctx) @ hex_text (ctx_eip m ctx) @ hex_text (ctx_cs m ctx) @ hex_text (ctx_eflags m ctx) @ [10] @ [])"
    unfolding hex_text_def append_Cons append_Nil
    by (intro prints_decimal prints_char prints_hex prints_end) simp_all
  then have p: "prints m buffer raw_irq_format ?args ?out" by (simp add: irq raw_irq_format_def)
  have "distinct ks" using assms(1) by (simp add: registered_def list_rep_def distinct_map)
  from emit_line [OF assms(2) this, of ?out] obtain d' where d': "emit ks ?out d = Some d'"
    "line_text d' = line_text d @ (if Serial_console \<in> set ks then ?out else [])" by blast
  from printf_emit [OF p assms(1,5) same_outside_refl assms(3,4)] d' show ?thesis
    by (auto simp: raw_irq_handler_def)
qed

subsection \<open>An instance\<close>

text \<open>
  A machine with 128 MB as the boot loader finds it: the map has the low memory, the area of the BIOS
  with the firmware's tables, which is not usable, and the memory from 1 MB on. The kernel image is at
  1 MB, with its strings and the stack of the boot in it.
\<close>

definition sample_image :: image where
  "sample_image = \<lparr>im_gdt = 0xC0110000, im_idt = 0xC0111000, im_irq_entries = 0xC0101000, im_begin = 0xC0100000,
     im_end = 0xC0180000, im_page_dir = 0xC0123000, im_rsdp_sign = 0xC0109010, im_madt_sign = 0xC0109000,
     im_init = 0xC0102000\<rparr>"

definition pc_tables :: memory where
  "pc_tables = (\<lambda>_. 0)(
     0xC00F0011 := 0x10, 0xC00F0012 := 0x0F,
     0xC00F1004 := 44, 0xC00F1025 := 0x20, 0xC00F1026 := 0x0F, 0xC00F1029 := 0x30, 0xC00F102A := 0x0F,
     0xC00F2000 := 70, 0xC00F2001 := 65, 0xC00F2002 := 67, 0xC00F2003 := 80,
     0xC00F3000 := 65, 0xC00F3001 := 80, 0xC00F3002 := 73, 0xC00F3003 := 67, 0xC00F3004 := 74,
     0xC00F3026 := 0xE0, 0xC00F3027 := 0xFE,
     0xC00F302D := 8, 0xC00F3030 := 1,
     0xC00F3034 := 1, 0xC00F3035 := 12, 0xC00F3036 := 2, 0xC00F303A := 0xC0, 0xC00F303B := 0xFE,
     0xC00F3040 := 2, 0xC00F3041 := 10, 0xC00F3044 := 2,
     0xC0109000 := 65, 0xC0109001 := 80, 0xC0109002 := 73, 0xC0109003 := 67)"

definition pc_map :: "memory \<Rightarrow> memory" where
  "pc_map m = m(0x902C := 72, 0x9031 := 0xA0,
     0xA000 := 20, 0xA00D := 0xFC, 0xA00E := 0x09, 0xA014 := 1,
     0xA018 := 20, 0xA01E := 0x0F, 0xA026 := 1, 0xA02C := 2,
     0xA030 := 20, 0xA036 := 0x10, 0xA03E := 0xEE, 0xA03F := 0x07, 0xA044 := 1)"

definition pc_memory :: memory where
  "pc_memory = pc_map (root_sign 0xC0109010 (root_sign 0xC00F0000 pc_tables))"

definition pc_regions :: "region list" where
  "pc_regions = [(0, 0x9FC00, 1), (0xF0000, 0x10000, 2), (0x100000, 0x7EE0000, 1)]"

definition pc_acpi :: acpi where
  "pc_acpi = \<lparr>ac_rsdp = 0xC00F0000, ac_rsdt = 0xC00F1000\<rparr>"

definition sample_reset :: machine where
  "sample_reset = \<lparr>mc_memory = pc_memory, mc_consoles = consoles sample_consoles, mc_devices = sample_devices,
     mc_gdt_ptr = \<lparr>tp_size = 0, tp_base = 0\<rparr>, mc_idt = \<lambda>_. 0, mc_idt_ptr = \<lparr>tp_size = 0, tp_base = 0\<rparr>,
     mc_irq_mask = 0xFFFF, mc_chip = None, mc_boot = sample_setup,
     mc_tasks = \<lparr>tk_pages = sample_pages, tk_links = list_init_head Active \<lparr>lh_next = \<lambda>n. n, lh_prev = \<lambda>n. n\<rparr>,
       tk_tid = \<lambda>_. 0, tk_tss = \<lambda>_. zero_state, tk_gdt = \<lambda>_. 0, tk_regs = zero_context\<lparr>cx_esp := 0xC0125F00\<rparr>,
       tk_cr3 = 0, tk_tr = 0\<rparr>,
     mc_acpi = \<lparr>ac_rsdp = 0, ac_rsdt = 0\<rparr>, mc_apic = bare_apic\<rparr>"

lemma sample_fresh: "fresh_machine sample_reset"
  by (simp add: fresh_machine_def sample_reset_def sample_setup_def list_rep_init)
    (simp add: list_rep_def consoles_def)

lemma sample_stack: "current_task (mc_tasks sample_reset) = 0xC0124000"
  by (simp add: sample_reset_def current_task_def stack_owner_def stack_values)

lemma pc_memory_fields:
  "mbi_mmap_length pc_memory 0x9000 = 72" "mbi_mmap_addr pc_memory 0x9000 = 0xA000"
  "mmap_size pc_memory 0xA000 = 20" "mmap_address pc_memory 0xA000 = 0"
  "mmap_len pc_memory 0xA000 = 0x9FC00" "mmap_type pc_memory 0xA000 = 1"
  "mmap_size pc_memory 0xA018 = 20" "mmap_address pc_memory 0xA018 = 0xF0000"
  "mmap_len pc_memory 0xA018 = 0x10000" "mmap_type pc_memory 0xA018 = 2"
  "mmap_size pc_memory 0xA030 = 20" "mmap_address pc_memory 0xA030 = 0x100000"
  "mmap_len pc_memory 0xA030 = 0x7EE0000" "mmap_type pc_memory 0xA030 = 1"
  by code_simp+

lemma pc_memory_regions:
  "mmap_at pc_memory (mbi_mmap_addr pc_memory 0x9000)
     (mbi_mmap_addr pc_memory 0x9000 + mbi_mmap_length pc_memory 0x9000) pc_regions"
  "apart_regions pc_regions" "memory_size pc_regions = 0x7FE0000"
  by (simp_all add: pc_regions_def pc_memory_fields memory_size_def usable_def region_end_def MULTIBOOT_AVAILABLE_def)
    (auto simp: apart_regions_def region_addrs_def region_end_def usable_def MULTIBOOT_AVAILABLE_def)

text \<open>The signature of the root pointer is at one place only.\<close>

lemma pc_memory_root:
  "find (same_root_sign pc_memory 0xC0109010) (root_places pc_memory) = Some 0xC00F0000"
proof -
  let ?P = "same_root_sign pc_memory 0xC0109010"
  have "list_all (\<lambda>i. pc_memory (0xC0109010 + of_nat i) = pc_memory (0xC00F0000 + of_nat i)) [0..<8]"
    by code_simp
  then have at: "?P 0xC00F0000" by (simp add: same_root_sign_def list_all_iff)
  have ebda: "virt_addr (ucast (read16 pc_memory (virt_addr (push_bit 4 0x40E)))) = 0xC0000000" by code_simp
  have s: "pc_memory 0xC0109010 = 0x52" by code_simp
  have only: "p = 0xC00F0000" if p: "p \<in> set (root_places pc_memory)" "?P p" for p
  proof -
    have "pc_memory (0xC0109010 + of_nat 0) = pc_memory (p + of_nat 0)"
      using p(2) unfolding same_root_sign_def by (rule allE [of _ 0]) simp
    then have "pc_memory p = 0x52" using s by simp
    then have "p \<in> {0xC00F0000, 0xC00F0006, 0xC0109010, 0xC0109016}"
      by (auto simp: pc_memory_def pc_map_def root_sign_def pc_tables_def split: if_splits)
    moreover have "(\<exists>k < 64. unat p = 0xC0000000 + 16 * k) \<or> (\<exists>k < 0x2000. unat p = 0xC00E0000 + 16 * k)"
      using p(1) unfolding root_places_def ebda paragraphs_def
      by (auto simp: unat_word_ariths unat_of_nat take_bit_nat_eq_self)
    ultimately show ?thesis by auto presburger+
  qed
  have "0xC00F0000 = 0xC00E0000 + 16 * (of_nat 0x1000 :: u32)" by simp
  then have "0xC00F0000 \<in> set (root_places pc_memory)"
    unfolding root_places_def paragraphs_def set_append set_map
    by (intro UnI2 image_eqI [where x = "0x1000"]) simp_all
  then have "find ?P (root_places pc_memory) \<noteq> None" using at by (auto simp: find_None_iff)
  then obtain q where q: "find ?P (root_places pc_memory) = Some q" by blast
  then have "q \<in> set (root_places pc_memory) \<and> ?P q" by (auto simp: find_Some_iff)
  with only q show ?thesis by auto
qed

lemma pc_memory_madt:
  "madt_entries pc_memory 0xC0109000 pc_acpi 0xC00F3000 [0xC00F302C, 0xC00F3034, 0xC00F3040]"
  "apic_ready pc_memory 0xC00F3000 [0xC00F302C, 0xC00F3034, 0xC00F3040] bare_apic"
  "filter (of_type pc_memory MADT_IO_APIC) [0xC00F302C, 0xC00F3034, 0xC00F3040] = [0xC00F3034]"
  "isa_overrides pc_memory [0xC00F302C, 0xC00F3034, 0xC00F3040] = [\<lparr>cfg_flags = HWIRQ_RISING, cfg_isa = 0, cfg_gsi = 2\<rparr>]"
  "local_ids pc_memory [0xC00F302C, 0xC00F3034, 0xC00F3040] = [0]"
proof -
  have "acpi_available pc_acpi" "acpi_table_find pc_memory 0xC0109000 pc_acpi = Inr 0xC00F3000"
    "table_length pc_memory 0xC00F3000 = 74"
    "entries_at pc_memory 0xC00F302C 0xC00F304A [0xC00F302C, 0xC00F3034, 0xC00F3040]" by code_simp+
  then show "madt_entries pc_memory 0xC0109000 pc_acpi 0xC00F3000 [0xC00F302C, 0xC00F3034, 0xC00F3040]"
    unfolding madt_entries_def SIZEOF_MADT_def by (simp del: entries_at.simps)
  show io: "filter (of_type pc_memory MADT_IO_APIC) [0xC00F302C, 0xC00F3034, 0xC00F3040] = [0xC00F3034]"
    by code_simp
  have "high_paddr (madt_lapic_paddr pc_memory 0xC00F3000)" "high_paddr (io_apic_paddr pc_memory 0xC00F3034)"
    by code_simp+
  then show "apic_ready pc_memory 0xC00F3000 [0xC00F302C, 0xC00F3034, 0xC00F3040] bare_apic"
    unfolding apic_ready_def io using sample_kmap_inv(1) by (simp add: bare_apic_def sample_kmap_def)
  show "isa_overrides pc_memory [0xC00F302C, 0xC00F3034, 0xC00F3040] = [\<lparr>cfg_flags = HWIRQ_RISING, cfg_isa = 0, cfg_gsi = 2\<rparr>]"
    "local_ids pc_memory [0xC00F302C, 0xC00F3034, 0xC00F3040] = [0]" by code_simp+
qed

lemma pc_firmware_ok: "firmware_ok sample_image pc_memory bare_apic"
proof -
  let ?hs = "[0xC00F302C, 0xC00F3034, 0xC00F3040] :: u32 list"
  define as where "as = io_apics_of pc_memory (ap_regs bare_apic) (km_top (ap_kmap bare_apic)) [0xC00F3034]"
  have "io_apic_gsi_base pc_memory 0xC00F3034 = 0" by code_simp
  then have as: "as = [\<lparr>ia_iospace = kmap_addr 0x38000, ia_gsi = 0, ia_irqs = 24, ia_id = 0\<rparr>]"
    by (simp add: as_def io_apics_of_def io_apic_of_def bare_apic_def sample_kmap_def)
  have "server as 1 = Some 0" "server as 2 = Some 0" by (simp_all add: as server_def serves_def)
  then have "\<forall>c \<in> set (isa_cfgs pc_memory ?hs). routable as c"
    by (auto simp: isa_cfgs_def pc_memory_madt(4) routable_def isa_default_def word_less_nat_alt unat_of_nat
        take_bit_nat_eq_self simp del: upt_Suc)
  moreover have "\<lparr>ac_rsdp = 0xC00F0000, ac_rsdt = virt_addr (rsdp_rsdt_paddr pc_memory 0xC00F0000)\<rparr> = pc_acpi"
    by code_simp
  ultimately show ?thesis using pc_memory_root pc_memory_madt unfolding firmware_ok_def as_def
    by (intro conjI exI [of _ "0xC00F0000"] exI [of _ "0xC00F3000"] exI [of _ ?hs])
      (simp_all add: sample_image_def bare_apic_def sample_apic_def)
qed

text \<open>The array of 32736 page structures does not fit below 1 MB; it is placed behind the kernel image.\<close>

lemma pc_ranges:
  "Bootmem.live (bm_memory (memory_taken (im_begin sample_image) (im_end sample_image) pc_regions)) =
     [\<lparr>rg_begin = 0, rg_end = 0x9FC00\<rparr>, \<lparr>rg_begin = 0x100000, rg_end = 0x7FE0000\<rparr>]" (is ?mem)
  "Bootmem.live (bm_reserved (memory_taken (im_begin sample_image) (im_end sample_image) pc_regions)) =
     [\<lparr>rg_begin = 0xF0000, rg_end = 0x180000\<rparr>]" (is ?res)
  "bm_size (bm_reserved (memory_taken (im_begin sample_image) (im_end sample_image) pc_regions)) \<noteq>
     bm_capacity (bm_reserved (memory_taken (im_begin sample_image) (im_end sample_image) pc_regions))" (is ?room)
proof -
  let ?low = "snd (boot_mem_add_range empty_type 0 0x9FC00)"
  let ?m = "snd (boot_mem_add_range ?low 0x100000 0x7FE0000)"
  let ?bios = "snd (boot_mem_add_range empty_type 0xF0000 0x100000)"
  let ?r = "snd (boot_mem_add_range ?bios 0x100000 0x180000)"
  have low: "shows_ranges ?low [\<lparr>rg_begin = 0, rg_end = 0x9FC00\<rparr>]"
    using shows_add [OF shows_empty, of 0 "0x9FC00"] by (simp add: add_ranges_def BOOT_MEM_RANGES_def)
  have m: "shows_ranges ?m [\<lparr>rg_begin = 0, rg_end = 0x9FC00\<rparr>, \<lparr>rg_begin = 0x100000, rg_end = 0x7FE0000\<rparr>]"
    using shows_add [OF low, of "0x100000" "0x7FE0000"]
    by (simp add: add_ranges_def BOOT_MEM_RANGES_def boot_mem_overlap_def boot_mem_merge_def minu_def maxu_def)
  have bios: "shows_ranges ?bios [\<lparr>rg_begin = 0xF0000, rg_end = 0x100000\<rparr>]"
    using shows_add [OF shows_empty, of "0xF0000" "0x100000"] by (simp add: add_ranges_def BOOT_MEM_RANGES_def)
  have r: "shows_ranges ?r [\<lparr>rg_begin = 0xF0000, rg_end = 0x180000\<rparr>]"
    using shows_add [OF bios, of "0x100000" "0x180000"]
    by (simp add: add_ranges_def BOOT_MEM_RANGES_def boot_mem_overlap_def boot_mem_merge_def minu_def maxu_def)
  have "memory_taken (im_begin sample_image) (im_end sample_image) pc_regions = \<lparr>bm_memory = ?m, bm_reserved = ?r\<rparr>"
    by (simp add: sample_image_def memory_taken_def pc_regions_def take_region_def usable_def region_end_def
        MULTIBOOT_AVAILABLE_def boot_mem_add_def boot_mem_reserve_def boot_mem_init_def phys_addr_def PAGE_OFFSET_def
        case_prod_beta)
  then show ?mem ?res ?room using m r shows_not_full [OF r] by (simp_all add: shows_ranges_def BOOT_MEM_RANGES_def)
qed

lemma pc_room: "memory_room (im_begin sample_image) (im_end sample_image) pc_regions"
  unfolding memory_room_def array_room_def pc_ranges(1,2) pc_memory_regions(3)
  using pc_ranges(3) by (intro conjI exI [of _ "0x180000"]) (simp_all add: placed_def clear_def)

lemma pc_spare: "first_pages_spare sample_image pc_regions"
  unfolding first_pages_spare_def Let_def pc_ranges pc_memory_regions(3)
  by (auto simp: placed_def clear_def)

subsection \<open>Properties\<close>

text \<open>
  C19: \<open>setup_arch\<close> up to the drivers that depend on the firmware's tables. From the static data of the
  kernel and a memory map as the boot loader documents it, it stops at the assertion on the page
  array, which it does only when the map leaves no room for that array beside the kernel image, or
  reaches \<open>setup_acpi\<close> with: both consoles registered, flat segments, every gate leading to its stub, all lines of the 8259A masked, the page allocator's invariant with all frames from 1 on
  free, the running code as the swapper task. What follows can stop or not return, but when it returns
  it has left all this as it was and put the APIC in charge of interrupts; and it does return, with a
  line for every ISA interrupt, when the firmware's tables are as \<open>firmware_ok\<close> says.
\<close>

theorem setup_arch_boots:
  assumes "fresh_machine mc" and "4096 \<le> memory_size rs" and "apart_regions rs"
    and "mmap_at (mc_memory mc) (mbi_mmap_addr (mc_memory mc) mbi)
      (mbi_mmap_addr (mc_memory mc) mbi + mbi_mmap_length (mc_memory mc) mbi) rs"
  shows "setup_arch im mbi mc = Some (Inl (Panic ''alloc_page_array: allocation failed'')) \<and>
      \<not> memory_room (im_begin im) (im_end im) rs \<or>
    (\<exists>m5 A. setup_arch im mbi mc = bind_run (boot_acpi im m5) (boot_apic im) \<and>
      A = memory_kept (im_begin im) (im_end im) rs \<and> booted A m5 \<and>
      frames ZONE_NORMAL (tk_pages (mc_tasks m5)) = {0 ..< min (memory_size rs div 4096) 0x38000} \<and>
      frames ZONE_HIGH (tk_pages (mc_tasks m5)) = {min (memory_size rs div 4096) 0x38000 ..< memory_size rs div 4096} \<and>
      tables_ok im m5 \<and> mc_chip m5 = Some Chip_i8259a \<and> pic_masked (pic_of m5) = (\<lambda>l. l < 16) \<and>
      tk_regs (mc_tasks m5) = tk_regs (mc_tasks mc) \<and>
      (\<forall>m6. setup_arch im mbi mc = Some (Inr m6) \<longrightarrow> booted A m6 \<and> tables_ok im m6 \<and>
        tk_pages (mc_tasks m6) = tk_pages (mc_tasks m5) \<and>
        mc_chip m6 = Some Chip_apic \<and> pic_masked (pic_of m6) = (\<lambda>l. l < 16)) \<and>
      (firmware_ok im (mc_memory mc) (mc_apic mc) \<longrightarrow>
        (\<exists>m6. setup_arch im mbi mc = Some (Inr m6) \<and> (\<forall>irq < 16. apic_line (mc_apic m6) irq \<noteq> None))))"
  using setup_arch_result [OF assms, of im] by blast

theorem setup_arch_boots_witness:
  "\<exists>m6. setup_arch sample_image 0x9000 sample_reset = Some (Inr m6) \<and> booted {(0, 0)} m6 \<and>
      mc_chip m6 = Some Chip_apic \<and> apic_line (mc_apic m6) 7 \<noteq> None"
proof -
  have m: "mc_memory sample_reset = pc_memory" "mc_apic sample_reset = bare_apic"
    by (simp_all add: sample_reset_def)
  have size: "4096 \<le> memory_size pc_regions" by (simp add: pc_memory_regions(3))
  from setup_arch_boots [OF sample_fresh size pc_memory_regions(2), of "0x9000" sample_image, unfolded m,
      OF pc_memory_regions(1)] pc_firmware_ok
  show ?thesis
  proof (elim disjE exE conjE)
    fix m5 A
    assume a: "A = memory_kept (im_begin sample_image) (im_end sample_image) pc_regions"
      and "firmware_ok sample_image pc_memory bare_apic"
      and "firmware_ok sample_image pc_memory bare_apic \<longrightarrow>
        (\<exists>m6. setup_arch sample_image 0x9000 sample_reset = Some (Inr m6) \<and> (\<forall>irq < 16. apic_line (mc_apic m6) irq \<noteq> None))"
      and late: "\<forall>m6. setup_arch sample_image 0x9000 sample_reset = Some (Inr m6) \<longrightarrow>
        booted A m6 \<and> tables_ok sample_image m6 \<and> tk_pages (mc_tasks m6) = tk_pages (mc_tasks m5) \<and>
        mc_chip m6 = Some Chip_apic \<and> pic_masked (pic_of m6) = (\<lambda>l. l < 16)"
    then obtain m6 where m6: "setup_arch sample_image 0x9000 sample_reset = Some (Inr m6)"
      "\<forall>irq < 16. apic_line (mc_apic m6) irq \<noteq> None" by blast
    moreover from m6(2) have "apic_line (mc_apic m6) 7 \<noteq> None" by simp
    moreover have "A = {(0, 0)}" using a spare_kept [OF pc_spare] by simp
    ultimately show ?thesis using late by blast
  qed (use pc_room in blast)
qed

text \<open>
  C4: the whole boot. The conditions: the static data of the kernel, a memory map as the boot loader
  documents it with at least four pages of usable memory and room for the page array, firmware tables
  as above, the kernel image behind the first four pages with the stack of the boot in it, and the
  first four pages spare (\<open>first_pages_spare\<close>). Then \<open>start_kernel\<close> reaches its loop: the report counts
  every frame of the two zones but frame 0 as free, the new task owns frames 2 and 3, which are apart
  from the page array and from the kernel image, nothing but it and frame 0 is handed out, the APIC is
  in charge and has a line for every ISA interrupt, the 8259A is masked. From then on every call of
  \<open>schedule\<close> returns and the swapper and the new task, which starts at \<open>init\<close>, alternate.
\<close>

theorem start_kernel_runs:
  assumes "fresh_machine mc" and "16384 \<le> memory_size rs" and "apart_regions rs"
    and "mmap_at (mc_memory mc) (mbi_mmap_addr (mc_memory mc) mbi)
      (mbi_mmap_addr (mc_memory mc) mbi + mbi_mmap_length (mc_memory mc) mbi) rs"
    and "firmware_ok im (mc_memory mc) (mc_apic mc)" and "n = memory_size rs div 4096"
    and "memory_room (im_begin im) (im_end im) rs" and "first_pages_spare im rs"
    and "0xC0004000 \<le> im_begin im" and "im_begin im \<le> current_task (mc_tasks mc)"
  shows "\<exists>rn rh mc'. start_kernel im mbi mc = Some (Inr (rn @ rh, mc')) \<and>
    sum_list (map counted rn) = min n 0x38000 - 1 \<and> sum_list (map counted rh) = n - min n 0x38000 \<and>
    owns {ZONE_NORMAL, ZONE_HIGH} (tk_pages (mc_tasks mc')) {(2, 1), (0, 0)} \<and>
    array_at (memory_taken (im_begin im) (im_end im) rs) n (nd_pages (tk_pages (mc_tasks mc'))) \<and>
    0xC0004000 \<le> nd_pages (tk_pages (mc_tasks mc')) \<and>
    mc_chip mc' = Some Chip_apic \<and> (\<forall>irq < 16. apic_line (mc_apic mc') irq \<noteq> None) \<and>
    pic_masked (pic_of mc') = (\<lambda>l. l < 16) \<and>
    cx_eip (saved_regs (mc_tasks mc') 0xC0002000) = im_init im \<and>
    (\<forall>i k. sched_runs i (mc_tasks mc') k \<longrightarrow> (\<exists>k'. schedule k = Inr k') \<and>
      current_task k = (if even i then current_task (mc_tasks mc) else 0xC0002000))"
proof -
  have "4096 \<le> memory_size rs" using assms(2) by simp
  from setup_arch_result [OF assms(1) this assms(3,4), of im] show ?thesis
  proof (elim disjE exE conjE)
    fix m5 A
    assume A: "A = memory_kept (im_begin im) (im_end im) rs"
      and f0: "frames ZONE_NORMAL (tk_pages (mc_tasks m5)) = {0 ..< min (memory_size rs div 4096) 0x38000}"
        "frames ZONE_HIGH (tk_pages (mc_tasks m5)) = {min (memory_size rs div 4096) 0x38000 ..< memory_size rs div 4096}"
      and regs: "tk_regs (mc_tasks m5) = tk_regs (mc_tasks mc)"
      and late: "\<forall>m6. setup_arch im mbi mc = Some (Inr m6) \<longrightarrow>
        booted A m6 \<and> tables_ok im m6 \<and> tk_pages (mc_tasks m6) = tk_pages (mc_tasks m5) \<and>
        mc_chip m6 = Some Chip_apic \<and> pic_masked (pic_of m6) = (\<lambda>l. l < 16)"
      and ret: "firmware_ok im (mc_memory mc) (mc_apic mc) \<longrightarrow>
        (\<exists>m6. setup_arch im mbi mc = Some (Inr m6) \<and> (\<forall>irq < 16. apic_line (mc_apic m6) irq \<noteq> None))"
      and tasks: "\<forall>m6. setup_arch im mbi mc = Some (Inr m6) \<longrightarrow> mc_tasks m6 = mc_tasks m5"
      and at0: "array_at (memory_taken (im_begin im) (im_end im) rs) (memory_size rs div 4096)
        (nd_pages (tk_pages (mc_tasks m5)))"
    note f = f0 [folded assms(6)] and at = at0 [folded assms(6)]
    from ret assms(5) obtain m6 where m6: "setup_arch im mbi mc = Some (Inr m6)"
      "\<forall>irq < 16. apic_line (mc_apic m6) irq \<noteq> None" by blast
    with late tasks have b: "booted {(0, 0)} m6" "mc_tasks m6 = mc_tasks m5" "mc_chip m6 = Some Chip_apic"
      "pic_masked (pic_of m6) = (\<lambda>l. l < 16)" unfolding A spare_kept [OF assms(8)] by blast+
    have n: "4 \<le> n" "min n 0x38000 mod 4 < 2"
      using assms(2,6,8) by (simp_all add: first_pages_spare_def Let_def)
    have cur: "current_task (mc_tasks m6) = current_task (mc_tasks mc)" using regs b(2) by (simp add: current_task_def)
    have "0xC0004000 \<le> current_task (mc_tasks m6)" unfolding cur using assms(9,10) by (rule order.trans)
    from start_first_task [OF b(1) f [folded b(2)] n this, of im] obtain rn rh k where
      s: "start_tasks im m6 = Some (Inr (rn @ rh, m6\<lparr>mc_tasks := k\<rparr>))"
        "sum_list (map counted rn) = min n 0x38000 - 1" "sum_list (map counted rh) = n - min n 0x38000"
        "owns {ZONE_NORMAL, ZONE_HIGH} (tk_pages k) {(2, 1), (0, 0)}"
        "nd_pages (tk_pages k) = nd_pages (tk_pages (mc_tasks m6))" "cx_eip (saved_regs k 0xC0002000) = im_init im"
        "\<forall>i k'. sched_runs i k k' \<longrightarrow> (\<exists>k''. schedule k' = Inr k'') \<and>
          current_task k' = (if even i then current_task (mc_tasks m6) else 0xC0002000)" by blast
    have "start_kernel im mbi mc = Some (Inr (rn @ rh, m6\<lparr>mc_tasks := k\<rparr>))"
      by (simp add: start_kernel_def m6(1) s(1))
    then show ?thesis using s(2-7) m6(2) b at spare_array [OF assms(8) at0] cur
      by - (rule exI [of _ rn], rule exI [of _ rh], rule exI [of _ "m6\<lparr>mc_tasks := k\<rparr>"], simp add: pic_of_def)
  qed (use assms(7) in blast)
qed

theorem start_kernel_runs_witness:
  "\<exists>rn rh mc'. start_kernel sample_image 0x9000 sample_reset = Some (Inr (rn @ rh, mc')) \<and>
      sum_list (map counted rn) = 32735 \<and> mc_chip mc' = Some Chip_apic \<and>
      (\<forall>k. sched_runs 3 (mc_tasks mc') k \<longrightarrow> current_task k = 0xC0002000) \<and>
      (\<forall>k. sched_runs 4 (mc_tasks mc') k \<longrightarrow> current_task k = 0xC0124000)"
proof -
  have m: "mc_memory sample_reset = pc_memory" "mc_apic sample_reset = bare_apic"
    by (simp_all add: sample_reset_def)
  have size: "16384 \<le> memory_size pc_regions" "32736 = memory_size pc_regions div 4096"
    by (simp_all add: pc_memory_regions(3))
  have im: "0xC0004000 \<le> im_begin sample_image" "im_begin sample_image \<le> current_task (mc_tasks sample_reset)"
    by (simp_all add: sample_stack sample_image_def)
  from start_kernel_runs [OF sample_fresh size(1) pc_memory_regions(2), of "0x9000" sample_image, unfolded m,
      OF pc_memory_regions(1) pc_firmware_ok size(2) pc_room pc_spare im]
  obtain rn rh mc' where "start_kernel sample_image 0x9000 sample_reset = Some (Inr (rn @ rh, mc'))"
    "sum_list (map counted rn) = min 32736 0x38000 - 1" "mc_chip mc' = Some Chip_apic"
    "\<forall>i k. sched_runs i (mc_tasks mc') k \<longrightarrow> (\<exists>k'. schedule k = Inr k') \<and>
      current_task k = (if even i then 0xC0124000 else 0xC0002000)"
    unfolding sample_stack by blast
  then show ?thesis by - (rule exI [of _ rn], rule exI [of _ rh], rule exI [of _ mc'], simp)
qed

end
