(* ===== verification/Hw_Devices.thy ===== *)
theory Hw_Devices
  imports Irq
begin

text \<open>
  The device code of the exercises: the interrupt controllers (\<open>hw3/pic.c\<close>, the same text as
  \<open>hw2/pic.c\<close>), the timer (\<open>hw2/pit.c\<close>, the first part of \<open>hw3/time.c\<close>) and the descriptor tables
  (\<open>gdt.c\<close>, the same in both, and \<open>idt.c\<close>). The controllers are the kernel's 8259A pair driven a
  little differently, and they meet the same contract: \<open>irq_controller\<close> is interpreted on them too.
\<close>

subsection \<open>The interrupt controllers\<close>

definition hw_PIC_OFFSET :: u32 where "hw_PIC_OFFSET = 0x20"
definition hw_PIC_IRQS :: u32 where "hw_PIC_IRQS = 8"

definition hw_pic_remap :: "u32 \<Rightarrow> pic \<Rightarrow> pic" where
  "hw_pic_remap offset st =
     (let s1 = pic_out 0x20 (BITU 0 OR BITU 4) st;
          s2 = pic_out 0xA0 (BITU 0 OR BITU 4) s1;
          s3 = pic_out 0x21 offset s2;
          s4 = pic_out 0xA1 (offset + hw_PIC_IRQS) s3;
          s5 = pic_out 0x21 (BITU 2) s4;
          s6 = pic_out 0xA1 2 s5;
          s7 = pic_out 0x21 (BITU 0) s6;
          s8 = pic_out 0xA1 (BITU 0) s7;
          s9 = pic_out 0x21 (pic_irq_mask s8 AND 0xFF) s8
      in pic_out 0xA1 (drop_bit 8 (pic_irq_mask s9) AND 0xFF) s9)"

definition hw_pic_setup :: "pic \<Rightarrow> pic" where
  "hw_pic_setup st = hw_pic_remap hw_PIC_OFFSET st"

text \<open>The number is a signed \<open>int\<close> that the comparison with an unsigned constant converts.\<close>

definition hw_pic_mask :: "u32 \<Rightarrow> pic \<Rightarrow> pic" where
  "hw_pic_mask irq st =
     (let mask = BITU (unat irq)
      in if mask AND pic_irq_mask st \<noteq> 0 then st
         else
           (let st1 = st\<lparr>pic_irq_mask := pic_irq_mask st OR BITU (unat irq)\<rparr>
            in if irq < hw_PIC_IRQS then pic_out 0x21 (pic_irq_mask st1 AND 0xFF) st1
               else pic_out 0xA1 (drop_bit (unat hw_PIC_IRQS) (pic_irq_mask st1) AND 0xFF) st1))"

definition hw_pic_unmask :: "u32 \<Rightarrow> pic \<Rightarrow> pic" where
  "hw_pic_unmask irq st =
     (let mask = BITU (unat irq)
      in if \<not> mask AND pic_irq_mask st \<noteq> 0 then st
         else
           (let st1 = st\<lparr>pic_irq_mask := pic_irq_mask st AND NOT mask\<rparr>
            in if irq < hw_PIC_IRQS then pic_out 0x21 (pic_irq_mask st1 AND 0xFF) st1
               else pic_out 0xA1 (drop_bit (unat hw_PIC_IRQS) (pic_irq_mask st1) AND 0xFF) st1))"

definition hw_pic_eoi :: "u32 \<Rightarrow> pic \<Rightarrow> pic" where
  "hw_pic_eoi irq st =
     (if irq < hw_PIC_IRQS then pic_out 0x20 (0x60 + irq) st
      else
        (let s1 = pic_out 0xA0 (0x60 + (irq AND (hw_PIC_IRQS - 1))) st
         in pic_out 0x20 (0x60 + 2) s1))"

text \<open>The functions as a controller; there is no set-up of a single interrupt.\<close>

definition hw_pic_chip :: "pic irqchip" where
  "hw_pic_chip = \<lparr>ic_setup = None, ic_mask = Some (\<lambda>irq st. Inr (hw_pic_mask irq st)),
     ic_unmask = Some (\<lambda>irq st. Inr (hw_pic_unmask irq st)), ic_eoi = Some (\<lambda>irq st. Inr (hw_pic_eoi irq st))\<rparr>"

text \<open>Against the kernel's driver: the same set-up and the same end of interrupt; a mask is written
  only when it changes.\<close>

lemma hw_pic_setup_eq: "hw_pic_setup = pic_remap HW_INTERRUPT_OFFSET"
  by (simp add: fun_eq_iff hw_pic_setup_def hw_pic_remap_def pic_remap_def Let_def pic_defs hw_PIC_OFFSET_def
      HW_INTERRUPT_OFFSET_def hw_PIC_IRQS_def)

lemma hw_pic_eoi_eq: "hw_pic_eoi = pic_eoi"
  by (auto simp: fun_eq_iff hw_pic_eoi_def pic_eoi_def Let_def pic_defs hw_PIC_IRQS_def)

lemma bit_test:
  "i < 32 \<Longrightarrow> (push_bit i 1 AND (w :: u32) = 0) \<longleftrightarrow> \<not> bit w i"
  by (simp only: and_exp_eq_0_iff_not_bit [symmetric] push_bit_eq_mult mult_1 ac_simps)

lemma hw_pic_mask_eq:
  assumes "irq < 16"
  shows "hw_pic_mask irq st = (if bit (pic_irq_mask st) (unat irq) then st else pic_mask irq st)"
    and "hw_pic_unmask irq st = (if bit (pic_irq_mask st) (unat irq) then pic_unmask irq st else st)"
proof -
  have "unat irq < 32" using assms by (simp add: word_less_nat_alt)
  note t = bit_test [OF this]
  show "hw_pic_mask irq st = (if bit (pic_irq_mask st) (unat irq) then st else pic_mask irq st)"
    "hw_pic_unmask irq st = (if bit (pic_irq_mask st) (unat irq) then pic_unmask irq st else st)"
    by (auto simp: hw_pic_mask_def hw_pic_unmask_def pic_mask_def pic_unmask_def pic_write_mask_def Let_def
        BITU_def t t [simplified] hw_PIC_IRQS_def pic_defs(1-4))
qed

interpretation hw_pics: irq_controller hw_pic_chip pic_ok pic_line pic_masked
proof
  fix st i l assume "pic_ok st" "pic_line st i = Some l"
  then have a: "pic_ok st" "i < 16" "l = unat i" by (auto simp: pic_line_def split: if_splits)
  note m = pic_mask_ok [OF a(1,2)] and e = pic_eoi_ok [OF a(1)]
  have l: "unat i < 16" using a(2) by (simp add: word_less_nat_alt)
  have same: "bit (pic_irq_mask st) (unat i) \<Longrightarrow> (pic_masked st)(unat i := True) = pic_masked st"
    "\<not> bit (pic_irq_mask st) (unat i) \<Longrightarrow> (pic_masked st)(unat i := False) = pic_masked st"
    using l by (auto simp: fun_eq_iff pic_masked_bits [OF a(1)])
  show "\<exists>st'. irqchip_mask (Some hw_pic_chip) i st = Inr st' \<and> pic_ok st' \<and> pic_line st' = pic_line st \<and>
      pic_masked st' = (pic_masked st)(l := True)"
    using m(1,2) same(1) a(1,3) by (simp add: irqchip_defs hw_pic_chip_def hw_pic_mask_eq [OF a(2)] pic_line_def fun_eq_iff)
  show "\<exists>st'. irqchip_unmask (Some hw_pic_chip) i st = Inr st' \<and> pic_ok st' \<and> pic_line st' = pic_line st \<and>
      pic_masked st' = (pic_masked st)(l := False)"
    using m(3,4) same(2) a(1,3) by (simp add: irqchip_defs hw_pic_chip_def hw_pic_mask_eq [OF a(2)] pic_line_def fun_eq_iff)
  show "\<exists>st'. irqchip_eoi (Some hw_pic_chip) i st = Inr st' \<and> pic_ok st' \<and> pic_line st' = pic_line st \<and>
      pic_masked st' = pic_masked st"
    using e by (simp add: irqchip_defs hw_pic_chip_def hw_pic_eoi_eq pic_line_def fun_eq_iff)
qed

text \<open>
  Two states that the drivers are not told apart by: the same mask register, chips that hold it, the
  same commands sent.
\<close>

definition pic_like :: "pic \<Rightarrow> pic \<Rightarrow> bool" where
  "pic_like s t \<longleftrightarrow> pic_ok s \<and> pic_ok t \<and> pic_irq_mask s = pic_irq_mask t \<and>
     (\<forall>p \<in> {0x20, 0xA0}. written p (pt_log (pic_ports s)) = written p (pt_log (pic_ports t)))"

lemma pic_like_masked: "pic_like s t \<Longrightarrow> pic_masked s = pic_masked t"
  by (simp add: pic_like_def fun_eq_iff pic_masked_bits)

lemma pic_like_call:
  assumes "pic_like s t" and "irq_of c < 16"
  shows "\<exists>s' t'. irq_calls (Some hw_pic_chip) (c # cs) s = irq_calls (Some hw_pic_chip) cs s' \<and>
    irq_calls (Some i8259a) (c # cs) t = irq_calls (Some i8259a) cs t' \<and> pic_like s' t'"
proof -
  from assms(1) have ok: "pic_ok s" "pic_ok t" and eq: "pic_irq_mask s = pic_irq_mask t" by (simp_all add: pic_like_def)
  note calls = irqchip_defs hw_pic_chip_def i8259a_def
  show ?thesis
  proof (cases c)
    case (Mask i)
    with assms(2) have i: "i < 16" by simp
    have set: "w OR BITU (unat i) = w" if "bit w (unat i)" for w :: u32
      using that by (intro bit_word_eqI) (auto simp: BITU_def bit_simps)
    have "pic_like (hw_pic_mask i s) (pic_mask i t)"
      using assms(1) pic_mask_ok(1,2) [OF ok(1) i] pic_mask_ok(1,2) [OF ok(2) i] set eq
      by (auto simp: pic_like_def hw_pic_mask_eq [OF i] pic_mask_def pic_write_mask_def pic_out_def pic_defs)
    then show ?thesis by (auto simp: Mask calls)
  next
    case (Unmask i)
    with assms(2) have i: "i < 16" by simp
    have clear: "w AND NOT (BITU (unat i)) = w" if "\<not> bit w (unat i)" for w :: u32
      using that by (intro bit_word_eqI) (auto simp: BITU_def bit_simps)
    have "pic_like (hw_pic_unmask i s) (pic_unmask i t)"
      using assms(1) pic_mask_ok(3,4) [OF ok(1) i] pic_mask_ok(3,4) [OF ok(2) i] clear eq
      by (auto simp: pic_like_def hw_pic_mask_eq [OF i] pic_unmask_def pic_write_mask_def pic_out_def pic_defs)
    then show ?thesis by (auto simp: Unmask calls)
  next
    case (Eoi i)
    have "pic_like (pic_eoi i s) (pic_eoi i t)"
      using assms(1) pic_eoi_ok(1) [OF ok(1), of i] pic_eoi_ok(1) [OF ok(2), of i]
      by (auto simp: pic_like_def pic_eoi_def pic_out_def pic_defs Let_def)
    then show ?thesis by (auto simp: Eoi calls hw_pic_eoi_eq)
  qed
qed

lemma pic_like_calls:
  "pic_like s t \<Longrightarrow> \<forall>c\<in>set cs. irq_of c < 16 \<Longrightarrow>
    \<exists>s' t'. irq_calls (Some hw_pic_chip) cs s = Inr s' \<and> irq_calls (Some i8259a) cs t = Inr t' \<and> pic_like s' t'"
proof (induction cs arbitrary: s t)
  case (Cons c cs)
  from pic_like_call [OF Cons.prems(1), of c cs] Cons.prems(2) obtain s1 t1 where
    "irq_calls (Some hw_pic_chip) (c # cs) s = irq_calls (Some hw_pic_chip) cs s1"
    "irq_calls (Some i8259a) (c # cs) t = irq_calls (Some i8259a) cs t1" "pic_like s1 t1" by auto
  with Cons.IH [OF this(3)] Cons.prems(2) show ?case by auto
qed simp

text \<open>
  C39: the interrupt controller drivers of the exercises and of the kernel are interchangeable. They
  initialise the chips with the same bytes, and after any history of mask, unmask and end-of-interrupt
  calls for lines 0 to 15 both hold the same mask register, the chips mask the same lines and have been
  sent the same commands; the exercises' driver only leaves out writes that change no mask.
\<close>

theorem hw_pic_like_i8259a:
  assumes "setup_i8259a (None, st) = (chip, st1)" and "\<forall>c\<in>set cs. irq_of c < 16"
  shows "hw_pic_setup st = st1 \<and>
    (\<exists>s t. irq_calls (Some hw_pic_chip) cs (hw_pic_setup st) = Inr s \<and> irq_calls chip cs st1 = Inr t \<and>
      pic_irq_mask s = pic_irq_mask t \<and> pic_masked s = pic_masked t \<and>
      (\<forall>p \<in> {0x20, 0xA0}. written p (pt_log (pic_ports s)) = written p (pt_log (pic_ports t))))"
proof -
  have st1: "hw_pic_setup st = st1" "chip = Some i8259a"
    using assms(1) by (auto simp: setup_i8259a_def irqchip_register_def hw_pic_setup_eq)
  have "pic_ok st1" unfolding st1(1) [symmetric] hw_pic_setup_eq
    by (simp add: pic_ok_def pic_remap_def Let_def chip_mask_out pic_defs byte_of_masked)
  then have "pic_like st1 st1" by (simp add: pic_like_def)
  from pic_like_calls [OF this assms(2)] obtain s t where "irq_calls (Some hw_pic_chip) cs st1 = Inr s"
    "irq_calls (Some i8259a) cs st1 = Inr t" "pic_like s t" by blast
  then show ?thesis using st1 pic_like_masked [of s t] by (auto simp: pic_like_def)
qed

theorem hw_pic_like_i8259a_witness:
  "\<exists>s. irq_calls (Some hw_pic_chip) [Unmask 4, Unmask 4, Eoi 12, Mask 4]
      (hw_pic_setup \<lparr>pic_irq_mask = 0xFFFF, pic_ports = \<lparr>pt_log = [], pt_device = \<lambda>_ _. 0\<rparr>\<rparr>) = Inr s"
proof -
  let ?st = "\<lparr>pic_irq_mask = 0xFFFF, pic_ports = \<lparr>pt_log = [], pt_device = \<lambda>_ _. 0\<rparr>\<rparr>"
  obtain chip st1 where s: "setup_i8259a (None, ?st) = (chip, st1)" by (rule prod.exhaust)
  have "\<forall>c\<in>set [Unmask 4, Unmask 4, Eoi 12, Mask 4]. irq_of c < 16" by simp
  from hw_pic_like_i8259a [OF s this] show ?thesis by blast
qed

subsection \<open>The timer\<close>

definition PIT_CH0 :: u32 where "PIT_CH0 = 0"
definition PIT_CH1 :: u32 where "PIT_CH1 = push_bit 6 1"
definition PIT_CH2 :: u32 where "PIT_CH2 = push_bit 7 1"
definition PIT_LOBYTE :: u32 where "PIT_LOBYTE = push_bit 4 1"
definition PIT_HIBYTE :: u32 where "PIT_HIBYTE = push_bit 5 1"
definition PIT_RATE :: u32 where "PIT_RATE = push_bit 2 1"

lemmas pit_defs = PIT_CH0_def PIT_CH1_def PIT_CH2_def PIT_LOBYTE_def PIT_HIBYTE_def PIT_RATE_def

definition pit_write_cmd :: "u8 \<Rightarrow> ports \<Rightarrow> ports" where
  "pit_write_cmd cmd w = out8 0x43 cmd w"

text \<open>Every channel gets the port of channel 0.\<close>

definition pit_data_port :: "u32 \<Rightarrow> u16" where
  "pit_data_port channel =
     (if channel = PIT_CH0 then 0x40 else if channel = PIT_CH1 then 0x40
      else if channel = PIT_CH2 then 0x40 else 0)"

definition pit_write_reload :: "u16 \<Rightarrow> u32 \<Rightarrow> u32 \<Rightarrow> ports \<Rightarrow> ports" where
  "pit_write_reload reload channel acc w =
     (let port = pit_data_port channel;
          w1 = (if acc AND PIT_LOBYTE \<noteq> 0 then out8 port (ucast (reload AND 0xFF)) w else w)
      in if acc AND PIT_HIBYTE \<noteq> 0 then out8 port (ucast (drop_bit 8 reload AND 0xFF)) w1 else w1)"

definition pit_set_rate :: "u32 \<Rightarrow> u16 \<Rightarrow> ports \<Rightarrow> ports" where
  "pit_set_rate channel reload w =
     (let acc = PIT_LOBYTE OR PIT_HIBYTE;
          w1 = pit_write_cmd (ucast (channel OR acc OR PIT_RATE)) w
      in pit_write_reload reload channel acc w1)"

definition pit_get_reload :: "u32 \<Rightarrow> u32" where
  "pit_get_reload msecs = (msecs * 1193182) div 1000"

definition pit_set_channel0_rate :: "u32 \<Rightarrow> ports \<Rightarrow> ports" where
  "pit_set_channel0_rate msecs w = pit_set_rate PIT_CH0 (ucast (pit_get_reload msecs)) w"

lemma pit_set_rate_log:
  "pt_log (pit_set_rate PIT_CH0 reload w) =
    Out8 0x40 (ucast (drop_bit 8 reload)) # Out8 0x40 (ucast reload) # Out8 0x43 0x34 # pt_log w"
  "pt_device (pit_set_rate PIT_CH0 reload w) = pt_device w"
proof -
  have ff: "(0xFF :: u16) = mask 8" by (simp add: mask_eq_exp_minus_1)
  have b: "(ucast (reload AND 0xFF) :: u8) = ucast reload" for reload :: u16
    unfolding ff by (rule bit_word_eqI) (auto simp: bit_simps)
  show "pt_log (pit_set_rate PIT_CH0 reload w) =
      Out8 0x40 (ucast (drop_bit 8 reload)) # Out8 0x40 (ucast reload) # Out8 0x43 0x34 # pt_log w"
    "pt_device (pit_set_rate PIT_CH0 reload w) = pt_device w"
    by (simp_all add: pit_set_rate_def pit_write_cmd_def pit_write_reload_def pit_data_port_def pit_defs Let_def b)
qed

text \<open>
  The reload value is the 16 bits that the frequency of the channel needs for up to 54 milliseconds;
  from 55 on its upper bits are lost, and from 3600 on the product itself wraps.
\<close>

lemma pit_reload_exact:
  assumes "unat msecs \<le> 54"
  shows "unat (ucast (pit_get_reload msecs) :: u16) = unat msecs * 1193182 div 1000"
proof -
  have "unat (msecs * 1193182) = unat msecs * 1193182"
    using assms by (simp add: unat_word_ariths)
  then have u: "unat (pit_get_reload msecs) = unat msecs * 1193182 div 1000"
    by (simp add: pit_get_reload_def unat_div)
  also have "\<dots> < 2 ^ 16" using assms by simp
  finally show ?thesis using u by (simp add: unsigned_ucast_eq take_bit_nat_eq_self)
qed

lemma pit_reload_cut: "unat (ucast (pit_get_reload 55) :: u16) = 89" "pit_get_reload 55 = 65625"
  by (simp_all add: pit_get_reload_def)

end
