(* ===== verification/Hw_Screen.thy ===== *)
theory Hw_Screen
  imports Prelude
begin

text \<open>
  \<open>hw1/hello.c\<close>, \<open>hw2/stdio.c\<close> and \<open>hw3/stdio.c\<close>: the text screen of the exercises that precede the
  kernel, 24 rows of 80 cells in the memory from \<open>0xB8000\<close>, two bytes a cell. The cursor is a row and
  a column; the character cell is written at the cursor and a new row is cleared. The three files
  have the same \<open>newline\<close>, \<open>myputs\<close> and \<open>clrscr\<close>; \<open>hw3\<close> looks at one character more.
\<close>

subsection \<open>State and operations\<close>

record hw_screen =
  sc_mem :: "u32 \<Rightarrow> u8"
  sc_row :: u32
  sc_col :: u32

definition hw_rows :: u32 where "hw_rows = 24"
definition hw_cols :: u32 where "hw_cols = 80"
definition hw_attr :: u8 where "hw_attr = 7"
definition hw_video_mem :: u32 where "hw_video_mem = 0xB8000"

lemmas screen_values = hw_rows_def hw_cols_def hw_attr_def hw_video_mem_def

definition hw_put :: "u32 \<Rightarrow> u8 \<Rightarrow> hw_screen \<Rightarrow> hw_screen" where
  "hw_put off b s = s\<lparr>sc_mem := (sc_mem s)(hw_video_mem + off := b)\<rparr>"

fun clear_cells :: "nat \<Rightarrow> u32 \<Rightarrow> hw_screen \<Rightarrow> hw_screen" where
  "clear_cells 0 off s = s"
| "clear_cells (Suc n) off s = clear_cells n (off + 2) (hw_put (off + 1) hw_attr (hw_put off 32 s))"

definition hw_newline :: "hw_screen \<Rightarrow> hw_screen" where
  "hw_newline s =
     (let s1 = s\<lparr>sc_row := (sc_row s + 1) mod hw_rows\<rparr>;
          s2 = s1\<lparr>sc_col := 0\<rparr>
      in clear_cells (unat hw_cols) ((sc_col s2 + sc_row s2 * hw_cols) * 2) s2)"

definition put_cell :: "u8 \<Rightarrow> hw_screen \<Rightarrow> hw_screen" where
  "put_cell c s =
     (let off = (sc_col s + sc_row s * hw_cols) * 2;
          s1 = hw_put off c s;
          s2 = hw_put (off + 1) hw_attr s1;
          s3 = s2\<lparr>sc_col := sc_col s2 + 1\<rparr>
      in if sc_col s3 = hw_cols then hw_newline s3 else s3)"

definition hw_myputchar :: "u8 \<Rightarrow> hw_screen \<Rightarrow> hw_screen" where
  "hw_myputchar c s = (if c = 10 then hw_newline s else put_cell c s)"

text \<open>In \<open>hw3\<close> a carriage return does nothing: the code compares the column with 0.\<close>

definition hw3_myputchar :: "u8 \<Rightarrow> hw_screen \<Rightarrow> hw_screen" where
  "hw3_myputchar c s = (if c = 13 then s else if c = 10 then hw_newline s else put_cell c s)"

text \<open>A string is the bytes from its first on; the loop stops at the first zero.\<close>

fun puts_with :: "(u8 \<Rightarrow> hw_screen \<Rightarrow> hw_screen) \<Rightarrow> u8 list \<Rightarrow> hw_screen \<Rightarrow> hw_screen" where
  "puts_with put [] s = s"
| "puts_with put (c # cs) s = (if c = 0 then s else puts_with put cs (put c s))"

definition hw_myputs :: "u8 list \<Rightarrow> hw_screen \<Rightarrow> hw_screen" where
  "hw_myputs = puts_with hw_myputchar"

definition hw3_myputs :: "u8 list \<Rightarrow> hw_screen \<Rightarrow> hw_screen" where
  "hw3_myputs = puts_with hw3_myputchar"

definition hw_clrscr :: "hw_screen \<Rightarrow> hw_screen" where
  "hw_clrscr s = (hw_myputs [10] ^^ unat hw_rows) s"

definition hw3_clrscr :: "hw_screen \<Rightarrow> hw_screen" where
  "hw3_clrscr s = (hw3_myputs [10] ^^ unat hw_rows) s"

text \<open>The text that \<open>main\<close> of \<open>hw1/hello.c\<close> prints before it spins.\<close>

definition hello :: "u8 list" where
  "hello = map (\<lambda>c. of_nat (of_char c)) ''Hello, World!'' @ [10]"

definition hw1_main :: "hw_screen \<Rightarrow> hw_screen" where
  "hw1_main s = hw_myputs hello s"

subsection \<open>The cursor stays on the screen and so does every write\<close>

definition on_screen :: "hw_screen \<Rightarrow> bool" where
  "on_screen s \<longleftrightarrow> sc_row s < 24 \<and> sc_col s < 80"

definition outside_same :: "hw_screen \<Rightarrow> hw_screen \<Rightarrow> bool" where
  "outside_same s s' \<longleftrightarrow> (\<forall>a. a < 0xB8000 \<or> 0xB8F00 \<le> a \<longrightarrow> sc_mem s' a = sc_mem s a)"

lemma outside_same_refl [simp]: "outside_same s s"
  by (simp add: outside_same_def)

lemma outside_same_trans: "outside_same s t \<Longrightarrow> outside_same t u \<Longrightarrow> outside_same s u"
  by (simp add: outside_same_def)

lemma hw_put_fields [simp]:
  "sc_row (hw_put off b s) = sc_row s" "sc_col (hw_put off b s) = sc_col s"
  by (simp_all add: hw_put_def)

lemma hw_put_outside:
  assumes "off < 3840"
  shows "outside_same s (hw_put off b s)"
proof -
  have "unat (0xB8000 + off) = 0xB8000 + unat off"
    using assms by (subst unat_plus_no_wrap) (simp_all add: word_less_nat_alt)
  then have "0xB8000 \<le> 0xB8000 + off \<and> 0xB8000 + off < 0xB8F00"
    using assms by (simp add: word_less_nat_alt word_le_nat_alt)
  then show ?thesis by (auto simp: outside_same_def hw_put_def screen_values)
qed

lemma clear_cells_outside:
  "unat off + 2 * n \<le> 3840 \<Longrightarrow> outside_same s (clear_cells n off s) \<and>
    sc_row (clear_cells n off s) = sc_row s \<and> sc_col (clear_cells n off s) = sc_col s"
proof (induction n arbitrary: off s)
  case (Suc n)
  have u: "unat (off + 1) = unat off + 1" "unat (off + 2) = unat off + 2"
    using Suc.prems by (subst unat_plus_no_wrap; simp)+
  let ?t = "hw_put (off + 1) hw_attr (hw_put off 32 s)"
  have "outside_same s (hw_put off 32 s)" "outside_same (hw_put off 32 s) ?t"
    using Suc.prems u by (intro hw_put_outside; simp add: word_less_nat_alt)+
  then have "outside_same s ?t" by (rule outside_same_trans)
  moreover have "outside_same ?t (clear_cells n (off + 2) ?t)" "sc_row (clear_cells n (off + 2) ?t) = sc_row s"
    "sc_col (clear_cells n (off + 2) ?t) = sc_col s"
    using Suc.IH [of "off + 2" ?t] Suc.prems u by simp_all
  ultimately show ?case by (auto intro: outside_same_trans)
qed simp

lemma cell_offset:
  assumes "r < 24" and "c \<le> 79"
  shows "unat ((c + r * 80) * 2 :: u32) = 2 * (unat c + 80 * unat r)"
proof -
  have "unat r < 24" "unat c \<le> 79" using assms by (simp_all add: word_less_nat_alt word_le_nat_alt)
  then show ?thesis by (simp add: unat_word_ariths)
qed

lemma hw_newline_on:
  "on_screen (hw_newline s)" "outside_same s (hw_newline s)"
proof -
  let ?s = "s\<lparr>sc_row := (sc_row s + 1) mod 24, sc_col := 0\<rparr>"
  have r: "(sc_row s + 1) mod 24 < 24" by (rule word_mod_less_divisor) simp
  then have "unat ((0 + (sc_row s + 1) mod 24 * 80) * 2 :: u32) = 2 * (0 + 80 * unat ((sc_row s + 1) mod 24))"
    using cell_offset [of "(sc_row s + 1) mod 24" 0] by simp
  moreover have "unat ((sc_row s + 1) mod 24) < 24" using r by (simp add: word_less_nat_alt)
  ultimately have "unat ((0 + (sc_row s + 1) mod 24 * 80) * 2 :: u32) + 2 * 80 \<le> 3840" by simp
  from clear_cells_outside [OF this, of ?s] r show "on_screen (hw_newline s)" "outside_same s (hw_newline s)"
    by (simp_all add: hw_newline_def on_screen_def screen_values outside_same_def)
qed

lemma put_cell_on:
  assumes "on_screen s"
  shows "on_screen (put_cell c s)" and "outside_same s (put_cell c s)"
proof -
  define off where "off = (sc_col s + sc_row s * 80) * 2"
  have c: "unat (sc_row s) < 24" "unat (sc_col s) < 80" using assms by (simp_all add: on_screen_def word_less_nat_alt)
  then have "unat off = 2 * (unat (sc_col s) + 80 * unat (sc_row s))"
    unfolding off_def by (intro cell_offset) (simp_all add: word_less_nat_alt word_le_nat_alt)
  then have u: "unat off + 1 < 3840" using c by simp
  moreover from u have "unat (off + 1) = unat off + 1" by (subst unat_plus_no_wrap) simp_all
  ultimately have o: "off < 3840" "off + 1 < 3840" by (simp_all add: word_less_nat_alt)
  define t where "t = (hw_put (off + 1) hw_attr (hw_put off c s))\<lparr>sc_col := sc_col s + 1\<rparr>"
  have t: "outside_same s t"
    using hw_put_outside [OF o(1), of s c] hw_put_outside [OF o(2), of "hw_put off c s" hw_attr]
    by (simp add: outside_same_def t_def)
  have e: "put_cell c s = (if sc_col s + 1 = 80 then hw_newline t else t)"
    by (simp add: put_cell_def Let_def screen_values t_def off_def)
  have "unat (sc_col s + 1) = unat (sc_col s) + 1" using c by (subst unat_plus_no_wrap) simp_all
  then have "sc_col s + 1 \<noteq> 80 \<Longrightarrow> sc_col s + 1 < 80" using c by (simp add: word_less_nat_alt word_unat_eq_iff)
  then show "on_screen (put_cell c s)" "outside_same s (put_cell c s)"
    using t hw_newline_on [of t] c unfolding e
    by (auto simp: on_screen_def t_def word_less_nat_alt intro: outside_same_trans)
qed

lemma puts_on_screen:
  assumes "\<And>c t. on_screen t \<Longrightarrow> on_screen (put c t) \<and> outside_same t (put c t)" and "on_screen s"
  shows "on_screen (puts_with put cs s) \<and> outside_same s (puts_with put cs s)"
  using assms(2)
proof (induction cs arbitrary: s)
  case (Cons c cs)
  with assms(1) [OF Cons.prems, of c] show ?case by (auto intro: outside_same_trans)
qed simp

lemma hw_myputs_on_screen:
  "on_screen s \<Longrightarrow> on_screen (hw_myputs cs s) \<and> outside_same s (hw_myputs cs s)"
  unfolding hw_myputs_def by (rule puts_on_screen) (auto simp: hw_myputchar_def put_cell_on hw_newline_on)

lemma hw3_myputs_on_screen:
  "on_screen s \<Longrightarrow> on_screen (hw3_myputs cs s) \<and> outside_same s (hw3_myputs cs s)"
  unfolding hw3_myputs_def by (rule puts_on_screen) (auto simp: hw3_myputchar_def put_cell_on hw_newline_on)

text \<open>On text without carriage returns the two are the same.\<close>

lemma hw3_myputs_eq: "13 \<notin> set cs \<Longrightarrow> hw3_myputs cs s = hw_myputs cs s"
  unfolding hw3_myputs_def hw_myputs_def
  by (induction cs arbitrary: s) (auto simp: hw3_myputchar_def hw_myputchar_def)

lemma hw3_myputs_return: "hw3_myputs [c, 13] s = hw3_myputs [c] s"
  by (simp add: hw3_myputs_def hw3_myputchar_def)

lemma hw3_clrscr_on_screen:
  "on_screen s \<Longrightarrow> on_screen (hw3_clrscr s) \<and> outside_same s (hw3_clrscr s)"
proof -
  assume s: "on_screen s"
  have "on_screen ((hw3_myputs [10] ^^ n) s) \<and> outside_same s ((hw3_myputs [10] ^^ n) s)" for n
  proof (induction n)
    case (Suc n)
    then show ?case using hw3_myputs_on_screen [of "(hw3_myputs [10] ^^ n) s" "[10]"] by (auto intro: outside_same_trans)
  qed (use s in simp)
  then show ?thesis by (simp add: hw3_clrscr_def)
qed

end
