(* ===== verification/Hw_Tables.thy ===== *)
theory Hw_Tables
  imports Descriptors
begin

text \<open>
  The descriptor tables of the exercises: \<open>gdt.c\<close> (the same text in \<open>hw2\<close> and \<open>hw3\<close>) and \<open>idt.c\<close> of
  \<open>hw2\<close> and of \<open>hw3\<close>, up to the instructions that load the tables. An entry is its two words; read as
  the processor reads them, the entries are the ones that the kernel's own encoders make.
\<close>

record hw_entry =
  he_low :: u32
  he_high :: u32

definition entry_word :: "hw_entry \<Rightarrow> u64" where
  "entry_word e = push_bit 32 (ucast (he_high e)) OR ucast (he_low e)"

subsection \<open>Segments\<close>

definition hw_GDT_CODE_ENTRY :: nat where "hw_GDT_CODE_ENTRY = 1"
definition hw_GDT_DATA_ENTRY :: nat where "hw_GDT_DATA_ENTRY = 2"
definition hw_GDT_CODE_SELECTOR :: u32 where "hw_GDT_CODE_SELECTOR = push_bit 3 (of_nat hw_GDT_CODE_ENTRY)"
definition hw_GDT_CODE_FLAGS :: u32 where
  "hw_GDT_CODE_FLAGS = BITUL 12 OR BITUL 15 OR BITUL 11 OR BITUL 9 OR BITUL 23 OR BITUL 22"
definition hw_GDT_DATA_FLAGS :: u32 where
  "hw_GDT_DATA_FLAGS = BITUL 12 OR BITUL 15 OR BITUL 9 OR BITUL 23 OR BITUL 22"

definition hw_setup_gdt_entry :: "u32 \<Rightarrow> u32 \<Rightarrow> u32 \<Rightarrow> hw_entry" where
  "hw_setup_gdt_entry base limit flags =
     \<lparr>he_low = (limit AND 0xFFFF) OR push_bit 16 (base AND 0xFFFF),
      he_high = (drop_bit 16 base AND 0xFF) OR (base AND 0xFF000000) OR (limit AND 0xF0000) OR flags\<rparr>"

definition hw_gdt_setup :: "(nat \<Rightarrow> hw_entry) \<Rightarrow> u32 \<Rightarrow> (nat \<Rightarrow> hw_entry) \<times> table_ptr" where
  "hw_gdt_setup gdt table =
     (let g0 = gdt(0 := hw_setup_gdt_entry 0 0 0);
          g1 = g0(hw_GDT_CODE_ENTRY := hw_setup_gdt_entry 0 0xFFFFF hw_GDT_CODE_FLAGS);
          g2 = g1(hw_GDT_DATA_ENTRY := hw_setup_gdt_entry 0 0xFFFFF hw_GDT_DATA_FLAGS)
      in (g2, \<lparr>tp_size = 3 * 8 - 1, tp_base = table\<rparr>))"

lemma hw_gdt_entry_eq:
  assumes "flags AND 0xF0FF00 = flags"
  shows "entry_word (hw_setup_gdt_entry base limit flags) = init_gdt_segment limit base flags"
proof -
  have "drop_bit 16 base AND (0xFF :: u32) = drop_bit 16 (base AND 0xFF0000)" by (simp add: drop_bit_and)
  with assms show ?thesis
    by (simp add: entry_word_def hw_setup_gdt_entry_def init_gdt_segment_def Let_def ac_simps)
qed

text \<open>The three entries are the null entry and the kernel's code and data segments.\<close>

lemma hw_gdt_setup_eq:
  "entry_word (fst (hw_gdt_setup gdt table) 0) = 0"
  "entry_word (fst (hw_gdt_setup gdt table) 1) = init_gdt_segment 0xFFFFF 0 KERNEL_CODE_TYPE"
  "entry_word (fst (hw_gdt_setup gdt table) 2) = init_gdt_segment 0xFFFFF 0 KERNEL_DATA_TYPE"
  "unat (tp_size (snd (hw_gdt_setup gdt table))) + 1 = 3 * 8"
proof -
  have f: "hw_GDT_CODE_FLAGS = KERNEL_CODE_TYPE" "hw_GDT_DATA_FLAGS = KERNEL_DATA_TYPE"
    by (simp_all add: hw_GDT_CODE_FLAGS_def hw_GDT_DATA_FLAGS_def gdt_flag_defs)
  have "KERNEL_CODE_TYPE AND 0xF0FF00 = KERNEL_CODE_TYPE" "KERNEL_DATA_TYPE AND 0xF0FF00 = KERNEL_DATA_TYPE"
    by (simp_all add: gdt_flag_defs)
  then show "entry_word (fst (hw_gdt_setup gdt table) 1) = init_gdt_segment 0xFFFFF 0 KERNEL_CODE_TYPE"
    "entry_word (fst (hw_gdt_setup gdt table) 2) = init_gdt_segment 0xFFFFF 0 KERNEL_DATA_TYPE"
    by (simp_all add: hw_gdt_setup_def Let_def hw_GDT_CODE_ENTRY_def hw_GDT_DATA_ENTRY_def f hw_gdt_entry_eq)
  show "entry_word (fst (hw_gdt_setup gdt table) 0) = 0" "unat (tp_size (snd (hw_gdt_setup gdt table))) + 1 = 3 * 8"
    by (simp_all add: hw_gdt_setup_def Let_def hw_GDT_CODE_ENTRY_def hw_GDT_DATA_ENTRY_def entry_word_def
        hw_setup_gdt_entry_def)
qed

subsection \<open>Gates\<close>

definition hw_IDT_PRESENT :: u32 where "hw_IDT_PRESENT = BITUL 15"
definition hw_IDT_32INT :: u32 where "hw_IDT_32INT = push_bit 8 0xE"
definition hw_IDT_32TRAP :: u32 where "hw_IDT_32TRAP = push_bit 8 0xF"
definition hw_INT_HIGH :: nat where "hw_INT_HIGH = 0x30"
definition hw_IDT_SIZE :: nat where "hw_IDT_SIZE = 256"

lemmas hw_idt_defs = hw_IDT_PRESENT_def hw_IDT_32INT_def hw_IDT_32TRAP_def hw_GDT_CODE_SELECTOR_def
  hw_GDT_CODE_ENTRY_def BITUL_def

definition hw_setup_idt_entry :: "u16 \<Rightarrow> u32 \<Rightarrow> u32 \<Rightarrow> hw_entry" where
  "hw_setup_idt_entry selector isr flags =
     \<lparr>he_low = (isr AND 0xFFFF) OR push_bit 16 (ucast selector), he_high = flags OR (isr AND 0xFFFF0000)\<rparr>"

definition hw3_setup_irq :: "u32 \<Rightarrow> nat \<Rightarrow> (nat \<Rightarrow> hw_entry) \<Rightarrow> (nat \<Rightarrow> hw_entry)" where
  "hw3_setup_irq isr no idt =
     idt(no := hw_setup_idt_entry (ucast hw_GDT_CODE_SELECTOR) isr (hw_IDT_32INT OR hw_IDT_PRESENT))"

definition hw3_setup_trap :: "u32 \<Rightarrow> nat \<Rightarrow> (nat \<Rightarrow> hw_entry) \<Rightarrow> (nat \<Rightarrow> hw_entry)" where
  "hw3_setup_trap isr no idt =
     idt(no := hw_setup_idt_entry (ucast hw_GDT_CODE_SELECTOR) isr (hw_IDT_32TRAP OR hw_IDT_PRESENT))"

fun gates_loop :: "(nat \<Rightarrow> 'e \<Rightarrow> 'e) \<Rightarrow> nat \<Rightarrow> nat \<Rightarrow> 'e \<Rightarrow> 'e" where
  "gates_loop init i 0 idt = idt"
| "gates_loop init i (Suc n) idt = gates_loop init (i + 1) n (init i idt)"

text \<open>\<open>raw_isrs_table\<close> is the table of the generated assembly file, a parameter here.\<close>

definition hw3_idt_setup :: "(nat \<Rightarrow> u32) \<Rightarrow> (nat \<Rightarrow> hw_entry) \<Rightarrow> u32 \<Rightarrow> (nat \<Rightarrow> hw_entry) \<times> table_ptr" where
  "hw3_idt_setup raw_isrs_table idt table =
     (let i1 = gates_loop (\<lambda>i. hw3_setup_irq (raw_isrs_table i) i) 0 hw_INT_HIGH idt;
          i2 = gates_loop (\<lambda>i. hw3_setup_trap (raw_isrs_table i) i) hw_INT_HIGH (hw_IDT_SIZE - hw_INT_HIGH) i1
      in (i2, \<lparr>tp_size = of_nat (8 * hw_IDT_SIZE - 1), tp_base = table\<rparr>))"

definition hw2_setup_interrupt :: "u32 \<Rightarrow> nat \<Rightarrow> (nat \<Rightarrow> hw_entry) \<Rightarrow> (nat \<Rightarrow> hw_entry)" where
  "hw2_setup_interrupt isr no idt =
     idt(no := hw_setup_idt_entry (ucast hw_GDT_CODE_SELECTOR) isr (hw_IDT_32INT OR hw_IDT_PRESENT))"

definition hw2_idt_setup :: "(nat \<Rightarrow> hw_entry) \<Rightarrow> u32 \<Rightarrow> (nat \<Rightarrow> hw_entry) \<times> table_ptr" where
  "hw2_idt_setup idt table =
     (gates_loop (\<lambda>i d. d(i := hw_setup_idt_entry 0 0 0)) 0 hw_IDT_SIZE idt,
      \<lparr>tp_size = of_nat (8 * hw_IDT_SIZE - 1), tp_base = table\<rparr>)"

lemma gates_loop_nth:
  "gates_loop (\<lambda>i d. d(i := f i)) i n idt j = (if i \<le> j \<and> j < i + n then f j else idt j)"
  by (induction n arbitrary: i idt) auto

lemma hw_idt_entry_eq:
  "entry_word (hw_setup_idt_entry selector isr flags) = init_gate isr (ucast selector) flags"
  by (simp add: entry_word_def hw_setup_idt_entry_def init_gate_def Let_def or.commute)

text \<open>
  Gates up to 0x2F are interrupt gates (interrupts stay off in the handler), the others trap gates;
  all lead to the code segment, and the limit of the table is its last byte.
\<close>

lemma hw3_idt_setup_gates:
  "i < 256 \<Longrightarrow> entry_word (fst (hw3_idt_setup raw idt table) i) =
    init_gate (raw i) KERNEL_CODE_SELECTOR (if i < 0x30 then INT_GATE else TRAP_GATE)"
  "unat (tp_size (snd (hw3_idt_setup raw idt table))) + 1 = 256 * 8"
proof -
  have s: "(\<lambda>i. hw3_setup_irq (raw i) i) = (\<lambda>i d. d(i := hw_setup_idt_entry 8 (raw i) 0x8E00))"
    "(\<lambda>i. hw3_setup_trap (raw i) i) = (\<lambda>i d. d(i := hw_setup_idt_entry 8 (raw i) 0x8F00))"
    by (simp_all add: fun_eq_iff hw3_setup_irq_def hw3_setup_trap_def hw_idt_defs)
  show "i < 256 \<Longrightarrow> entry_word (fst (hw3_idt_setup raw idt table) i) =
      init_gate (raw i) KERNEL_CODE_SELECTOR (if i < 0x30 then INT_GATE else TRAP_GATE)"
    unfolding hw3_idt_setup_def Let_def s
    by (simp add: gates_loop_nth hw_INT_HIGH_def hw_IDT_SIZE_def hw_idt_entry_eq idt_flag_defs gdt_selector_defs)
  show "unat (tp_size (snd (hw3_idt_setup raw idt table))) + 1 = 256 * 8"
    by (simp add: hw3_idt_setup_def Let_def hw_IDT_SIZE_def)
qed

lemma hw2_idt_setup_gates:
  "i < 256 \<Longrightarrow> entry_word (fst (hw2_idt_setup idt table) i) = 0"
  "entry_word (hw2_setup_interrupt isr no idt no) = init_gate isr KERNEL_CODE_SELECTOR INT_GATE"
  by (simp_all add: hw2_idt_setup_def gates_loop_nth hw_IDT_SIZE_def hw2_setup_interrupt_def hw_idt_entry_eq
      hw_idt_defs idt_flag_defs gdt_selector_defs init_gate_def)

end
