(* ===== verification/Hw2_Clock.thy ===== *)
theory Hw2_Clock
  imports Hw_Devices Hw_Screen Hw_Tables
begin

text \<open>
  \<open>hw2/main.c\<close>: a program that sets up the screen, the tables, the controllers and the timer and then
  spins, while the timer's interrupt prints a line at every hundredth tick. Its state is the devices,
  the tables and the static variable \<open>tick\<close>.
\<close>

subsection \<open>State and operations\<close>

record hw2 =
  k_screen :: hw_screen
  k_pic :: pic
  k_gdt :: "nat \<Rightarrow> hw_entry"
  k_gdt_ptr :: table_ptr
  k_idt :: "nat \<Rightarrow> hw_entry"
  k_idt_ptr :: table_ptr
  k_tick :: u32
  k_if :: bool

definition CLOCK_IRQ :: u32 where "CLOCK_IRQ = 0"

definition tick_text :: "u8 list" where
  "tick_text = map (\<lambda>c. of_nat (of_char c)) ''tick'' @ [10]"

definition c_interrupt_handler :: "hw2 \<Rightarrow> hw2" where
  "c_interrupt_handler st =
     (let s1 = (if \<not> k_tick st \<noteq> 0 then st\<lparr>k_screen := hw_myputs tick_text (k_screen st)\<rparr> else st);
          s2 = s1\<lparr>k_tick := (k_tick s1 + 1) mod 100\<rparr>
      in s2\<lparr>k_pic := hw_pic_eoi CLOCK_IRQ (k_pic s2)\<rparr>)"

text \<open>
  \<open>main\<close> up to the loop. The addresses of the two tables and of the entry \<open>interrupt_handler\<close> are
  arguments. Interrupts are on before the gate of the timer is set; its line is masked until the end.
\<close>

definition hw2_main :: "u32 \<Rightarrow> u32 \<Rightarrow> u32 \<Rightarrow> hw2 \<Rightarrow> hw2" where
  "hw2_main gdt idt interrupt_handler st =
     (let s1 = st\<lparr>k_screen := hw_clrscr (k_screen st)\<rparr>;
          (g, gp) = hw_gdt_setup (k_gdt s1) gdt;
          s2 = s1\<lparr>k_gdt := g, k_gdt_ptr := gp\<rparr>;
          (d, dp) = hw2_idt_setup (k_idt s2) idt;
          s3 = s2\<lparr>k_idt := d, k_idt_ptr := dp\<rparr>;
          s4 = s3\<lparr>k_pic := hw_pic_setup (k_pic s3)\<rparr>;
          s5 = s4\<lparr>k_if := True\<rparr>;
          s6 = s5\<lparr>k_idt := hw2_setup_interrupt interrupt_handler (unat (hw_PIC_OFFSET + CLOCK_IRQ)) (k_idt s5)\<rparr>;
          s7 = s6\<lparr>k_pic := (k_pic s6)\<lparr>pic_ports := pit_set_channel0_rate 10 (pic_ports (k_pic s6))\<rparr>\<rparr>
      in s7\<lparr>k_pic := hw_pic_unmask CLOCK_IRQ (k_pic s7)\<rparr>)"

subsection \<open>Every hundredth tick\<close>

text \<open>After any number of interrupts: the lines printed, the counter, one command to the chip for each.\<close>

lemma eoi_written: "written 0x20 (pt_log (pic_ports (hw_pic_eoi CLOCK_IRQ p))) = written 0x20 (pt_log (pic_ports p)) @ [0x60]"
  by (simp add: hw_pic_eoi_def CLOCK_IRQ_def pic_out_def hw_PIC_IRQS_def)

lemma tick_mod: "unat (t :: u32) < 100 \<Longrightarrow> unat ((t + 1) mod 100) = (unat t + 1) mod 100"
  by (simp add: unat_mod unat_word_ariths)

lemma lines_Suc: "(100 + n) div 100 = (n + 99) div 100 + (if n mod 100 = 0 then 1 else (0 :: nat))"
proof -
  obtain q r where n: "n = r + 100 * q" "r < 100" by (metis mod_less_divisor mod_mult_div_eq zero_less_numeral)
  then have r: "n mod 100 = r" by simp
  have "(r + 99) div 100 = (if r = 0 then 0 else 1)"
    using n(2) by (cases "r = 0") (simp_all add: div_nat_eqI)
  moreover have "(n + 99) div 100 = (r + 99) div 100 + q" using div_mult_self1 [of 100 "r + 99" q] by (simp add: n(1))
  moreover have "(100 + n) div 100 = q + 1" using n by simp
  ultimately show ?thesis by (simp add: r)
qed

lemma clock_ticks:
  assumes "k_tick st = 0" and "st' = (c_interrupt_handler ^^ n) st"
  shows "unat (k_tick st') = n mod 100"
    and "k_screen st' = (hw_myputs tick_text ^^ ((n + 99) div 100)) (k_screen st)"
    and "written 0x20 (pt_log (pic_ports (k_pic st'))) = written 0x20 (pt_log (pic_ports (k_pic st))) @ replicate n 0x60"
    and "k_idt st' = k_idt st" and "k_if st' = k_if st"
  unfolding assms(2)
proof (induction n)
  case (Suc n)
  let ?s = "(c_interrupt_handler ^^ n) st"
  have t: "unat (k_tick ?s) < 100" "k_tick ?s = 0 \<longleftrightarrow> n mod 100 = 0" using Suc(1) by (simp_all add: word_unat_eq_iff)
  have step: "k_tick (c_interrupt_handler ?s) = (k_tick ?s + 1) mod 100"
    "k_screen (c_interrupt_handler ?s) = (if n mod 100 = 0 then hw_myputs tick_text (k_screen ?s) else k_screen ?s)"
    "k_pic (c_interrupt_handler ?s) = hw_pic_eoi CLOCK_IRQ (k_pic ?s)"
    "k_idt (c_interrupt_handler ?s) = k_idt ?s" "k_if (c_interrupt_handler ?s) = k_if ?s"
    using t(2) by (simp_all add: c_interrupt_handler_def Let_def)
  {
    case 1
    show ?case using Suc(1) by (simp add: step tick_mod [OF t(1)] mod_Suc_eq)
  next
    case 2
    show ?case using Suc(2) by (simp add: step lines_Suc)
  next
    case 3
    show ?case using Suc(3) by (simp add: step eoi_written replicate_append_same [symmetric])
  next
    case 4
    show ?case using Suc(4) by (simp add: step)
  next
    case 5
    show ?case using Suc(5) by (simp add: step)
  }
qed (use assms(1) in simp_all)

text \<open>After \<open>main\<close> interrupts are on, the gate of the timer leads to the handler, and of the lines only
  the timer's is not masked.\<close>

lemma hw2_main_ready:
  assumes "pic_irq_mask (k_pic st) = 0xFFFF" and "st' = hw2_main gdt idt handler st"
  shows "entry_word (k_idt st' 0x20) = init_gate handler KERNEL_CODE_SELECTOR INT_GATE" and "k_if st'"
    and "pic_irq_mask (k_pic st') = 0xFFFE" and "k_screen st' = hw_clrscr (k_screen st)"
  using assms(1) hw2_idt_setup_gates(2) [of handler "0x20"]
  by (simp_all add: assms(2) hw2_main_def Let_def CLOCK_IRQ_def hw_PIC_OFFSET_def hw_pic_setup_eq hw_pic_unmask_def
      pic_remap_def pic_out_def BITU_def split: prod.split)

end
