(* ===== verification/Hw3_Serial.thy ===== *)
theory Hw3_Serial
  imports Ports Kernel
begin

text \<open>
  \<open>hw3/serial.c\<close>: the receive buffer of the serial line, a ring of 4096 bytes that the interrupt
  handler fills and \<open>serial_read\<close> empties. The ring is the bytes by index with the two ends and the
  size as the code keeps them; what it promises is a queue of at most 4096 bytes that drops what
  comes when it is full.
\<close>

subsection \<open>The ring\<close>

definition hw3_COM_PORT :: u16 where "hw3_COM_PORT = 0x3F8"
definition hw3_RX_DATA_REG :: u16 where "hw3_RX_DATA_REG = 0"
definition hw3_LS_REG :: u16 where "hw3_LS_REG = 5"
definition hw3_RX_DATA :: u8 where "hw3_RX_DATA = push_bit 0 1"
definition RING_BUFFER_SIZE :: u32 where "RING_BUFFER_SIZE = 4096"

lemmas hw3_serial_defs = hw3_COM_PORT_def hw3_RX_DATA_REG_def hw3_LS_REG_def hw3_RX_DATA_def

record ring_buffer =
  rb_buffer :: "u32 \<Rightarrow> u8"
  rb_begin :: u32
  rb_end :: u32
  rb_size :: u32

definition ring_buffer_empty :: "ring_buffer \<Rightarrow> bool" where
  "ring_buffer_empty rb \<longleftrightarrow> rb_size rb = 0"

definition ring_buffer_full :: "ring_buffer \<Rightarrow> bool" where
  "ring_buffer_full rb \<longleftrightarrow> rb_size rb = RING_BUFFER_SIZE"

definition ring_buffer_size :: "ring_buffer \<Rightarrow> u32" where
  "ring_buffer_size rb = rb_size rb"

definition ring_buffer_putchar :: "u8 \<Rightarrow> ring_buffer \<Rightarrow> ring_buffer" where
  "ring_buffer_putchar data rb =
     (let b1 = rb\<lparr>rb_buffer := (rb_buffer rb)(rb_end rb := data)\<rparr>;
          b2 = b1\<lparr>rb_end := (rb_end b1 + 1) mod RING_BUFFER_SIZE\<rparr>
      in b2\<lparr>rb_size := rb_size b2 + 1\<rparr>)"

definition ring_buffer_getchar :: "ring_buffer \<Rightarrow> u8 \<times> ring_buffer" where
  "ring_buffer_getchar rb =
     (let data = rb_buffer rb (rb_begin rb);
          b1 = rb\<lparr>rb_begin := (rb_begin rb + 1) mod RING_BUFFER_SIZE\<rparr>
      in (data, b1\<lparr>rb_size := rb_size b1 - 1\<rparr>))"

subsection \<open>The handler and the reader\<close>

text \<open>The loop ends when the line status shows no data, which is up to the device.\<close>

partial_function (option) rx_loop :: "u8 \<Rightarrow> ring_buffer \<Rightarrow> ports \<Rightarrow> (ring_buffer \<times> ports) option" where
  "rx_loop status rb w =
     (if status AND hw3_RX_DATA \<noteq> 0 then
        (let (data, w1) = in8 (hw3_COM_PORT + hw3_RX_DATA_REG) w;
             rb1 = (if \<not> ring_buffer_full rb then ring_buffer_putchar data rb else rb);
             (status1, w2) = in8 (hw3_COM_PORT + hw3_LS_REG) w1
         in rx_loop status1 rb1 w2)
      else Some (rb, w))"

declare rx_loop.simps [code]

definition serial_irq_handler :: "ring_buffer \<Rightarrow> ports \<Rightarrow> (ring_buffer \<times> ports) option" where
  "serial_irq_handler rb w = (let (status, w1) = in8 (hw3_COM_PORT + hw3_LS_REG) w in rx_loop status rb w1)"

text \<open>\<open>buf\<close> is an address of the memory \<open>m\<close>. Interrupts are off in between.\<close>

fun read_loop :: "nat \<Rightarrow> u32 \<Rightarrow> ring_buffer \<Rightarrow> (u32 \<Rightarrow> u8) \<Rightarrow> ring_buffer \<times> (u32 \<Rightarrow> u8)" where
  "read_loop 0 buf rb m = (rb, m)"
| "read_loop (Suc n) buf rb m =
     (let (data, rb1) = ring_buffer_getchar rb in read_loop n (buf + 1) rb1 (m(buf := data)))"

definition serial_read :: "u32 \<Rightarrow> u32 \<Rightarrow> ring_buffer \<Rightarrow> (u32 \<Rightarrow> u8) \<Rightarrow> u32 \<times> ring_buffer \<times> (u32 \<Rightarrow> u8)" where
  "serial_read buf sz rb m =
     (let count = ring_buffer_size rb;
          count1 = (if count > sz then sz else count)
      in (count1, read_loop (unat count1) buf rb m))"

subsection \<open>The ring is a bounded queue\<close>

definition rb_at :: "ring_buffer \<Rightarrow> nat \<Rightarrow> u8" where
  "rb_at rb i = rb_buffer rb (of_nat ((unat (rb_begin rb) + i) mod 4096))"

definition rb_bytes :: "ring_buffer \<Rightarrow> u8 list" where
  "rb_bytes rb = map (rb_at rb) [0..<unat (rb_size rb)]"

definition rb_ok :: "ring_buffer \<Rightarrow> bool" where
  "rb_ok rb \<longleftrightarrow> unat (rb_begin rb) < 4096 \<and> unat (rb_size rb) \<le> 4096 \<and>
     unat (rb_end rb) = (unat (rb_begin rb) + unat (rb_size rb)) mod 4096"

lemma length_rb_bytes [simp]: "length (rb_bytes rb) = unat (rb_size rb)"
  by (simp add: rb_bytes_def)

lemma ring_full_iff: "rb_ok rb \<Longrightarrow> ring_buffer_full rb \<longleftrightarrow> length (rb_bytes rb) = 4096"
  by (simp add: ring_buffer_full_def RING_BUFFER_SIZE_def word_unat_eq_iff)

lemma ring_empty_iff: "ring_buffer_empty rb \<longleftrightarrow> rb_bytes rb = []"
  by (simp add: ring_buffer_empty_def rb_bytes_def word_unat_eq_iff)

lemma unat_next_index: "unat (i :: u32) < 4096 \<Longrightarrow> unat ((i + 1) mod 4096) = (unat i + 1) mod 4096"
  by (simp add: unat_mod unat_word_ariths)

lemma of_nat_idx: "i < 4096 \<Longrightarrow> j < 4096 \<Longrightarrow> (of_nat i :: u32) = of_nat j \<longleftrightarrow> i = j"
  by (auto simp: word_unat_eq_iff unat_of_nat take_bit_nat_eq_self)

lemma idx_inj:
  assumes "(b + i) mod 4096 = (b + j) mod 4096" and "i < 4096" and "j < (4096 :: nat)"
  shows "i = j"
proof -
  from assms(1) obtain p q where "b + i + 4096 * p = b + j + 4096 * q" unfolding nat_mod_eq_iff by blast
  with assms(2,3) show ?thesis by (cases p q rule: linorder_cases) auto
qed

lemma ring_put:
  assumes "rb_ok rb" and "\<not> ring_buffer_full rb"
  shows "rb_ok (ring_buffer_putchar c rb)" and "rb_bytes (ring_buffer_putchar c rb) = rb_bytes rb @ [c]"
proof -
  let ?b = "unat (rb_begin rb)" and ?n = "unat (rb_size rb)"
  have n: "?n < 4096" using assms ring_full_iff [OF assms(1)] by (simp add: rb_ok_def)
  have e: "rb_end rb = of_nat ((?b + ?n) mod 4096)" "unat (rb_end rb) < 4096"
    using assms(1) by (simp_all add: rb_ok_def word_unat_eq_iff unat_of_nat take_bit_nat_eq_self)
  have s: "unat (rb_size rb + 1) = ?n + 1" using n by (subst unat_plus_no_wrap) simp_all
  have f: "rb_size (ring_buffer_putchar c rb) = rb_size rb + 1" "rb_begin (ring_buffer_putchar c rb) = rb_begin rb"
    "rb_end (ring_buffer_putchar c rb) = (rb_end rb + 1) mod 4096"
    "rb_buffer (ring_buffer_putchar c rb) = (rb_buffer rb)(rb_end rb := c)"
    by (simp_all add: ring_buffer_putchar_def Let_def RING_BUFFER_SIZE_def)
  show "rb_ok (ring_buffer_putchar c rb)"
    using assms(1) n unat_next_index [OF e(2)] by (simp add: rb_ok_def f s mod_Suc_eq)
  have other: "rb_at (ring_buffer_putchar c rb) i = rb_at rb i" if "i < ?n" for i
  proof -
    have "(?b + i) mod 4096 \<noteq> (?b + ?n) mod 4096" using idx_inj [of ?b i ?n] that n by auto
    then have "(of_nat ((?b + i) mod 4096) :: u32) \<noteq> rb_end rb" unfolding e(1) by (simp add: of_nat_idx)
    then show ?thesis by (simp add: rb_at_def f)
  qed
  have "rb_at (ring_buffer_putchar c rb) ?n = c" unfolding rb_at_def f e(1) by simp
  with other show "rb_bytes (ring_buffer_putchar c rb) = rb_bytes rb @ [c]" by (simp add: rb_bytes_def f s)
qed

lemma ring_get:
  assumes "rb_ok rb" and "rb_bytes rb = c # cs"
  shows "\<exists>rb'. ring_buffer_getchar rb = (c, rb') \<and> rb_ok rb' \<and> rb_bytes rb' = cs"
proof -
  let ?b = "unat (rb_begin rb)" and ?n = "unat (rb_size rb)"
  let ?r = "snd (ring_buffer_getchar rb)"
  obtain k where n: "?n = Suc k" using assms(2) by (cases ?n) (simp_all add: rb_bytes_def)
  then have s: "unat (rb_size rb - 1) = k" by (subst unat_minus_no_wrap) (simp_all add: word_le_nat_alt)
  have b: "unat ((rb_begin rb + 1) mod 4096) = (?b + 1) mod 4096"
    using assms(1) by (intro unat_next_index) (simp add: rb_ok_def)
  have f: "rb_size ?r = rb_size rb - 1" "rb_begin ?r = (rb_begin rb + 1) mod 4096" "rb_end ?r = rb_end rb"
    "rb_buffer ?r = rb_buffer rb" "fst (ring_buffer_getchar rb) = rb_buffer rb (rb_begin rb)"
    by (simp_all add: ring_buffer_getchar_def Let_def RING_BUFFER_SIZE_def)
  have "c = rb_at rb 0" "cs = map (rb_at rb) [1..<Suc k]"
    using assms(2) unfolding rb_bytes_def n by (simp_all add: upt_conv_Cons del: upt_Suc)
  moreover have "rb_at rb 0 = fst (ring_buffer_getchar rb)" using assms(1) by (simp add: rb_at_def f rb_ok_def)
  moreover have "rb_bytes ?r = map (rb_at rb) [1..<Suc k]"
  proof -
    have "rb_at ?r i = rb_at rb (Suc i)" for i by (simp add: rb_at_def f b mod_simps)
    then have "rb_bytes ?r = map (\<lambda>i. rb_at rb (Suc i)) [0..<k]" by (simp add: rb_bytes_def f s)
    also have "\<dots> = map (rb_at rb) [1..<Suc k]" by (simp add: map_Suc_upt [symmetric] del: upt_Suc)
    finally show ?thesis .
  qed
  moreover have "rb_ok ?r" using assms(1) n by (simp add: rb_ok_def f b s mod_simps)
  ultimately show ?thesis by (metis prod.collapse)
qed

subsection \<open>Receiving and reading\<close>

text \<open>\<open>receives w bs w'\<close>: polled as the handler polls it, the line delivers exactly the bytes \<open>bs\<close>.\<close>

inductive receives :: "ports \<Rightarrow> u8 list \<Rightarrow> ports \<Rightarrow> bool" where
  receives_none: "\<lbrakk>in8 0x3FD w = (s, w'); s AND 1 = 0\<rbrakk> \<Longrightarrow> receives w [] w'"
| receives_byte: "\<lbrakk>in8 0x3FD w = (s, w1); s AND 1 \<noteq> 0; in8 0x3F8 w1 = (b, w2); receives w2 bs w'\<rbrakk> \<Longrightarrow>
    receives w (b # bs) w'"

definition offer :: "u8 \<Rightarrow> ring_buffer \<Rightarrow> ring_buffer" where
  "offer c rb = (if \<not> ring_buffer_full rb then ring_buffer_putchar c rb else rb)"

lemma offer_bytes:
  assumes "rb_ok rb"
  shows "rb_ok (offer c rb)" and "rb_bytes (offer c rb) = take 4096 (rb_bytes rb @ [c])"
proof -
  have "length (rb_bytes rb) \<le> 4096" using assms by (simp add: rb_ok_def)
  then show "rb_ok (offer c rb)" "rb_bytes (offer c rb) = take 4096 (rb_bytes rb @ [c])"
    using ring_put [OF assms] ring_full_iff [OF assms] assms by (auto simp: offer_def)
qed

lemma offer_all_bytes:
  "rb_ok rb \<Longrightarrow> rb_ok (fold offer bs rb) \<and> rb_bytes (fold offer bs rb) = take 4096 (rb_bytes rb @ bs)"
proof (induction bs arbitrary: rb)
  case (Cons b bs)
  note o = offer_bytes [OF Cons.prems, of b]
  have "take 4096 (take 4096 (rb_bytes rb @ [b]) @ bs) = take 4096 (rb_bytes rb @ b # bs)"
    by (cases "length (rb_bytes rb) < 4096") (simp_all del: length_rb_bytes)
  with Cons.IH [OF o(1)] show ?case by (simp only: o(2) fold_Cons o_apply)
qed (simp add: rb_ok_def)

lemma handler_receives:
  "receives w bs w' \<Longrightarrow> serial_irq_handler rb w = Some (fold offer bs rb, w')"
proof (induction arbitrary: rb rule: receives.induct)
  case (receives_none w s w')
  then show ?case by (simp add: serial_irq_handler_def hw3_serial_defs rx_loop.simps)
next
  case (receives_byte w s w1 b w2 bs w')
  have "serial_irq_handler rb w = serial_irq_handler (offer b rb) w2"
    using receives_byte.hyps(1-3)
    by (simp add: serial_irq_handler_def hw3_serial_defs rx_loop.simps [of s] offer_def Let_def split: prod.splits)
  then show ?case using receives_byte.IH by simp
qed

lemma read_loop_bytes:
  assumes "rb_ok rb" and "n \<le> length (rb_bytes rb)" and "n \<le> 4096"
  shows "\<exists>rb' m'. read_loop n buf rb m = (rb', m') \<and> rb_ok rb' \<and> rb_bytes rb' = drop n (rb_bytes rb) \<and>
    (\<forall>i < n. m' (buf + of_nat i) = rb_bytes rb ! i) \<and> (\<forall>a. n \<le> unat (a - buf) \<longrightarrow> m' a = m a)"
  using assms
proof (induction n arbitrary: buf rb m)
  case (Suc n)
  then obtain c cs where cs: "rb_bytes rb = c # cs" by (cases "rb_bytes rb") auto
  from ring_get [OF Suc.prems(1) cs] obtain r where r: "ring_buffer_getchar rb = (c, r)" "rb_ok r" "rb_bytes r = cs"
    by blast
  from Suc.IH [OF r(2), of "buf + 1" "m(buf := c)"] Suc.prems(2,3) r(3) cs obtain rb' m' where
    m': "read_loop n (buf + 1) r (m(buf := c)) = (rb', m')" "rb_ok rb'" "rb_bytes rb' = drop n cs"
    "\<forall>i < n. m' (buf + 1 + of_nat i) = cs ! i"
    "\<forall>a. n \<le> unat (a - (buf + 1)) \<longrightarrow> m' a = (m(buf := c)) a"
    by (auto simp del: fun_upd_apply)
  have "buf - (buf + 1) = 0xFFFFFFFF" by simp
  then have "n \<le> unat (buf - (buf + 1))" using Suc.prems(3) by (simp only:) simp
  with m'(5) have first: "m' buf = c" by auto
  have "m' (buf + of_nat i) = rb_bytes rb ! i" if "i < Suc n" for i
    using that first m'(4) cs by (cases i) (simp_all add: add.assoc)
  moreover have "m' a = m a" if "Suc n \<le> unat (a - buf)" for a
  proof -
    have "unat (a - buf - 1) = unat (a - buf) - 1"
      using that by (subst unat_minus_no_wrap) (simp_all add: word_le_nat_alt)
    then have "unat (a - (buf + 1)) = unat (a - buf) - 1" by (simp add: diff_diff_add [symmetric])
    moreover have "a \<noteq> buf" using that by auto
    ultimately show ?thesis using m'(5) that by auto
  qed
  ultimately show ?case using m' r(1) cs by simp
qed auto

lemma serial_read_bytes:
  assumes "rb_ok rb"
  shows "\<exists>rb' m'. serial_read buf sz rb m = (of_nat (min (unat sz) (length (rb_bytes rb))), rb', m') \<and>
    rb_ok rb' \<and> rb_bytes rb' = drop (unat sz) (rb_bytes rb) \<and>
    (\<forall>i < min (unat sz) (length (rb_bytes rb)). m' (buf + of_nat i) = rb_bytes rb ! i) \<and>
    (\<forall>a. min (unat sz) (length (rb_bytes rb)) \<le> unat (a - buf) \<longrightarrow> m' a = m a)"
proof -
  let ?n = "min (unat sz) (length (rb_bytes rb))"
  have c: "(if rb_size rb > sz then sz else rb_size rb) = of_nat ?n"
    by (auto simp: word_less_nat_alt min_def)
  then have u: "unat (if rb_size rb > sz then sz else rb_size rb) = ?n"
    by (auto simp: word_less_nat_alt min_def)
  have "?n \<le> 4096" using assms by (simp add: rb_ok_def min.coboundedI2)
  with read_loop_bytes [OF assms, of ?n buf m] obtain rb' m' where
    "read_loop ?n buf rb m = (rb', m')" "rb_ok rb'" "rb_bytes rb' = drop ?n (rb_bytes rb)"
    "\<forall>i < ?n. m' (buf + of_nat i) = rb_bytes rb ! i" "\<forall>a. ?n \<le> unat (a - buf) \<longrightarrow> m' a = m a" by auto
  moreover have "drop ?n (rb_bytes rb) = drop (unat sz) (rb_bytes rb)" by (simp add: min_def)
  ultimately show ?thesis unfolding serial_read_def ring_buffer_size_def Let_def u c [symmetric]
    by (intro exI [of _ rb'] exI [of _ m']) (simp add: c)
qed

end
