(* ===== verification/Hw3_Kernel.thy ===== *)
theory Hw3_Kernel
  imports Hw_Devices Hw_Screen Hw_Tables Hw3_Serial Linked_List
begin

text \<open>
  The multitasking exercise \<open>hw3\<close>: \<open>list.c\<close>, \<open>idt.c\<close> and \<open>irq.c\<close> (the way of an interrupt from its
  gate to its handler), \<open>exceptions.c\<close>, \<open>time.c\<close>, \<open>scheduler.c\<close> and the set-up in \<open>main.c\<close>, as one
  machine. A function pointer that the code stores is a constructor of a datatype. Tasks are named by
  the address of their \<open>struct task\<close>.

  A task that does not run is suspended in one of two places, and its \<open>task_state\<close> points to the
  stack frame there. \<open>Start_frame\<close> is the frame that \<open>task_new\<close> builds. \<open>Saved_frame\<close> is a call of
  \<open>schedule\<close> that has switched away: it holds the local variables \<open>flags\<close> and \<open>this\<close> of that call,
  the variable \<open>this\<close> of the \<open>task_start\<close> below it and the place in that function, and the interrupt
  flag that the return from interrupt restores when the call was made by an interrupt handler. A switch
  (\<open>switch.S\<close>) leaves the frame of the one stack and goes on in the frame of the other.

  \<open>task_start\<close> first turns the interrupts on and then sets \<open>current\<close>. The two are two steps of the
  model, and \<open>h_starting\<close> says that the running code is between them: an interrupt that comes there
  finds the \<open>current\<close> of the task that ran before.
\<close>

subsection \<open>Lists\<close>

definition hw3_list_init :: "'n \<Rightarrow> 'n list_heap \<Rightarrow> 'n list_heap" where
  "hw3_list_init head h =
     (let h1 = h\<lparr>lh_prev := (lh_prev h)(head := head)\<rparr>
      in h1\<lparr>lh_next := (lh_next h1)(head := lh_prev h1 head)\<rparr>)"

definition hw3_list_insert_between :: "'n \<Rightarrow> 'n \<Rightarrow> 'n \<Rightarrow> 'n list_heap \<Rightarrow> 'n list_heap" where
  "hw3_list_insert_between prev nxt new_node h =
     (let h1 = h\<lparr>lh_next := (lh_next h)(prev := new_node)\<rparr>;
          h2 = h1\<lparr>lh_prev := (lh_prev h1)(new_node := prev)\<rparr>;
          h3 = h2\<lparr>lh_prev := (lh_prev h2)(nxt := new_node)\<rparr>
      in h3\<lparr>lh_next := (lh_next h3)(new_node := nxt)\<rparr>)"

definition hw3_list_add_tail :: "'n \<Rightarrow> 'n \<Rightarrow> 'n list_heap \<Rightarrow> 'n list_heap" where
  "hw3_list_add_tail head new_node h = hw3_list_insert_between (lh_prev h head) head new_node h"

definition hw3_list_add_front :: "'n \<Rightarrow> 'n \<Rightarrow> 'n list_heap \<Rightarrow> 'n list_heap" where
  "hw3_list_add_front head new_node h = hw3_list_insert_between head (lh_next h head) new_node h"

definition hw3_list_del :: "'n \<Rightarrow> 'n list_heap \<Rightarrow> 'n list_heap" where
  "hw3_list_del node h =
     (let h1 = h\<lparr>lh_next := (lh_next h)(lh_prev h node := lh_next h node)\<rparr>
      in h1\<lparr>lh_prev := (lh_prev h1)(lh_next h1 node := lh_prev h1 node)\<rparr>)"

definition hw3_list_empty :: "'n \<Rightarrow> 'n list_heap \<Rightarrow> bool" where
  "hw3_list_empty head h \<longleftrightarrow> lh_next h head = head"

lemma hw3_list_same:
  "hw3_list_init head h = list_init_head head h" "hw3_list_del node h = list_remove node h"
  "hw3_list_empty head h = list_empty head h"
  "n \<noteq> head \<Longrightarrow> hw3_list_add_tail head n h = list_insert_before head n h"
  by (auto simp: hw3_list_init_def hw3_list_del_def hw3_list_empty_def hw3_list_add_tail_def
      hw3_list_insert_between_def list_ops_defs fun_eq_iff intro!: list_heap.equality)

lemma hw3_insert_fields:
  "lh_next (hw3_list_insert_between p q n h) = (lh_next h)(p := n, n := q)"
  "lh_prev (hw3_list_insert_between p q n h) = (lh_prev h)(n := p, q := n)"
  by (simp_all add: hw3_list_insert_between_def Let_def)

lemma hw3_add_tail_rep:
  "list_rep h head xs \<Longrightarrow> n \<notin> set (head # xs) \<Longrightarrow> list_rep (hw3_list_add_tail head n h) head (xs @ [n])"
  by (simp add: hw3_list_same list_rep_insert_before)

lemma hw3_add_front_rep:
  assumes "list_rep h head xs" and "n \<notin> set (head # xs)"
  shows "list_rep (hw3_list_add_front head n h) head (n # xs)"
proof -
  have "lh_next h head \<noteq> n" using list_rep_ends [OF assms(1)] assms(2) by auto
  then have "hw3_list_add_front head n h = list_insert_after head n h"
    by (auto simp: hw3_list_add_front_def list_insert_after_def hw3_insert_fields link_simps fun_eq_iff
        intro!: list_heap.equality)
  with list_rep_insert_after [OF assms] show ?thesis by simp
qed

lemma hw3_add_frames:
  assumes "list_rep h g ys" and "list_rep h head xs"
    and "set (g # ys) \<inter> set (head # xs) = {}" and "n \<notin> set (g # ys)"
  shows "list_rep (hw3_list_add_tail head n h) g ys" and "list_rep (hw3_list_add_front head n h) g ys"
  by (rule list_rep_frame [OF assms(1)];
      use list_rep_ends [OF assms(2)] assms(3,4)
      in \<open>auto simp: hw3_list_add_tail_def hw3_list_add_front_def hw3_insert_fields\<close>)+

text \<open>The contract of the kernel's lists holds for these, too.\<close>

interpretation hw3_lists: intrusive_list
  hw3_list_init hw3_list_add_tail hw3_list_add_front hw3_list_del hw3_list_empty list_first list_rep
  by unfold_locales (unfold hw3_list_same(1-3),
    (fact list_rep_distinct list_rep_init list_init_head_frame hw3_add_tail_rep hw3_add_front_rep list_rep_remove
      hw3_add_frames list_remove_frame list_empty_iff list_first_hd)+)

subsection \<open>State\<close>

datatype hw3_isr = General_error_handler | Irq_raw_handler
datatype hw3_handler = Pit_irq_handler | Serial_irq_handler
datatype hw3_tstate = READY | BLOCKED | FINISHED
datatype hw3_node = Tasks | Queue u32

datatype hw3_frame =
    Start_frame (start_task: u32) (start_fptr: u32) (start_data: u32)
  | Saved_frame (saved_flags: bool) (saved_this: u32) (saved_self: u32) (saved_starting: bool)
      (saved_iret: "bool option")

record hw3 =
  h_pic :: pic
  h_screen :: hw_screen
  h_isrs :: "u32 \<Rightarrow> hw3_isr option"
  h_handlers :: "u32 \<Rightarrow> hw3_handler option"
  h_rx :: ring_buffer
  h_ticks :: u64
  h_tasks :: "hw3_node list_heap"
  h_current :: u32
  h_frame :: "u32 \<Rightarrow> hw3_frame"
  h_remain :: "u32 \<Rightarrow> u32"
  h_state :: "u32 \<Rightarrow> hw3_tstate"
  h_if :: bool
  h_self :: u32
  h_starting :: bool

definition SCHEDULER_TIME_SLICE :: u32 where "SCHEDULER_TIME_SLICE = 10"
definition IRQ_LOW :: u32 where "IRQ_LOW = hw_PIC_OFFSET"
definition IRQS :: u32 where "IRQS = 0x10"
definition PIT_IRQ :: u32 where "PIT_IRQ = 0"
definition COM_IRQ :: u32 where "COM_IRQ = 4"
definition EXCEPTIONS :: u32 where "EXCEPTIONS = 0x20"
definition TIMER_FDIV :: u32 where "TIMER_FDIV = 1193182 div 100"

lemmas hw3_values = SCHEDULER_TIME_SLICE_def IRQ_LOW_def IRQS_def PIT_IRQ_def COM_IRQ_def EXCEPTIONS_def
  hw_PIC_OFFSET_def

definition irqsave :: "hw3 \<Rightarrow> bool \<times> hw3" where
  "irqsave st = (h_if st, st\<lparr>h_if := False\<rparr>)"

definition irqrestore :: "bool \<Rightarrow> hw3 \<Rightarrow> hw3" where
  "irqrestore flags st = (if flags then st\<lparr>h_if := True\<rparr> else st)"

definition hw3_iret :: "bool option \<Rightarrow> hw3 \<Rightarrow> hw3" where
  "hw3_iret i st = (case i of None \<Rightarrow> st | Some b \<Rightarrow> st\<lparr>h_if := b\<rparr>)"

subsection \<open>The scheduler\<close>

text \<open>The first statement of \<open>task_start\<close>, and the second.\<close>

definition hw3_task_start :: "u32 \<Rightarrow> u32 \<Rightarrow> u32 \<Rightarrow> hw3 \<Rightarrow> hw3" where
  "hw3_task_start this fptr data st =
     (let s1 = st\<lparr>h_self := this, h_starting := True\<rparr>
      in s1\<lparr>h_if := True\<rparr>)"

definition hw3_task_enter :: "hw3 \<Rightarrow> hw3" where
  "hw3_task_enter st = st\<lparr>h_current := h_self st, h_starting := False\<rparr>"

text \<open>
  What runs on a stack after a switch to it: the first statement of \<open>task_start\<close>, or the rest of
  \<open>schedule\<close> and of the interrupt handler that called it.
\<close>

definition hw3_resume :: "hw3_frame \<Rightarrow> hw3 \<Rightarrow> hw3" where
  "hw3_resume f st =
     (case f of
        Start_frame task fptr data \<Rightarrow> hw3_task_start task fptr data st
      | Saved_frame flags this self starting i \<Rightarrow>
          (let s1 = st\<lparr>h_self := self, h_starting := starting\<rparr>;
               s2 = s1\<lparr>h_current := this\<rparr>;
               s3 = s2\<lparr>h_remain := (h_remain s2)(h_current s2 := SCHEDULER_TIME_SLICE)\<rparr>
           in hw3_iret i (irqrestore flags s3)))"

definition task_state_switch :: "u32 \<Rightarrow> hw3_frame \<Rightarrow> hw3_frame \<Rightarrow> hw3 \<Rightarrow> hw3" where
  "task_state_switch old saved new st =
     hw3_resume new (st\<lparr>h_frame := (h_frame st)(old := saved)\<rparr>)"

definition tasks_map :: "(hw3_node list_heap \<Rightarrow> hw3_node list_heap) \<Rightarrow> hw3 \<Rightarrow> hw3" where
  "tasks_map f st = st\<lparr>h_tasks := f (h_tasks st)\<rparr>"

text \<open>\<open>i\<close> says who called: the code of a task (\<open>None\<close>) or a handler of an interrupt.\<close>

definition hw3_schedule :: "bool option \<Rightarrow> hw3 \<Rightarrow> hw3 outcome" where
  "hw3_schedule i st =
     (let (flags, s1) = irqsave st
      in if \<not> hw3_list_empty Tasks (h_tasks s1) then
           (let this = h_current s1;
                s2 = (if h_state s1 this = READY then tasks_map (hw3_list_add_tail Tasks (Queue this)) s1 else s1)
            in case lh_next (h_tasks s2) Tasks of
                 Tasks \<Rightarrow> Inl Wild
               | Queue next \<Rightarrow>
                   (let s3 = tasks_map (hw3_list_del (lh_next (h_tasks s2) Tasks)) s2
                    in Inr (task_state_switch this (Saved_frame flags this (h_self s3) (h_starting s3) i) (h_frame s3 next) s3)))
         else Inr (hw3_iret i (irqrestore flags s1)))"

text \<open>The end of \<open>task_start\<close>, when the function of the task has returned: one call of the loop.\<close>

definition hw3_task_end :: "hw3 \<Rightarrow> hw3 outcome" where
  "hw3_task_end st = hw3_schedule None (st\<lparr>h_state := (h_state st)(h_self st := FINISHED)\<rparr>)"

definition hw3_task_new :: "u32 \<Rightarrow> u32 \<Rightarrow> u32 \<Rightarrow> hw3 \<Rightarrow> hw3" where
  "hw3_task_new task fptr data st =
     (let s1 = st\<lparr>h_frame := (h_frame st)(task := Start_frame task fptr data)\<rparr>;
          s2 = s1\<lparr>h_state := (h_state s1)(task := READY)\<rparr>;
          (flags, s3) = irqsave s2
      in irqrestore flags (tasks_map (hw3_list_add_tail Tasks (Queue task)) s3))"

definition scheduler_setup :: "hw3 \<Rightarrow> hw3" where
  "scheduler_setup st = tasks_map (hw3_list_init Tasks) st"

subsection \<open>Interrupts\<close>

definition pic_map :: "(pic \<Rightarrow> pic) \<Rightarrow> hw3 \<Rightarrow> hw3" where
  "pic_map f st = st\<lparr>h_pic := f (h_pic st)\<rparr>"

definition ports_map :: "(ports \<Rightarrow> ports) \<Rightarrow> hw3 \<Rightarrow> hw3" where
  "ports_map f st = pic_map (\<lambda>p. p\<lparr>pic_ports := f (pic_ports p)\<rparr>) st"

definition set_interrupt_handler :: "u32 \<Rightarrow> hw3_isr \<Rightarrow> hw3 \<Rightarrow> hw3" where
  "set_interrupt_handler intno isr st = st\<lparr>h_isrs := (h_isrs st)(intno \<mapsto> isr)\<rparr>"

definition setup_irq_handler :: "u32 \<Rightarrow> hw3_handler \<Rightarrow> hw3 \<Rightarrow> hw3" where
  "setup_irq_handler irq handler st = st\<lparr>h_handlers := (h_handlers st)(irq \<mapsto> handler)\<rparr>"

definition irq_mask :: "u32 \<Rightarrow> hw3 \<Rightarrow> hw3" where "irq_mask irq st = pic_map (hw_pic_mask irq) st"
definition irq_unmask :: "u32 \<Rightarrow> hw3 \<Rightarrow> hw3" where "irq_unmask irq st = pic_map (hw_pic_unmask irq) st"

definition pit_irq_handler :: "u32 \<Rightarrow> hw3 \<Rightarrow> hw3" where
  "pit_irq_handler irq st =
     (let s1 = st\<lparr>h_ticks := h_ticks st + 1\<rparr>
      in s1\<lparr>h_remain := (h_remain s1)(h_current s1 := h_remain s1 (h_current s1) - 1)\<rparr>)"

definition get_ticks :: "hw3 \<Rightarrow> u64 \<times> hw3" where
  "get_ticks st = (let (flags, s1) = irqsave st; rc = h_ticks s1 in (rc, irqrestore flags s1))"

definition run_serial_handler :: "hw3 \<Rightarrow> hw3 option" where
  "run_serial_handler st =
     map_option (\<lambda>(rb, w). ports_map (\<lambda>_. w) (st\<lparr>h_rx := rb\<rparr>)) (serial_irq_handler (h_rx st) (pic_ports (h_pic st)))"

definition hw3_run_handler :: "hw3_handler \<Rightarrow> u32 \<Rightarrow> hw3 \<Rightarrow> hw3 option" where
  "hw3_run_handler h irq st =
     (case h of Pit_irq_handler \<Rightarrow> Some (pit_irq_handler irq st) | Serial_irq_handler \<Rightarrow> run_serial_handler st)"

definition irq_raw_handler :: "u32 \<Rightarrow> u32 \<Rightarrow> bool option \<Rightarrow> hw3 \<Rightarrow> hw3 outcome option" where
  "irq_raw_handler intno errno i st =
     (let irq = intno - IRQ_LOW;
          run = (case h_handlers st irq of None \<Rightarrow> Some st | Some handler \<Rightarrow> hw3_run_handler handler irq st)
      in map_option (\<lambda>s1.
           let s2 = pic_map (hw_pic_eoi irq) s1
           in if sint (h_remain s2 (h_current s2)) \<le> 0 then hw3_schedule i s2 else Inr (hw3_iret i s2)) run)"

definition hw3_error :: "string list" where
  "hw3_error = [''Divide-by-zero'', ''Debug'', ''NMI'', ''Breakpoint'', ''Overflow'', ''Bound Range Exceeded'',
     ''Invalid Opcode'', ''Device Not Available'', ''Double Fault'', ''Coprocessor Segment Overrun'',
     ''Invalid TSS'', ''Segment Not Present'', ''Stack-Segment Fault'', ''General Protection Fault'',
     ''Page Fault'', ''Unexpected'', ''x87 Floating-Point Exception'', ''Alignment Check'', ''Machine Check'',
     ''SIMD Floating-Point Exception'', ''Virtualization Exception'', ''Unexpected'', ''Security Exception'',
     ''Unexpected'']"

text \<open>The text is printed and the machine spins, as after a panic; the table has 24 texts.\<close>

definition general_error_handler :: "u32 \<Rightarrow> u32 \<Rightarrow> hw3 \<Rightarrow> hw3 outcome" where
  "general_error_handler intno errno st =
     (if unat intno < length hw3_error then Inl (Panic (hw3_error ! unat intno)) else Inl Wild)"

definition raw_isr :: "u32 \<Rightarrow> u32 \<Rightarrow> bool option \<Rightarrow> hw3 \<Rightarrow> hw3 outcome option" where
  "raw_isr intno errno i st =
     (case h_isrs st intno of
        None \<Rightarrow> Some (Inr (hw3_iret i st))
      | Some Irq_raw_handler \<Rightarrow> irq_raw_handler intno errno i st
      | Some General_error_handler \<Rightarrow> Some (general_error_handler intno errno st))"

text \<open>The processor takes an interrupt: an interrupt gate clears the flag, a trap gate does not.\<close>

definition hw3_interrupt :: "u32 \<Rightarrow> u32 \<Rightarrow> hw3 \<Rightarrow> hw3 outcome option" where
  "hw3_interrupt intno errno st =
     raw_isr intno errno (Some (h_if st)) (if unat intno < hw_INT_HIGH then st\<lparr>h_if := False\<rparr> else st)"

subsection \<open>The set-up\<close>

fun handlers_loop :: "hw3_isr \<Rightarrow> u32 \<Rightarrow> nat \<Rightarrow> hw3 \<Rightarrow> hw3" where
  "handlers_loop isr i 0 st = st"
| "handlers_loop isr i (Suc n) st = handlers_loop isr (i + 1) n (set_interrupt_handler i isr st)"

definition exceptions_setup :: "hw3 \<Rightarrow> hw3" where
  "exceptions_setup st = handlers_loop General_error_handler 0 (unat EXCEPTIONS) st"

definition irq_setup :: "hw3 \<Rightarrow> hw3" where
  "irq_setup st = handlers_loop Irq_raw_handler IRQ_LOW (unat IRQS) st"

definition time_setup :: "hw3 \<Rightarrow> hw3" where
  "time_setup st =
     (let s1 = ports_map (pit_set_rate PIT_CH0 (ucast TIMER_FDIV)) st;
          s2 = setup_irq_handler PIT_IRQ Pit_irq_handler s1
      in irq_unmask PIT_IRQ s2)"

definition serial_setup :: "hw3 \<Rightarrow> hw3" where
  "serial_setup st =
     (let s1 = st\<lparr>h_rx := (h_rx st)\<lparr>rb_begin := 0, rb_end := 0, rb_size := 0\<rparr>\<rparr>;
          s2 = ports_map (out8 (hw3_COM_PORT + 1) 0) s1;
          s3 = ports_map (out8 (hw3_COM_PORT + 3) (ucast (BITU 7))) s2;
          s4 = ports_map (out8 (hw3_COM_PORT + 0) (115200 div 9600 AND 0xFF)) s3;
          s5 = ports_map (out8 (hw3_COM_PORT + 1) (ucast (drop_bit 8 (115200 div 9600 AND 0xFF00 :: u32)))) s4;
          s6 = ports_map (out8 (hw3_COM_PORT + 3) (ucast (BITU 0 OR BITU 1))) s5;
          s7 = ports_map (out8 (hw3_COM_PORT + 2) (ucast (BITU 0 OR BITU 6 OR BITU 7))) s6;
          s8 = setup_irq_handler COM_IRQ Serial_irq_handler s7;
          s9 = irq_unmask COM_IRQ s8
      in ports_map (out8 (hw3_COM_PORT + 1) (ucast (BITU 0))) s9)"

text \<open>
  \<open>main\<close> up to the first statement of \<open>task_start\<close>. The tables of segments and gates are set up
  by \<open>hw_gdt_setup\<close> and \<open>hw3_idt_setup\<close>; the two tasks and their functions are addresses.
\<close>

definition hw3_main :: "u32 \<Rightarrow> u32 \<Rightarrow> u32 \<Rightarrow> u32 \<Rightarrow> hw3 \<Rightarrow> hw3" where
  "hw3_main task1 task2 task1_function task2_function st =
     (let s1 = st\<lparr>h_screen := hw3_clrscr (h_screen st)\<rparr>;
          s2 = exceptions_setup s1;
          s3 = irq_setup s2;
          s4 = pic_map hw_pic_setup s3;
          s5 = time_setup s4;
          s6 = serial_setup s5;
          s7 = scheduler_setup s6;
          s8 = hw3_task_new task2 task2_function 0 s7
      in hw3_task_start task1 task1_function 0 s8)"

text \<open>\<open>serial_read\<close> with its interrupts off; the buffer is in the memory that also has the screen.\<close>

definition hw3_serial_read :: "u32 \<Rightarrow> u32 \<Rightarrow> hw3 \<Rightarrow> u32 \<times> hw3" where
  "hw3_serial_read buf sz st =
     (let (flags, s1) = irqsave st;
          (n, rb, m) = serial_read buf sz (h_rx s1) (sc_mem (h_screen s1))
      in (n, irqrestore flags (s1\<lparr>h_rx := rb, h_screen := (h_screen s1)\<lparr>sc_mem := m\<rparr>\<rparr>)))"

end
