(* ===== verification/Hw3_Refine.thy ===== *)
theory Hw3_Refine
  imports Hw3_Kernel Round_Robin
begin

text \<open>
  What the multitasking exercise promises: an abstract machine with a queue of tasks, a bounded queue
  of received bytes, a tick count and the acknowledgements of interrupts, and the simulation of its
  steps by the code. Frames on stacks, saved flags, the pointers of the list, the ring and the saved
  interrupt state are gone in the abstract machine.
\<close>

subsection \<open>The abstract machine\<close>

record hw3_abs =
  ab_queue :: "u32 list"
  ab_current :: u32
  ab_state :: "u32 \<Rightarrow> hw3_tstate"
  ab_fresh :: "u32 set"
  ab_remain :: "u32 \<Rightarrow> u32"
  ab_rx :: "u8 list"
  ab_ticks :: u64
  ab_acks :: "u8 list"

datatype hw3_event = Tick | Received "u8 list" | Enter | Yield | Finish | Read u32 u32

text \<open>A task that has not run yet keeps the time slice it has, any other gets a new one.\<close>

definition ab_schedule :: "hw3_abs \<Rightarrow> hw3_abs" where
  "ab_schedule a =
     (case ab_queue a of
        [] \<Rightarrow> a
      | n # q \<Rightarrow> a\<lparr>ab_queue := (if ab_state a (ab_current a) = READY then q @ [ab_current a] else q),
          ab_current := n, ab_fresh := ab_fresh a - {n},
          ab_remain := (if n \<in> ab_fresh a then ab_remain a else (ab_remain a)(n := 10))\<rparr>)"

definition ab_preempt :: "hw3_abs \<Rightarrow> hw3_abs" where
  "ab_preempt a = (if sint (ab_remain a (ab_current a)) \<le> 0 then ab_schedule a else a)"

fun ab_step :: "hw3_event \<Rightarrow> hw3_abs \<Rightarrow> hw3_abs" where
  "ab_step Tick a = ab_preempt (a\<lparr>ab_ticks := ab_ticks a + 1, ab_acks := ab_acks a @ [0x60],
     ab_remain := (ab_remain a)(ab_current a := ab_remain a (ab_current a) - 1)\<rparr>)"
| "ab_step (Received bs) a = ab_preempt (a\<lparr>ab_rx := take 4096 (ab_rx a @ bs), ab_acks := ab_acks a @ [0x64]\<rparr>)"
| "ab_step Enter a = a"
| "ab_step Yield a = ab_schedule a"
| "ab_step Finish a = ab_schedule (a\<lparr>ab_state := (ab_state a)(ab_current a := FINISHED)\<rparr>)"
| "ab_step (Read buf sz) a = a\<lparr>ab_rx := drop (unat sz) (ab_rx a)\<rparr>"

subsection \<open>The steps of the code\<close>

text \<open>
  An interrupt comes whenever interrupts are on, also between the two statements of \<open>task_start\<close>; the
  second of them is the event \<open>Enter\<close>. The other steps are made by the code of a task.
\<close>

inductive hw3_step :: "hw3 \<Rightarrow> hw3_event \<Rightarrow> hw3 \<Rightarrow> bool" where
  step_tick: "\<lbrakk>h_if st; hw3_interrupt 0x20 0 st = Some (Inr st')\<rbrakk> \<Longrightarrow> hw3_step st Tick st'"
| step_received: "\<lbrakk>h_if st; receives (pic_ports (h_pic st)) bs w; hw3_interrupt 0x24 0 st = Some (Inr st')\<rbrakk> \<Longrightarrow>
    hw3_step st (Received bs) st'"
| step_enter: "h_starting st \<Longrightarrow> hw3_step st Enter (hw3_task_enter st)"
| step_yield: "\<lbrakk>\<not> h_starting st; hw3_schedule None st = Inr st'\<rbrakk> \<Longrightarrow> hw3_step st Yield st'"
| step_finish: "\<lbrakk>\<not> h_starting st; hw3_task_end st = Inr st'\<rbrakk> \<Longrightarrow> hw3_step st Finish st'"
| step_read: "\<lbrakk>\<not> h_starting st; hw3_serial_read buf sz st = (n, st')\<rbrakk> \<Longrightarrow> hw3_step st (Read buf sz) st'"

inductive_cases hw3_stepE: "hw3_step st e st'"
inductive_simps hw3_step_simps: "hw3_step st Tick st'" "hw3_step st Yield st'" "hw3_step st Finish st'"
  "hw3_step st (Read buf sz) st'" "hw3_step st (Received bs) st'" "hw3_step st Enter st'"

inductive hw3_runs :: "hw3 \<Rightarrow> hw3_event list \<Rightarrow> hw3 \<Rightarrow> bool" where
  runs_none: "hw3_runs st [] st"
| runs_step: "\<lbrakk>hw3_step st e st1; hw3_runs st1 es st'\<rbrakk> \<Longrightarrow> hw3_runs st (e # es) st'"

text \<open>
  The runs in which no interrupt comes between the two statements of \<open>task_start\<close>. The processor does
  not take an interrupt before it has executed the instruction behind \<open>sti\<close>, so every run is one of
  these when the compiler makes the assignment that instruction. The code alone does not ensure it:
  \<open>hw3_start_race\<close> shows what an interrupt does there.
\<close>

inductive hw3_calm :: "hw3 \<Rightarrow> hw3_event list \<Rightarrow> hw3 \<Rightarrow> bool" where
  calm_none: "hw3_calm st [] st"
| calm_step: "\<lbrakk>hw3_step st e st1; h_starting st \<longrightarrow> e = Enter; hw3_calm st1 es st'\<rbrakk> \<Longrightarrow> hw3_calm st (e # es) st'"

inductive_cases hw3_calm_ConsE: "hw3_calm st (e # es) st'"

lemma hw3_calm_runs: "hw3_calm st es st' \<Longrightarrow> hw3_runs st es st'"
  by (induction rule: hw3_calm.induct) (auto intro: hw3_runs.intros)

subsection \<open>The representation\<close>

text \<open>A suspended frame of task \<open>t\<close> names \<open>t\<close> and comes back with interrupts on.\<close>

definition frame_ok :: "bool \<Rightarrow> u32 \<Rightarrow> hw3_frame \<Rightarrow> bool" where
  "frame_ok fresh t f =
     (case f of
        Start_frame task fptr data \<Rightarrow> fresh \<and> task = t
      | Saved_frame flags this self starting i \<Rightarrow> \<not> fresh \<and> this = t \<and> self = t \<and> \<not> starting \<and>
          (case i of None \<Rightarrow> flags | Some b \<Rightarrow> b))"

text \<open>What is the same while the handlers of an interrupt run, with interrupts off.\<close>

definition hw3_core :: "hw3 \<Rightarrow> hw3_abs \<Rightarrow> bool" where
  "hw3_core st a \<longleftrightarrow> list_rep (h_tasks st) Tasks (map Queue (ab_queue a)) \<and>
     h_current st = ab_current a \<and> h_self st = ab_current a \<and> \<not> h_starting st \<and> h_state st = ab_state a \<and>
     h_remain st = ab_remain a \<and> h_ticks st = ab_ticks a \<and>
     rb_ok (h_rx st) \<and> rb_bytes (h_rx st) = ab_rx a \<and>
     written 0x20 (pt_log (pic_ports (h_pic st))) = ab_acks a \<and>
     (\<forall>t \<in> set (ab_queue a). frame_ok (t \<in> ab_fresh a) t (h_frame st t) \<and> ab_state a t = READY) \<and>
     ab_current a \<notin> set (ab_queue a) \<and> ab_current a \<notin> ab_fresh a \<and>
     h_isrs st 0x20 = Some Irq_raw_handler \<and> h_isrs st 0x24 = Some Irq_raw_handler \<and>
     h_handlers st 0 = Some Pit_irq_handler \<and> h_handlers st 4 = Some Serial_irq_handler"

text \<open>In the abstract machine a task has entered its function as soon as its stack is switched to.\<close>

definition hw3_entered :: "hw3 \<Rightarrow> hw3" where
  "hw3_entered st = (if h_starting st then hw3_task_enter st else st)"

definition hw3_rep :: "hw3 \<Rightarrow> hw3_abs \<Rightarrow> bool" where
  "hw3_rep st a \<longleftrightarrow> hw3_core (hw3_entered st) a \<and> h_if st"

lemma hw3_rep_core: "\<not> h_starting st \<Longrightarrow> hw3_rep st a \<longleftrightarrow> hw3_core st a \<and> h_if st"
  by (simp add: hw3_rep_def hw3_entered_def)

lemma hw3_repD:
  assumes "hw3_rep st a"
  shows "list_rep (h_tasks st) Tasks (map Queue (ab_queue a))" "h_self st = ab_current a" "h_state st = ab_state a"
    "h_ticks st = ab_ticks a" "rb_ok (h_rx st)" "rb_bytes (h_rx st) = ab_rx a" "h_if st"
    "written 0x20 (pt_log (pic_ports (h_pic st))) = ab_acks a" "\<not> h_starting st \<Longrightarrow> h_current st = ab_current a"
  using assms by (auto simp: hw3_rep_def hw3_core_def hw3_entered_def hw3_task_enter_def split: if_splits)

lemma hw3_core_if [simp]: "hw3_core (st\<lparr>h_if := b\<rparr>) a = hw3_core st a"
  by (simp add: hw3_core_def)

subsection \<open>Scheduling\<close>

lemma hw3_resume_rep:
  assumes "frame_ok fresh t f"
  shows "hw3_entered (hw3_resume f st) = st\<lparr>h_self := t, h_current := t, h_if := True, h_starting := False,
    h_remain := (if fresh then h_remain st else (h_remain st)(t := 10))\<rparr>" and "h_if (hw3_resume f st)"
proof -
  have "hw3_entered (hw3_resume f st) = st\<lparr>h_self := t, h_current := t, h_if := True, h_starting := False,
      h_remain := (if fresh then h_remain st else (h_remain st)(t := 10))\<rparr> \<and> h_if (hw3_resume f st)"
  proof (cases f)
    case (Start_frame task fptr data)
    with assms show ?thesis
      by (simp add: frame_ok_def hw3_resume_def hw3_task_start_def hw3_entered_def hw3_task_enter_def)
  next
    case (Saved_frame flags this self starting i)
    with assms show ?thesis
      by (cases i; cases flags) (simp_all add: frame_ok_def hw3_resume_def SCHEDULER_TIME_SLICE_def hw3_iret_def
          irqrestore_def hw3_entered_def)
  qed
  then show "hw3_entered (hw3_resume f st) = st\<lparr>h_self := t, h_current := t, h_if := True, h_starting := False,
      h_remain := (if fresh then h_remain st else (h_remain st)(t := 10))\<rparr>" "h_if (hw3_resume f st)" by blast+
qed

text \<open>With a task in the queue, \<open>schedule\<close> goes on in the frame of the first.\<close>

lemma hw3_schedule_switch:
  assumes "hw3_core st a" and "ab_queue a = n # q" and "c = ab_current a"
  shows "\<exists>h. hw3_schedule i st = Inr (hw3_resume (h_frame st n) (st\<lparr>h_if := False, h_tasks := h,
      h_frame := (h_frame st)(c := Saved_frame (h_if st) c c False i)\<rparr>)) \<and>
    list_rep h Tasks (map Queue (if ab_state a c = READY then q @ [c] else q))"
proof -
  let ?h = "h_tasks st"
  have core: "list_rep ?h Tasks (map Queue (n # q))" "h_current st = c" "h_self st = c" "h_state st = ab_state a"
    "c \<noteq> n" "c \<notin> set q" "\<not> h_starting st"
    using assms by (auto simp: hw3_core_def)
  define h1 where "h1 = (if ab_state a c = READY then hw3_list_add_tail Tasks (Queue c) ?h else ?h)"
  have h1: "list_rep h1 Tasks (Queue n # map Queue (if ab_state a c = READY then q @ [c] else q))"
    using core(1) hw3_lists.rep_ins_before [OF core(1), of "Queue c"] core(5,6) by (auto simp: h1_def)
  have next_n: "lh_next h1 Tasks = Queue n" using hw3_lists.rep_pop(1) [OF h1] by (simp add: list_first_def)
  have "\<not> hw3_list_empty Tasks ?h" using hw3_lists.empty_iff [OF core(1)] by simp
  then have "hw3_schedule i st = Inr (hw3_resume (h_frame st n) (st\<lparr>h_if := False,
      h_tasks := hw3_list_del (Queue n) h1, h_frame := (h_frame st)(c := Saved_frame (h_if st) c c False i)\<rparr>))"
    using next_n core(2-4,7)
    by (cases "ab_state a c = READY")
      (simp_all add: hw3_schedule_def irqsave_def tasks_map_def task_state_switch_def h1_def Let_def)
  with hw3_lists.rep_pop(2) [OF h1] show ?thesis by blast
qed

lemma hw3_schedule_rep:
  assumes "hw3_core st a" and "case i of None \<Rightarrow> h_if st | Some b \<Rightarrow> b"
  shows "\<exists>st'. hw3_schedule i st = Inr st' \<and> hw3_rep st' (ab_schedule a)"
proof (cases "ab_queue a")
  case Nil
  have "hw3_list_empty Tasks (h_tasks st)"
    using assms(1) hw3_lists.empty_iff [of "h_tasks st" Tasks "[]"] Nil by (simp add: hw3_core_def)
  then have "hw3_schedule i st = Inr (hw3_iret i (irqrestore (h_if st) (st\<lparr>h_if := False\<rparr>)))"
    by (simp add: hw3_schedule_def irqsave_def)
  moreover have "hw3_iret i (irqrestore (h_if st) (st\<lparr>h_if := False\<rparr>)) = st\<lparr>h_if := True\<rparr>"
    using assms(2) by (auto simp: hw3_iret_def irqrestore_def split: option.splits)
  moreover have "\<not> h_starting st" using assms(1) by (simp add: hw3_core_def)
  ultimately show ?thesis using assms(1) Nil by (simp add: ab_schedule_def hw3_rep_core)
next
  case (Cons n q)
  let ?c = "ab_current a" and ?f = "Saved_frame (h_if st) (ab_current a) (ab_current a) False i"
  define q1 where "q1 = (if ab_state a ?c = READY then q @ [?c] else q)"
  from hw3_schedule_switch [OF assms(1) Cons refl, of i] obtain h where
    run: "hw3_schedule i st = Inr (hw3_resume (h_frame st n)
      (st\<lparr>h_if := False, h_tasks := h, h_frame := (h_frame st)(?c := ?f)\<rparr>))" (is "_ = Inr (hw3_resume _ ?s)")
    and h: "list_rep h Tasks (map Queue q1)" unfolding q1_def by blast
  have core: "h_remain st = ab_remain a" "frame_ok (n \<in> ab_fresh a) n (h_frame st n)" "?c \<noteq> n" "?c \<notin> set q"
    "?c \<notin> ab_fresh a" "distinct (n # q)"
    using assms(1) Cons hw3_lists.rep_distinct [of "h_tasks st" Tasks "map Queue (n # q)"]
    by (auto simp: hw3_core_def distinct_map)
  have ent: "hw3_entered (hw3_resume (h_frame st n) ?s) = ?s\<lparr>h_self := n, h_current := n, h_if := True,
      h_starting := False, h_remain := (if n \<in> ab_fresh a then ab_remain a else (ab_remain a)(n := 10))\<rparr>" (is "_ = ?t")
    by (subst hw3_resume_rep(1) [OF core(2)]) (simp add: core(1))
  have "frame_ok False ?c ?f" using assms(2) by (auto simp: frame_ok_def split: option.splits)
  moreover have "frame_ok (t \<in> ab_fresh a - {n}) t (h_frame st t) \<and> ab_state a t = READY" if "t \<in> set q" for t
  proof -
    from core(6) that have "t \<in> ab_fresh a - {n} \<longleftrightarrow> t \<in> ab_fresh a" by auto
    with assms(1) that Cons show ?thesis by (simp add: hw3_core_def)
  qed
  ultimately have frames: "\<forall>t \<in> set q1. frame_ok (t \<in> ab_fresh a - {n}) t (((h_frame st)(?c := ?f)) t) \<and>
      ab_state a t = READY"
    using core(4,5) by (auto simp: q1_def)
  have "n \<notin> set q1" using core(3,6) by (auto simp: q1_def)
  with assms(1) h frames have "hw3_core ?t (ab_schedule a)"
    by (simp add: hw3_core_def ab_schedule_def Cons q1_def [symmetric])
  then have "hw3_rep (hw3_resume (h_frame st n) ?s) (ab_schedule a)"
    using hw3_resume_rep(2) [OF core(2)] by (simp add: hw3_rep_def ent)
  with run show ?thesis by blast
qed

lemma hw3_preempt_rep:
  assumes "hw3_core st a"
  shows "\<exists>st'. (if sint (h_remain st (h_current st)) \<le> 0 then hw3_schedule (Some True) st
      else Inr (hw3_iret (Some True) st)) = Inr st' \<and> hw3_rep st' (ab_preempt a)"
proof (cases "sint (ab_remain a (ab_current a)) \<le> 0")
  case True
  then show ?thesis using hw3_schedule_rep [OF assms, of "Some True"] assms by (simp add: ab_preempt_def hw3_core_def)
next
  case False
  moreover have "\<not> h_starting st" using assms by (simp add: hw3_core_def)
  ultimately show ?thesis using assms by (simp add: ab_preempt_def hw3_iret_def hw3_rep_core) (simp add: hw3_core_def)
qed

subsection \<open>The interrupts\<close>

lemma written_reads: "written p (In8 q # es) = written p es"
  by simp

lemma receives_written:
  "receives w bs w' \<Longrightarrow> written p (pt_log w') = written p (pt_log w) \<and> pt_device w' = pt_device w"
  by (induction rule: receives.induct) (auto simp: ports_defs)

lemma eoi_log:
  "written 0x20 (pt_log (pic_ports (hw_pic_eoi 0 p))) = written 0x20 (pt_log (pic_ports p)) @ [0x60]"
  "written 0x20 (pt_log (pic_ports (hw_pic_eoi 4 p))) = written 0x20 (pt_log (pic_ports p)) @ [0x64]"
  by (simp_all add: hw_pic_eoi_def pic_out_def hw_PIC_IRQS_def)

lemma tick_rep:
  assumes "hw3_rep st a" and "\<not> h_starting st"
  shows "\<exists>st'. hw3_interrupt 0x20 0 st = Some (Inr st') \<and> hw3_rep st' (ab_step Tick a)"
proof -
  let ?a = "a\<lparr>ab_ticks := ab_ticks a + 1, ab_acks := ab_acks a @ [0x60],
     ab_remain := (ab_remain a)(ab_current a := ab_remain a (ab_current a) - 1)\<rparr>"
  let ?s = "pic_map (hw_pic_eoi 0) (pit_irq_handler 0 (st\<lparr>h_if := False\<rparr>))"
  from assms have c: "hw3_core st a" "h_if st" by (simp_all add: hw3_rep_core)
  then have "hw3_core ?s ?a"
    by (simp add: hw3_core_def pic_map_def pit_irq_handler_def Let_def eoi_log)
  from hw3_preempt_rep [OF this] obtain st' where st': "(if sint (h_remain ?s (h_current ?s)) \<le> 0
      then hw3_schedule (Some True) ?s else Inr (hw3_iret (Some True) ?s)) = Inr st'" "hw3_rep st' (ab_preempt ?a)"
    by blast
  have "hw3_interrupt 0x20 0 st = Some (if sint (h_remain ?s (h_current ?s)) \<le> 0
      then hw3_schedule (Some True) ?s else Inr (hw3_iret (Some True) ?s))"
    using c by (simp add: hw3_interrupt_def raw_isr_def irq_raw_handler_def hw3_run_handler_def hw3_core_def
        hw_INT_HIGH_def hw3_values Let_def)
  then show ?thesis unfolding st'(1) using st'(2) by simp
qed

lemma received_rep:
  assumes "hw3_rep st a" and "receives (pic_ports (h_pic st)) bs w" and "\<not> h_starting st"
  shows "\<exists>st'. hw3_interrupt 0x24 0 st = Some (Inr st') \<and> hw3_rep st' (ab_step (Received bs) a)"
proof -
  let ?a = "a\<lparr>ab_rx := take 4096 (ab_rx a @ bs), ab_acks := ab_acks a @ [0x64]\<rparr>"
  let ?s = "pic_map (hw_pic_eoi 4) (ports_map (\<lambda>_. w) (st\<lparr>h_if := False, h_rx := fold offer bs (h_rx st)\<rparr>))"
  from assms have c: "hw3_core st a" "h_if st" by (simp_all add: hw3_rep_core)
  have ok: "rb_ok (fold offer bs (h_rx st))" "rb_bytes (fold offer bs (h_rx st)) = take 4096 (ab_rx a @ bs)"
    using c(1) offer_all_bytes [of "h_rx st" bs] by (simp_all add: hw3_core_def)
  have "hw3_core ?s ?a"
    using c(1) ok receives_written [OF assms(2), of "0x20"]
    by (simp add: hw3_core_def pic_map_def ports_map_def eoi_log)
  from hw3_preempt_rep [OF this] obtain st' where st': "(if sint (h_remain ?s (h_current ?s)) \<le> 0
      then hw3_schedule (Some True) ?s else Inr (hw3_iret (Some True) ?s)) = Inr st'" "hw3_rep st' (ab_preempt ?a)"
    by blast
  have "hw3_interrupt 0x24 0 st = Some (if sint (h_remain ?s (h_current ?s)) \<le> 0
      then hw3_schedule (Some True) ?s else Inr (hw3_iret (Some True) ?s))"
    using c handler_receives [OF assms(2)]
    by (simp add: hw3_interrupt_def raw_isr_def irq_raw_handler_def hw3_run_handler_def run_serial_handler_def
        hw3_core_def hw_INT_HIGH_def hw3_values Let_def)
  then show ?thesis unfolding st'(1) using st'(2) by simp
qed

lemma enter_rep:
  assumes "hw3_rep st a" and "h_starting st"
  shows "hw3_rep (hw3_task_enter st) (ab_step Enter a)" and "\<not> h_starting (hw3_task_enter st)"
  using assms by (simp_all add: hw3_rep_def hw3_entered_def) (simp_all add: hw3_task_enter_def)

lemma finish_rep:
  assumes "hw3_rep st a" and "\<not> h_starting st"
  shows "\<exists>st'. hw3_task_end st = Inr st' \<and> hw3_rep st' (ab_step Finish a)"
proof -
  from assms have c: "hw3_core st a" "h_if st" "h_self st = ab_current a"
    by (simp_all add: hw3_rep_core hw3_repD(2) [OF assms(1)])
  have "hw3_core (st\<lparr>h_state := (h_state st)(h_self st := FINISHED)\<rparr>)
      (a\<lparr>ab_state := (ab_state a)(ab_current a := FINISHED)\<rparr>)"
    using c(1) by (auto simp: hw3_core_def)
  from hw3_schedule_rep [OF this, of None] c(2) show ?thesis by (simp add: hw3_task_end_def)
qed

lemma read_rep:
  assumes "hw3_rep st a" and "hw3_serial_read buf sz st = (n, st')" and "\<not> h_starting st"
  shows "hw3_rep st' (ab_step (Read buf sz) a)" and "n = of_nat (min (unat sz) (length (ab_rx a)))"
    and "\<forall>i < min (unat sz) (length (ab_rx a)). sc_mem (h_screen st') (buf + of_nat i) = ab_rx a ! i"
proof -
  from assms(1,3) have c: "hw3_core st a" "h_if st" "rb_ok (h_rx st)" "rb_bytes (h_rx st) = ab_rx a"
    by (simp_all add: hw3_rep_core hw3_repD [OF assms(1)])
  from serial_read_bytes [OF c(3), of buf sz "sc_mem (h_screen st)"] obtain rb m where
    r: "serial_read buf sz (h_rx st) (sc_mem (h_screen st)) = (of_nat (min (unat sz) (length (ab_rx a))), rb, m)"
    "rb_ok rb" "rb_bytes rb = drop (unat sz) (ab_rx a)"
    "\<forall>i < min (unat sz) (length (ab_rx a)). m (buf + of_nat i) = ab_rx a ! i"
    unfolding c(4) by blast
  have e: "n = of_nat (min (unat sz) (length (ab_rx a)))"
    "st' = st\<lparr>h_if := True, h_rx := rb, h_screen := (h_screen st)\<lparr>sc_mem := m\<rparr>\<rparr>"
    using assms(2) c(2) by (auto simp: hw3_serial_read_def irqsave_def r(1) irqrestore_def)
  show "n = of_nat (min (unat sz) (length (ab_rx a)))" by (rule e(1))
  show "hw3_rep st' (ab_step (Read buf sz) a)" using c(1) r(2,3) assms(3)
    by (simp add: e(2) hw3_rep_core) (simp add: hw3_core_def)
  show "\<forall>i < min (unat sz) (length (ab_rx a)). sc_mem (h_screen st') (buf + of_nat i) = ab_rx a ! i"
    using r(4) by (simp add: e(2))
qed

subsection \<open>Simulation\<close>

lemma hw3_step_rep:
  assumes "hw3_rep st a" and "hw3_step st e st'" and "h_starting st \<longrightarrow> e = Enter"
  shows "hw3_rep st' (ab_step e a)"
  using assms(2)
proof (cases rule: hw3_step.cases)
  case step_tick
  then show ?thesis using tick_rep [OF assms(1)] assms(3) by auto
next
  case (step_received bs w)
  then show ?thesis using received_rep [OF assms(1) step_received(3)] assms(3) by auto
next
  case step_enter
  then show ?thesis using enter_rep(1) [OF assms(1)] by simp
next
  case step_yield
  then show ?thesis using hw3_schedule_rep [of st a None] assms(1) by (auto simp: hw3_rep_core)
next
  case step_finish
  then show ?thesis using finish_rep [OF assms(1)] by auto
next
  case (step_read buf sz n)
  then show ?thesis using read_rep(1) [OF assms(1)] by auto
qed

lemma hw3_calm_rep:
  "hw3_calm st es st' \<Longrightarrow> hw3_rep st a \<Longrightarrow> hw3_rep st' (fold ab_step es a)"
  by (induction arbitrary: a rule: hw3_calm.induct) (auto dest: hw3_step_rep)

text \<open>No step is ever stuck: every event that can come has a next state.\<close>

definition hw3_possible :: "hw3 \<Rightarrow> hw3_event \<Rightarrow> bool" where
  "hw3_possible st e \<longleftrightarrow> (h_starting st \<longleftrightarrow> e = Enter) \<and>
     (\<forall>bs. e = Received bs \<longrightarrow> (\<exists>w. receives (pic_ports (h_pic st)) bs w))"

lemma hw3_step_total:
  assumes "hw3_rep st a" and "hw3_possible st e"
  shows "\<exists>st'. hw3_step st e st'"
proof (cases e)
  case Tick
  then show ?thesis using tick_rep [OF assms(1)] assms(2) hw3_repD(7) [OF assms(1)]
    by (auto simp: hw3_possible_def intro: step_tick)
next
  case (Received bs)
  with assms(2) obtain w where w: "receives (pic_ports (h_pic st)) bs w" "\<not> h_starting st"
    by (auto simp: hw3_possible_def)
  with received_rep [OF assms(1) w] Received hw3_repD(7) [OF assms(1)] show ?thesis by (auto intro: step_received)
next
  case Enter
  then show ?thesis using assms(2) by (auto simp: hw3_possible_def intro: step_enter)
next
  case Yield
  then show ?thesis using hw3_schedule_rep [of st a None] assms
    by (auto simp: hw3_possible_def hw3_rep_core intro: step_yield)
next
  case Finish
  then show ?thesis using finish_rep [OF assms(1)] assms(2) by (auto simp: hw3_possible_def intro: step_finish)
next
  case (Read buf sz)
  moreover obtain n st' where "hw3_serial_read buf sz st = (n, st')" by (rule prod.exhaust)
  ultimately show ?thesis using step_read [of st buf sz n st'] assms(2) by (auto simp: hw3_possible_def)
qed

subsection \<open>Every ready task gets its turn\<close>

definition slice_ok :: "u32 \<Rightarrow> bool" where
  "slice_ok r \<longleftrightarrow> - (2 ^ 31) < sint r \<and> sint r \<le> 10"

definition queue_ok :: "hw3_abs \<Rightarrow> bool" where
  "queue_ok a \<longleftrightarrow> distinct (ab_current a # ab_queue a) \<and> ab_current a \<notin> ab_fresh a \<and>
     (\<forall>t \<in> set (ab_queue a) \<inter> ab_fresh a. slice_ok (ab_remain a t))"

definition slices_ok :: "hw3_abs \<Rightarrow> bool" where
  "slices_ok a \<longleftrightarrow> queue_ok a \<and> slice_ok (ab_remain a (ab_current a))"

text \<open>A bound on the ticks until the task behind \<open>k\<close> others in the queue runs.\<close>

definition wait_ticks :: "hw3_abs \<Rightarrow> nat \<Rightarrow> nat" where
  "wait_ticks a k = 10 * k + nat (max 1 (sint (ab_remain a (ab_current a))))"

lemma wait_ticks_ge: "10 * k \<le> wait_ticks a k"
  unfolding wait_ticks_def by (rule le_add1)

lemma slice_ok_10: "slice_ok 10"
  by (simp add: slice_ok_def)

lemma ab_schedule_wait:
  assumes "queue_ok a" and "ab_queue a = us @ t # vs" and "10 * length us + d \<le> m"
  shows "ab_current (ab_schedule a) = t \<or>
    (\<exists>us' vs'. ab_queue (ab_schedule a) = us' @ t # vs' \<and> slices_ok (ab_schedule a) \<and>
      wait_ticks (ab_schedule a) (length us') + d \<le> m)"
proof (cases us)
  case Nil
  then show ?thesis using assms(2) by (simp add: ab_schedule_def)
next
  case (Cons n us1)
  let ?b = "ab_schedule a"
  let ?q = "(if ab_state a (ab_current a) = READY then [ab_current a] else [])"
  have b: "ab_queue ?b = us1 @ t # vs @ ?q" "ab_current ?b = n" "ab_fresh ?b = ab_fresh a - {n}"
    "ab_remain ?b = (if n \<in> ab_fresh a then ab_remain a else (ab_remain a)(n := 10))"
    using assms(2) Cons by (auto simp: ab_schedule_def)
  have a: "distinct (ab_current a # n # us1 @ t # vs)" "ab_current a \<notin> ab_fresh a"
    "\<And>u. u \<in> set (n # us1 @ t # vs) \<Longrightarrow> u \<in> ab_fresh a \<Longrightarrow> slice_ok (ab_remain a u)"
    using assms(1,2) Cons by (auto simp: queue_ok_def)
  have s: "slice_ok (ab_remain ?b n)" using a(3) [of n] slice_ok_10 by (auto simp: b(4))
  have "distinct (n # us1 @ t # vs @ ?q)" using a(1) by auto
  moreover have "slice_ok (ab_remain ?b u)" if "u \<in> set (us1 @ t # vs @ ?q)" "u \<in> ab_fresh a - {n}" for u
    using that a(2) a(3) [of u] by (auto simp: b(4) split: if_splits)
  ultimately have "slices_ok ?b" using s by (auto simp: slices_ok_def queue_ok_def b(1-3))
  moreover have "wait_ticks ?b (length us1) + d \<le> m"
  proof -
    have "nat (max 1 (sint (ab_remain ?b n))) \<le> 10" using s unfolding slice_ok_def by linarith
    with Cons assms(3) show ?thesis by (simp add: wait_ticks_def b(2))
  qed
  ultimately show ?thesis using b(1) by blast
qed

lemma ab_preempt_wait:
  assumes "queue_ok a" and "ab_queue a = us @ t # vs" and "sint (ab_remain a (ab_current a)) \<le> 10"
    and "- (2 ^ 31) \<le> sint (ab_remain a (ab_current a))"
    and "10 * length us + nat (max 0 (sint (ab_remain a (ab_current a)))) + d \<le> m"
  shows "ab_current (ab_preempt a) = t \<or>
    (\<exists>us' vs'. ab_queue (ab_preempt a) = us' @ t # vs' \<and> slices_ok (ab_preempt a) \<and>
      wait_ticks (ab_preempt a) (length us') + d \<le> m)"
proof (cases "sint (ab_remain a (ab_current a)) \<le> 0")
  case True
  then show ?thesis using ab_schedule_wait [OF assms(1,2), of d m] assms(5) by (simp add: ab_preempt_def)
next
  case False
  then have "slices_ok a" using assms by (simp add: slices_ok_def slice_ok_def)
  moreover have "wait_ticks a (length us) + d \<le> m" using False assms(5) by (simp add: wait_ticks_def max_def split: if_splits)
  ultimately show ?thesis using False assms(2) by (auto simp: ab_preempt_def)
qed

lemma sint_pred:
  assumes "slice_ok r"
  shows "sint (r - 1) = sint r - 1"
proof -
  have "sint (r - 1) = signed_take_bit 31 (sint r - 1)" by (simp add: sint_word_diff)
  also have "\<dots> = sint r - 1" using assms by (intro signed_take_bit_int_eq_self) (simp_all add: slice_ok_def)
  finally show ?thesis .
qed

lemma ab_step_wait:
  assumes "slices_ok a" and "ab_queue a = us @ t # vs"
  shows "ab_current (ab_step e a) = t \<or>
    (\<exists>us' vs'. ab_queue (ab_step e a) = us' @ t # vs' \<and> slices_ok (ab_step e a) \<and>
      wait_ticks (ab_step e a) (length us') + of_bool (e = Tick) \<le> wait_ticks a (length us))"
proof -
  let ?r = "ab_remain a (ab_current a)"
  from assms(1) have q: "queue_ok a" "slice_ok ?r" by (simp_all add: slices_ok_def)
  show ?thesis
  proof (cases e)
    case Tick
    let ?a = "a\<lparr>ab_ticks := ab_ticks a + 1, ab_acks := ab_acks a @ [0x60],
      ab_remain := (ab_remain a)(ab_current a := ?r - 1)\<rparr>"
    have "queue_ok ?a" using q(1) by (auto simp: queue_ok_def)
    moreover have r: "sint (?r - 1) = sint ?r - 1" by (rule sint_pred [OF q(2)])
    moreover have "10 * length us + nat (max 0 (sint ?r - 1)) + 1 \<le> wait_ticks a (length us)"
      unfolding wait_ticks_def by linarith
    ultimately show ?thesis unfolding Tick ab_step.simps
      using q(2) assms(2) by (intro ab_preempt_wait [where vs = vs]) (simp_all add: slice_ok_def)
  next
    case (Received bs)
    let ?a = "a\<lparr>ab_rx := take 4096 (ab_rx a @ bs), ab_acks := ab_acks a @ [0x64]\<rparr>"
    have "queue_ok ?a" using q(1) by (auto simp: queue_ok_def)
    moreover have "10 * length us + nat (max 0 (sint ?r)) \<le> wait_ticks a (length us)"
      unfolding wait_ticks_def by linarith
    ultimately show ?thesis unfolding Received ab_step.simps
      using q(2) assms(2) by (intro ab_preempt_wait [where vs = vs]) (simp_all add: slice_ok_def)
  next
    case Enter
    then show ?thesis using assms by (intro disjI2 exI [of _ us] exI [of _ vs]) simp
  next
    case Yield
    show ?thesis unfolding Yield ab_step.simps
      using q(1) assms(2) wait_ticks_ge [of "length us" a] by (intro ab_schedule_wait [where vs = vs]) simp_all
  next
    case Finish
    have "queue_ok (a\<lparr>ab_state := (ab_state a)(ab_current a := FINISHED)\<rparr>)" using q(1) by (auto simp: queue_ok_def)
    then show ?thesis unfolding Finish ab_step.simps
      using assms(2) wait_ticks_ge [of "length us" a] by (intro ab_schedule_wait [where vs = vs]) simp_all
  next
    case (Read buf sz)
    have "slices_ok (ab_step e a)" "wait_ticks (ab_step e a) (length us) = wait_ticks a (length us)"
      using assms(1) by (simp_all add: Read slices_ok_def queue_ok_def wait_ticks_def)
    then show ?thesis using assms(2) Read by fastforce
  qed
qed

lemma ab_steps_reach:
  assumes "slices_ok a" and "ab_queue a = us @ t # vs"
    and "wait_ticks a (length us) \<le> count_list es Tick"
  shows "\<exists>es1 es2. es = es1 @ es2 \<and> ab_current (fold ab_step es1 a) = t"
  using assms
proof (induction es arbitrary: a us vs)
  case Nil
  then show ?case by (simp add: wait_ticks_def)
next
  case (Cons e es)
  show ?case
  proof (cases "ab_current (ab_step e a) = t")
    case True
    then show ?thesis by (intro exI [of _ "[e]"] exI [of _ es]) simp
  next
    case False
    with ab_step_wait [OF Cons.prems(1,2), of e] obtain us' vs' where n: "ab_queue (ab_step e a) = us' @ t # vs'"
      "slices_ok (ab_step e a)" "wait_ticks (ab_step e a) (length us') + of_bool (e = Tick) \<le> wait_ticks a (length us)"
      by blast
    have "wait_ticks (ab_step e a) (length us') \<le> count_list es Tick" using n(3) Cons.prems(3) by (auto split: if_splits)
    from Cons.IH [OF n(2,1) this] obtain es1 es2 where "es = es1 @ es2" "ab_current (fold ab_step es1 (ab_step e a)) = t"
      by blast
    then show ?thesis by (intro exI [of _ "e # es1"] exI [of _ es2]) simp
  qed
qed

lemma hw3_calm_append:
  "hw3_calm st (es1 @ es2) st' \<Longrightarrow> \<exists>st1. hw3_calm st es1 st1 \<and> hw3_calm st1 es2 st'"
proof (induction es1 arbitrary: st)
  case Nil
  then show ?case by (auto intro: calm_none)
next
  case (Cons e es1)
  then show ?case by (metis append_Cons hw3_calm_ConsE calm_step)
qed

subsection \<open>A round robin\<close>

text \<open>
  While all tasks stay ready and no time slice runs out, \<open>schedule\<close>, up to the code of the next task, is
  the round robin that the kernel's is; what a task does in between is to read the serial line.
\<close>

definition hw3_turn :: "hw3 \<Rightarrow> hw3 outcome" where
  "hw3_turn st = map_sum id hw3_entered (hw3_schedule None st)"

definition hw3_waiting :: "hw3 \<Rightarrow> u32 list \<Rightarrow> bool" where
  "hw3_waiting st ts \<longleftrightarrow>
     (\<exists>a. hw3_rep st a \<and> \<not> h_starting st \<and> ab_queue a = ts \<and> ab_state a (ab_current a) = READY)"

definition hw3_reads :: "hw3 \<Rightarrow> hw3 \<Rightarrow> bool" where
  "hw3_reads st st' \<longleftrightarrow> (\<exists>buf sz n. hw3_serial_read buf sz st = (n, st'))"

lemma hw3_entered_rep: "hw3_rep st a \<Longrightarrow> hw3_rep (hw3_entered st) a \<and> \<not> h_starting (hw3_entered st)"
  by (auto simp: hw3_rep_def hw3_entered_def hw3_task_enter_def)

lemma hw3_turn_rep:
  assumes "hw3_rep st a" and "\<not> h_starting st"
  shows "\<exists>st'. hw3_turn st = Inr st' \<and> hw3_rep st' (ab_schedule a) \<and> \<not> h_starting st' \<and>
    h_current st' = ab_current (ab_schedule a)"
proof -
  obtain st1 where "hw3_schedule None st = Inr st1" "hw3_rep st1 (ab_schedule a)"
    using hw3_schedule_rep [of st a None] assms by (auto simp: hw3_rep_core)
  with hw3_entered_rep [OF this(2)] hw3_repD(9) [of "hw3_entered st1"] show ?thesis by (auto simp: hw3_turn_def)
qed

lemma hw3_serial_read_starting: "hw3_serial_read buf sz st = (n, st') \<Longrightarrow> h_starting st' = h_starting st"
  by (auto simp: hw3_serial_read_def irqsave_def irqrestore_def split: prod.splits if_splits)

interpretation hw3_scheduler: round_robin hw3_turn hw3_reads hw3_waiting h_current
proof
  show "\<exists>st'. hw3_turn st = Inr st' \<and> hw3_waiting st' [] \<and> h_current st' = h_current st"
    if w: "hw3_waiting st []" for st
  proof -
    from w obtain a where a: "hw3_rep st a" "\<not> h_starting st" "ab_queue a = []" "ab_state a (ab_current a) = READY"
      by (auto simp: hw3_waiting_def)
    have "ab_schedule a = a" by (simp add: ab_schedule_def a(3))
    with hw3_turn_rep [OF a(1,2)] hw3_repD(9) [OF a(1,2)] a(3,4) show ?thesis by (auto simp: hw3_waiting_def)
  qed
  show "\<exists>st'. hw3_turn st = Inr st' \<and> hw3_waiting st' (ts @ [h_current st]) \<and> h_current st' = t"
    if w: "hw3_waiting st (t # ts)" for st t ts
  proof -
    from w obtain a where a: "hw3_rep st a" "\<not> h_starting st" "ab_queue a = t # ts" "ab_state a (ab_current a) = READY"
      by (auto simp: hw3_waiting_def)
    obtain st' where st': "hw3_turn st = Inr st'" "hw3_rep st' (ab_schedule a)" "\<not> h_starting st'"
      "h_current st' = ab_current (ab_schedule a)" using hw3_turn_rep [OF a(1,2)] by blast
    have "h_current st = ab_current a" "ab_state a t = READY"
      using a(1-3) by (simp_all add: hw3_rep_core hw3_core_def)
    then have "ab_queue (ab_schedule a) = ts @ [h_current st]" "ab_current (ab_schedule a) = t"
      "ab_state (ab_schedule a) t = READY" using a(3,4) by (simp_all add: ab_schedule_def)
    with st' show ?thesis by (auto simp: hw3_waiting_def)
  qed
  show "hw3_waiting st' ts \<and> h_current st' = h_current st" if w: "hw3_waiting st ts" "hw3_reads st st'" for st st' ts
  proof -
    from w obtain a buf sz n where a: "hw3_rep st a" "\<not> h_starting st" "ab_queue a = ts"
      "ab_state a (ab_current a) = READY" "hw3_serial_read buf sz st = (n, st')"
      by (auto simp: hw3_waiting_def hw3_reads_def)
    note r = read_rep(1) [OF a(1,5,2)]
    have s: "\<not> h_starting st'" using hw3_serial_read_starting [OF a(5)] a(2) by simp
    have "hw3_waiting st' ts" unfolding hw3_waiting_def
      by (rule exI [of _ "ab_step (Read buf sz) a"]) (use r s a(3,4) in simp)
    moreover have "h_current st' = h_current st" using hw3_repD(9) [OF a(1,2)] hw3_repD(9) [OF r s] by simp
    ultimately show ?thesis by blast
  qed
qed

subsection \<open>The set-up\<close>

lemma handlers_loop_isrs:
  "unat i + n < 2 ^ 32 \<Longrightarrow> handlers_loop isr i n st =
    st\<lparr>h_isrs := (\<lambda>j. if unat i \<le> unat j \<and> unat j < unat i + n then Some isr else h_isrs st j)\<rparr>"
proof (induction n arbitrary: i st)
  case (Suc n)
  have u: "unat (i + 1) = unat i + 1" using Suc.prems by (subst unat_plus_no_wrap) simp_all
  have eq: "j = i \<longleftrightarrow> unat j = unat i" for j by (simp add: word_unat_eq_iff)
  show ?case using Suc.IH [of "i + 1" "set_interrupt_handler i isr st"] Suc.prems
    by (auto simp: u set_interrupt_handler_def fun_eq_iff eq intro!: hw3.equality)
qed (auto simp: fun_eq_iff intro!: hw3.equality)

lemma irq_setup_isrs:
  "h_isrs (irq_setup st) 0x20 = Some Irq_raw_handler" "h_isrs (irq_setup st) 0x24 = Some Irq_raw_handler"
  by (simp_all add: irq_setup_def exceptions_setup_def handlers_loop_isrs hw3_values)

lemma unmask_written: "written 0x20 (pt_log (pic_ports (hw_pic_unmask i p))) = written 0x20 (pt_log (pic_ports p))"
  by (simp add: hw_pic_unmask_def Let_def pic_out_def)

lemma pic_setup_written:
  "written 0x20 (pt_log (pic_ports (hw_pic_setup p))) = written 0x20 (pt_log (pic_ports p)) @ [0x11]"
  by (simp add: hw_pic_setup_def hw_pic_remap_def Let_def pic_out_def BITU_def)

definition hw3_start :: "u32 \<Rightarrow> u32 \<Rightarrow> hw3 \<Rightarrow> hw3_abs" where
  "hw3_start task1 task2 st = \<lparr>ab_queue = [task2], ab_current = task1, ab_state = (h_state st)(task2 := READY),
     ab_fresh = {task2}, ab_remain = h_remain st, ab_rx = [], ab_ticks = h_ticks st,
     ab_acks = written 0x20 (pt_log (pic_ports (h_pic st))) @ [0x11]\<rparr>"

lemma hw3_main_rep:
  assumes "task1 \<noteq> task2"
  shows "hw3_rep (hw3_main task1 task2 f1 f2 st) (hw3_start task1 task2 st)"
proof -
  let ?s2 = "exceptions_setup (st\<lparr>h_screen := hw3_clrscr (h_screen st)\<rparr>)"
  define s3 where "s3 = irq_setup ?s2"
  define s6 where "s6 = serial_setup (time_setup (pic_map hw_pic_setup s3))"
  have s3: "h_isrs s3 0x20 = Some Irq_raw_handler" "h_isrs s3 0x24 = Some Irq_raw_handler"
    by (simp_all add: s3_def irq_setup_isrs)
  have f3: "h_pic s3 = h_pic st" "h_state s3 = h_state st" "h_remain s3 = h_remain st" "h_ticks s3 = h_ticks st"
    by (simp_all add: s3_def irq_setup_def exceptions_setup_def handlers_loop_isrs hw3_values)
  have s6: "h_isrs s6 = h_isrs s3" "h_handlers s6 0 = Some Pit_irq_handler" "h_handlers s6 4 = Some Serial_irq_handler"
    "h_state s6 = h_state st" "h_remain s6 = h_remain st" "h_ticks s6 = h_ticks st"
    "rb_begin (h_rx s6) = 0" "rb_end (h_rx s6) = 0" "rb_size (h_rx s6) = 0"
    "written 0x20 (pt_log (pic_ports (h_pic s6))) = written 0x20 (pt_log (pic_ports (h_pic st))) @ [0x11]"
    by (simp_all add: s6_def serial_setup_def time_setup_def ports_map_def pic_map_def irq_unmask_def Let_def
        setup_irq_handler_def hw3_values f3 unmask_written pic_setup_written pit_set_rate_log hw3_COM_PORT_def)
  have rb: "rb_ok (h_rx s6)" "rb_bytes (h_rx s6) = []" by (simp_all add: rb_ok_def rb_bytes_def s6)
  have q: "list_rep (hw3_list_add_tail Tasks (Queue task2) (hw3_list_init Tasks h)) Tasks [Queue task2]" for h
    using hw3_lists.rep_ins_before [OF hw3_lists.rep_init, of "Queue task2" Tasks h] by simp
  have "hw3_main task1 task2 f1 f2 st = hw3_task_start task1 f1 0 (hw3_task_new task2 f2 0 (scheduler_setup s6))"
    by (simp add: hw3_main_def s6_def s3_def Let_def)
  then show ?thesis using assms q
    by (simp add: hw3_rep_def hw3_entered_def hw3_task_enter_def hw3_core_def hw3_start_def hw3_task_start_def
        hw3_task_new_def scheduler_setup_def tasks_map_def irqsave_def irqrestore_def Let_def s6 s3 rb frame_ok_def)
qed

text \<open>A run of ticks in which every fresh task gets to its function at once.\<close>

lemma enter_run:
  assumes "hw3_rep st a"
  shows "\<exists>es st'. hw3_calm st es st' \<and> set es \<subseteq> {Enter} \<and> hw3_rep st' a \<and> \<not> h_starting st'"
proof (cases "h_starting st")
  case True
  then have "hw3_calm st [Enter] (hw3_task_enter st)" by (blast intro: calm_step step_enter calm_none)
  with enter_rep [OF assms True] show ?thesis by (intro exI [of _ "[Enter]"]) auto
next
  case False
  then show ?thesis using assms calm_none by (intro exI [of _ "[]"]) auto
qed

lemma hw3_calm_trans: "hw3_calm st es st1 \<Longrightarrow> hw3_calm st1 es' st' \<Longrightarrow> hw3_calm st (es @ es') st'"
  by (induction rule: hw3_calm.induct) (auto intro: calm_step)

lemma ticks_run:
  assumes "hw3_rep st a"
  shows "\<exists>es st'. hw3_calm st es st' \<and> set es \<subseteq> {Enter, Tick} \<and> count_list es Tick = n \<and> \<not> h_starting st' \<and>
    fold ab_step es a = (ab_step Tick ^^ n) a"
proof (induction n)
  case 0
  from enter_run [OF assms] obtain es st' where e: "hw3_calm st es st'" "set es \<subseteq> {Enter}" "\<not> h_starting st'" by blast
  have "count_list es Tick = 0 \<and> fold ab_step es a = a" using e(2) by (induction es) auto
  with e show ?case by (intro exI [of _ es] exI [of _ st']) auto
next
  case (Suc n)
  then obtain es st1 where e: "hw3_calm st es st1" "set es \<subseteq> {Enter, Tick}" "count_list es Tick = n" "\<not> h_starting st1"
    "fold ab_step es a = (ab_step Tick ^^ n) a" by blast
  note r = hw3_calm_rep [OF e(1) assms]
  obtain st2 where t: "hw3_step st1 Tick st2" using hw3_step_total [OF r, of Tick] e(4) by (auto simp: hw3_possible_def)
  then have t2: "hw3_rep st2 (ab_step Tick (fold ab_step es a))" using hw3_step_rep [OF r t] e(4) by simp
  from enter_run [OF t2] obtain es' st' where e': "hw3_calm st2 es' st'" "set es' \<subseteq> {Enter}" "\<not> h_starting st'" by blast
  have "hw3_calm st1 (Tick # es') st'" using t e'(1) e(4) by (blast intro: calm_step)
  with e(1) have run: "hw3_calm st (es @ Tick # es') st'" by (rule hw3_calm_trans)
  have "count_list es' Tick = 0 \<and> fold ab_step es' b = b" for b using e'(2) by (induction es') auto
  with run e e' show ?case
    by (intro exI [of _ "es @ Tick # es'"] exI [of _ st']) (auto simp del: ab_step.simps)
qed

text \<open>The static variables when \<open>main\<close> begins: all zero, and a line without data.\<close>

definition hw3_zero :: hw3 where
  "hw3_zero = \<lparr>h_pic = \<lparr>pic_irq_mask = 0xFFFF, pic_ports = \<lparr>pt_log = [], pt_device = \<lambda>_ _. 0\<rparr>\<rparr>,
     h_screen = \<lparr>sc_mem = \<lambda>_. 0, sc_row = 0, sc_col = 0\<rparr>, h_isrs = (\<lambda>_. None), h_handlers = (\<lambda>_. None),
     h_rx = \<lparr>rb_buffer = \<lambda>_. 0, rb_begin = 0, rb_end = 0, rb_size = 0\<rparr>, h_ticks = 0,
     h_tasks = \<lparr>lh_next = (\<lambda>n. n), lh_prev = (\<lambda>n. n)\<rparr>, h_current = 0, h_frame = (\<lambda>_. Start_frame 0 0 0),
     h_remain = (\<lambda>_. 0), h_state = (\<lambda>_. READY), h_if = False, h_self = 0, h_starting = False\<rparr>"

lemma hw3_zero_slices: "task1 \<noteq> task2 \<Longrightarrow> slices_ok (hw3_start task1 task2 hw3_zero)"
  by (simp add: slices_ok_def queue_ok_def slice_ok_def hw3_start_def hw3_zero_def)

subsection \<open>An interrupt in the middle of \<open>task_start\<close>\<close>

lemma add_tail_again:
  assumes "list_rep h Tasks [Queue c]"
  shows "lh_next (hw3_list_add_tail Tasks (Queue c) h) Tasks = Queue c"
    and "lh_next (hw3_list_del (Queue c) (hw3_list_add_tail Tasks (Queue c) h)) Tasks = Queue c"
  using assms
  by (simp_all add: list_rep_def hw3_list_add_tail_def hw3_insert_fields hw3_list_del_def Let_def)

text \<open>
  When a fresh task is interrupted before it has set \<open>current\<close>, and \<open>current\<close> is a waiting task \<open>c\<close> whose
  slice is used up, the handler puts \<open>c\<close> into the list, where it is already, takes it out and switches
  to it: \<open>c\<close> runs and is still the first of the list, and what is saved under its name is the stack of
  the fresh task, which is nowhere else.
\<close>

lemma hw3_start_race:
  assumes "hw3_rep st a" and "h_starting st" and "ab_queue a = [c]" and "h_current st = c"
    and "sint (h_remain st c - 1) \<le> 0"
  shows "\<exists>st'. hw3_step st Tick st' \<and> h_self st' = c \<and> lh_next (h_tasks st') Tasks = Queue c \<and>
    saved_self (h_frame st' c) = ab_current a \<and> ab_current a \<noteq> c"
proof -
  let ?s = "pic_map (hw_pic_eoi 0) (pit_irq_handler 0 (st\<lparr>h_if := False\<rparr>))"
  from assms(1,2) have core: "list_rep (h_tasks st) Tasks [Queue c]" "h_self st = ab_current a" "h_state st c = READY"
    "frame_ok (c \<in> ab_fresh a) c (h_frame st c)" "ab_current a \<noteq> c" "h_if st"
    "h_isrs st 0x20 = Some Irq_raw_handler" "h_handlers st 0 = Some Pit_irq_handler"
    using assms(3) by (auto simp: hw3_rep_def hw3_entered_def hw3_task_enter_def hw3_core_def)
  let ?h = "hw3_list_add_tail Tasks (Queue c) (h_tasks st)"
  have s: "h_current ?s = c" "h_state ?s = h_state st" "h_tasks ?s = h_tasks st" "h_self ?s = h_self st"
    "h_starting ?s" "h_frame ?s = h_frame st" "h_if ?s = False" "h_remain ?s c = h_remain st c - 1"
    using assms(2,4) by (simp_all add: pic_map_def pit_irq_handler_def Let_def)
  have "\<not> hw3_list_empty Tasks (h_tasks st)" using hw3_lists.empty_iff [OF core(1)] by simp
  then have run: "hw3_schedule (Some True) ?s = Inr (hw3_resume (h_frame st c)
      (?s\<lparr>h_if := False, h_tasks := hw3_list_del (Queue c) ?h, h_frame := (h_frame st)(c := Saved_frame False c (ab_current a) True (Some True))\<rparr>))"
    using s core(2,3) add_tail_again(1) [OF core(1)]
    by (simp add: hw3_schedule_def irqsave_def tasks_map_def task_state_switch_def Let_def)
  have "hw3_interrupt 0x20 0 st = Some (hw3_schedule (Some True) ?s)"
    using core(6-8) s assms(4,5)
    by (simp add: hw3_interrupt_def raw_isr_def irq_raw_handler_def hw3_run_handler_def hw_INT_HIGH_def hw3_values Let_def)
  with run core(6) have "hw3_step st Tick (hw3_resume (h_frame st c)
      (?s\<lparr>h_if := False, h_tasks := hw3_list_del (Queue c) ?h, h_frame := (h_frame st)(c := Saved_frame False c (ab_current a) True (Some True))\<rparr>))"
    by (intro step_tick) simp_all
  moreover have "h_self (hw3_resume (h_frame st c) u) = c \<and> h_tasks (hw3_resume (h_frame st c) u) = h_tasks u \<and>
      h_frame (hw3_resume (h_frame st c) u) = h_frame u" for u
    using core(4) by (cases "h_frame st c")
      (auto simp: frame_ok_def hw3_resume_def hw3_task_start_def hw3_iret_def irqrestore_def Let_def split: option.splits)
  ultimately show ?thesis using add_tail_again(2) [OF core(1)] core(5) by fastforce
qed

text \<open>It can happen: \<open>main\<close> starts the first task, a tick starts the second, and another comes at once.\<close>

lemma hw3_race_reached:
  assumes "task1 \<noteq> task2"
  shows "\<exists>st st'. hw3_calm (hw3_main task1 task2 f1 f2 hw3_zero) [Enter, Tick] st \<and> hw3_step st Tick st' \<and>
    h_self st' = task1 \<and> lh_next (h_tasks st') Tasks = Queue task1 \<and> saved_self (h_frame st' task1) = task2"
proof -
  let ?m = "hw3_main task1 task2 f1 f2 hw3_zero"
  let ?a = "hw3_start task1 task2 hw3_zero"
  have start: "h_starting ?m" "h_if ?m" by (simp_all add: hw3_main_def hw3_task_start_def Let_def)
  note rep = hw3_main_rep [OF assms, of f1 f2 hw3_zero]
  define st1 where "st1 = hw3_task_enter ?m"
  have st1: "hw3_rep st1 ?a" "\<not> h_starting st1" using enter_rep [OF rep start(1)] by (simp_all add: st1_def)
  let ?s = "pic_map (hw_pic_eoi 0) (pit_irq_handler 0 (st1\<lparr>h_if := False\<rparr>))"
  let ?b = "?a\<lparr>ab_ticks := ab_ticks ?a + 1, ab_acks := ab_acks ?a @ [0x60],
     ab_remain := (ab_remain ?a)(ab_current ?a := ab_remain ?a (ab_current ?a) - 1)\<rparr>"
  have c: "hw3_core st1 ?a" "h_if st1" using st1 by (simp_all add: hw3_rep_core)
  have core: "hw3_core ?s ?b" using c by (simp add: hw3_core_def pic_map_def pit_irq_handler_def Let_def eoi_log)
  have b: "ab_queue ?b = task2 # []" "ab_current ?b = task1" "ab_remain ?b task1 = -1" "task2 \<in> ab_fresh ?b"
    "ab_state ?b task1 = READY" using assms by (simp_all add: hw3_start_def hw3_zero_def)
  have r: "h_current ?s = task1" "h_remain ?s task1 = -1" "frame_ok True task2 (h_frame ?s task2)" "h_remain ?s = ab_remain ?b"
    using core b by (auto simp: hw3_core_def)
  obtain f d where fr: "h_frame ?s task2 = Start_frame task2 f d"
    using r(3) by (auto simp: frame_ok_def split: hw3_frame.splits)
  from hw3_schedule_switch [OF core b(1) b(2) [symmetric], of "Some True"] obtain h where
    sw: "hw3_schedule (Some True) ?s = Inr (hw3_resume (h_frame ?s task2) (?s\<lparr>h_if := False, h_tasks := h,
      h_frame := (h_frame ?s)(task1 := Saved_frame (h_if ?s) task1 task1 False (Some True))\<rparr>))" (is "_ = Inr ?t") by blast
  have "hw3_interrupt 0x20 0 st1 = Some (hw3_schedule (Some True) ?s)"
    using c r(1,2) by (simp add: hw3_interrupt_def raw_isr_def irq_raw_handler_def hw3_run_handler_def hw3_core_def
        hw_INT_HIGH_def hw3_values Let_def)
  with sw c(2) have tick: "hw3_step st1 Tick ?t" by (intro step_tick) simp_all
  have t: "h_starting ?t" "h_current ?t = task1" "h_remain ?t task1 = -1"
    using r(1,2) by (simp_all add: fr hw3_resume_def hw3_task_start_def)
  have rt: "hw3_rep ?t (ab_step Tick ?a)" using hw3_step_rep [OF st1(1) tick] st1(2) by simp
  have q: "ab_queue (ab_step Tick ?a) = [task1]" "ab_current (ab_step Tick ?a) = task2"
    using assms by (simp_all add: hw3_start_def hw3_zero_def ab_preempt_def ab_schedule_def)
  have "hw3_step ?m Enter st1" unfolding st1_def by (rule step_enter [OF start(1)])
  then have "hw3_calm ?m [Enter, Tick] ?t" using tick st1(2) by (blast intro: calm_step calm_none)
  moreover from hw3_start_race [OF rt t(1) q(1) t(2)] t(3) q(2) obtain st' where "hw3_step ?t Tick st'" "h_self st' = task1"
    "lh_next (h_tasks st') Tasks = Queue task1" "saved_self (h_frame st' task1) = task2" by auto
  ultimately show ?thesis by blast
qed

subsection \<open>Properties\<close>

text \<open>
  C13: from \<open>main\<close> on, whatever timer ticks, received bytes, calls of \<open>schedule\<close>, ends of tasks and
  reads follow, as long as no interrupt comes between the two statements at the start of \<open>task_start\<close>,
  the code refines the abstract machine: interrupts are on again after every step, the task whose code
  runs is the abstract one and is \<open>current\<close> as soon as its \<open>task_start\<close> has said so, the list holds
  exactly the other ready tasks in their order, no tick is lost, the ring holds the bytes that arrived
  and were not read (at most 4096, the rest dropped), and every interrupt is acknowledged once. No step
  ever faults or waits for ever, and \<open>serial_read\<close> stores the oldest bytes in their order. An interrupt
  between the two statements can put a waiting task into the list a second time (\<open>hw3_start_race\<close>).
\<close>

theorem hw3_refines:
  assumes "task1 \<noteq> task2" and "hw3_calm (hw3_main task1 task2 f1 f2 st) es st'"
    and "a = fold ab_step es (hw3_start task1 task2 st)"
  shows "h_if st' \<and> h_self st' = ab_current a \<and> (\<not> h_starting st' \<longrightarrow> h_current st' = ab_current a) \<and>
    list_rep (h_tasks st') Tasks (map Queue (ab_queue a)) \<and> h_state st' = ab_state a \<and>
    h_ticks st' = ab_ticks a \<and> rb_bytes (h_rx st') = ab_rx a \<and>
    written 0x20 (pt_log (pic_ports (h_pic st'))) = ab_acks a \<and>
    (\<forall>e. hw3_possible st' e \<longrightarrow> (\<exists>st''. hw3_step st' e st'')) \<and>
    (\<not> h_starting st' \<longrightarrow> (\<forall>buf sz. \<exists>st''. hw3_serial_read buf sz st' = (of_nat (min (unat sz) (length (ab_rx a))), st'') \<and>
      (\<forall>i < min (unat sz) (length (ab_rx a)). sc_mem (h_screen st'') (buf + of_nat i) = ab_rx a ! i)))"
proof -
  have r: "hw3_rep st' a"
    unfolding assms(3) by (rule hw3_calm_rep [OF assms(2) hw3_main_rep [OF assms(1)]])
  have "\<exists>st''. hw3_serial_read buf sz st' = (of_nat (min (unat sz) (length (ab_rx a))), st'') \<and>
      (\<forall>i < min (unat sz) (length (ab_rx a)). sc_mem (h_screen st'') (buf + of_nat i) = ab_rx a ! i)"
    if "\<not> h_starting st'" for buf sz
    using read_rep(2,3) [OF r _ that, of buf sz] by (cases "hw3_serial_read buf sz st'") auto
  with hw3_repD [OF r] hw3_step_total [OF r] show ?thesis by blast
qed

theorem hw3_refines_witness:
  "\<exists>es st'. hw3_calm (hw3_main 0x1000 0x2000 0x100 0x200 hw3_zero) es st' \<and> set es \<subseteq> {Enter, Tick} \<and>
    count_list es Tick = 1 \<and> h_current st' = 0x2000 \<and> h_ticks st' = 1 \<and> h_if st'"
proof -
  have ne: "(0x1000 :: u32) \<noteq> 0x2000" by simp
  from ticks_run [OF hw3_main_rep [OF ne, of "0x100" "0x200" hw3_zero], of 1] obtain es st' where
    st': "hw3_calm (hw3_main 0x1000 0x2000 0x100 0x200 hw3_zero) es st'" "set es \<subseteq> {Enter, Tick}"
      "count_list es Tick = 1" "\<not> h_starting st'"
      "fold ab_step es (hw3_start 0x1000 0x2000 hw3_zero) = ab_step Tick (hw3_start 0x1000 0x2000 hw3_zero)" by auto
  have "ab_current (fold ab_step es (hw3_start 0x1000 0x2000 hw3_zero)) = 0x2000"
    "ab_ticks (fold ab_step es (hw3_start 0x1000 0x2000 hw3_zero)) = 1"
    unfolding st'(5) by (simp_all add: hw3_start_def hw3_zero_def ab_preempt_def ab_schedule_def)
  with hw3_refines [OF ne st'(1) refl] st' show ?thesis by auto
qed

text \<open>
  C15: no ready task starves, whatever the others do. When \<open>k\<close> tasks are before it in the queue and no
  time slice exceeds the ten ticks, a task has run at the latest when \<open>10 (k + 1)\<close> timer ticks have
  come, also when the running task never gives the processor up. As in the refinement, the runs are
  those in which no interrupt comes between the two statements at the start of \<open>task_start\<close>.
\<close>

theorem hw3_ready_task_runs:
  assumes "hw3_rep st a" and "slices_ok a" and "ab_queue a = us @ t # vs"
    and "hw3_calm st es st'" and "10 * (length us + 1) \<le> count_list es Tick"
  shows "\<exists>es1 es2 st1. es = es1 @ es2 \<and> hw3_calm st es1 st1 \<and> hw3_calm st1 es2 st' \<and> h_self st1 = t \<and>
    (\<not> h_starting st1 \<longrightarrow> h_current st1 = t) \<and> h_if st1"
proof -
  have "nat (max 1 (sint (ab_remain a (ab_current a)))) \<le> 10"
    using assms(2) unfolding slices_ok_def slice_ok_def by linarith
  then have "wait_ticks a (length us) \<le> count_list es Tick" using assms(5) by (simp add: wait_ticks_def)
  from ab_steps_reach [OF assms(2,3) this] obtain es1 es2 where e: "es = es1 @ es2"
    "ab_current (fold ab_step es1 a) = t" by blast
  from hw3_calm_append [OF assms(4) [unfolded e(1)]] obtain st1 where "hw3_calm st es1 st1" "hw3_calm st1 es2 st'"
    by blast
  moreover from hw3_repD [OF hw3_calm_rep [OF this(1) assms(1)]] have "h_self st1 = t" "h_if st1"
    "\<not> h_starting st1 \<longrightarrow> h_current st1 = t" using e(2) by simp_all
  ultimately show ?thesis using e(1) by blast
qed

theorem hw3_ready_task_runs_witness:
  "\<exists>es1 st1. hw3_calm (hw3_main 0x1000 0x2000 0x100 0x200 hw3_zero) es1 st1 \<and> set es1 \<subseteq> {Enter, Tick} \<and>
    h_self st1 = 0x2000"
proof -
  have ne: "(0x1000 :: u32) \<noteq> 0x2000" by simp
  note rep = hw3_main_rep [OF ne, of "0x100" "0x200" hw3_zero]
  from ticks_run [OF rep, of 10] obtain es st' where
    st': "hw3_calm (hw3_main 0x1000 0x2000 0x100 0x200 hw3_zero) es st'" "set es \<subseteq> {Enter, Tick}"
      "count_list es Tick = 10" by blast
  have "ab_queue (hw3_start 0x1000 0x2000 hw3_zero) = [] @ 0x2000 # []" by (simp add: hw3_start_def)
  moreover have "10 * (length ([] :: u32 list) + 1) \<le> count_list es Tick" by (simp add: st'(3))
  ultimately obtain es1 es2 st1 where e: "es = es1 @ es2"
    "hw3_calm (hw3_main 0x1000 0x2000 0x100 0x200 hw3_zero) es1 st1" "h_self st1 = 0x2000"
    using hw3_ready_task_runs [OF rep hw3_zero_slices [OF ne] _ st'(1)] by blast
  moreover from st'(2) have "set es1 \<subseteq> {Enter, Tick}" by (auto simp: e(1))
  ultimately show ?thesis by blast
qed

end
