(* ===== verification/Hw3_Tasks.thy ===== *)
theory Hw3_Tasks
  imports Hw3_Refine Utility
begin

text \<open>
  The two tasks of \<open>hw3/main.c\<close>: \<open>task1_function\<close> reads the serial line into a buffer on its stack and
  leaves the address of the buffer in a cell, \<open>task2_function\<close> prints what the cell points to and
  empties it. The cell is at the address both get as their data, which is 0. Timer and serial
  interrupts come between any two steps of a task, and switch to the other task when they like. What
  is promised: every byte that the ring took reaches the screen once and in order.
\<close>

subsection \<open>The tasks\<close>

text \<open>
  A constructor is the place in a function where its task goes on; between two places at most one
  byte or word that the other task uses is read or written. The loop of \<open>myputs\<close> stops at each
  character; only the second task writes to the screen.
\<close>

datatype task1_place = Check1 | Yield1 | Read1 | End1 u32 | Post1
datatype task2_place = Check2 | Yield2 | Take2 | Print2 u32 | Drop2

record mail =
  ml_hw :: hw3
  ml_task1 :: task1_place
  ml_task2 :: task2_place

definition hw3_mem :: "hw3 \<Rightarrow> memory" where "hw3_mem st = sc_mem (h_screen st)"

definition mem_map :: "(memory \<Rightarrow> memory) \<Rightarrow> hw3 \<Rightarrow> hw3" where
  "mem_map f st = st\<lparr>h_screen := (h_screen st)\<lparr>sc_mem := f (sc_mem (h_screen st))\<rparr>\<rparr>"

definition write32 :: "u32 \<Rightarrow> u32 \<Rightarrow> memory \<Rightarrow> memory" where
  "write32 a w m = store a [ucast w, ucast (drop_bit 8 w), ucast (drop_bit 16 w), ucast (drop_bit 24 w)] m"

definition task1_function :: "u32 \<Rightarrow> u32 \<Rightarrow> mail \<Rightarrow> mail outcome" where
  "task1_function msg buffer ml =
     (case ml_task1 ml of
        Check1 \<Rightarrow> Inr (ml\<lparr>ml_task1 := (if read32 (hw3_mem (ml_hw ml)) msg \<noteq> 0 then Yield1 else Read1)\<rparr>)
      | Yield1 \<Rightarrow> map_sum id (\<lambda>h. ml\<lparr>ml_hw := h, ml_task1 := Check1\<rparr>) (hw3_schedule None (ml_hw ml))
      | Read1 \<Rightarrow> (let (count, h) = hw3_serial_read buffer (256 - 1) (ml_hw ml)
                  in Inr (ml\<lparr>ml_hw := h, ml_task1 := End1 count\<rparr>))
      | End1 count \<Rightarrow>
          Inr (ml\<lparr>ml_hw := mem_map (\<lambda>m. m(buffer + count := 0)) (ml_hw ml),
                 ml_task1 := (if count \<noteq> 0 then Post1 else Check1)\<rparr>)
      | Post1 \<Rightarrow> Inr (ml\<lparr>ml_hw := mem_map (write32 msg buffer) (ml_hw ml), ml_task1 := Check1\<rparr>))"

definition task2_function :: "u32 \<Rightarrow> mail \<Rightarrow> mail outcome" where
  "task2_function msg ml =
     (case ml_task2 ml of
        Check2 \<Rightarrow> Inr (ml\<lparr>ml_task2 := (if read32 (hw3_mem (ml_hw ml)) msg = 0 then Yield2 else Take2)\<rparr>)
      | Yield2 \<Rightarrow> map_sum id (\<lambda>h. ml\<lparr>ml_hw := h, ml_task2 := Check2\<rparr>) (hw3_schedule None (ml_hw ml))
      | Take2 \<Rightarrow> Inr (ml\<lparr>ml_task2 := Print2 (read32 (hw3_mem (ml_hw ml)) msg)\<rparr>)
      | Print2 str \<Rightarrow>
          (let c = hw3_mem (ml_hw ml) str
           in Inr (if c \<noteq> 0
                   then ml\<lparr>ml_hw := (ml_hw ml)\<lparr>h_screen := hw3_myputchar c (h_screen (ml_hw ml))\<rparr>,
                          ml_task2 := Print2 (str + 1)\<rparr>
                   else ml\<lparr>ml_task2 := Drop2\<rparr>))
      | Drop2 \<Rightarrow> Inr (ml\<lparr>ml_hw := mem_map (write32 msg 0) (ml_hw ml), ml_task2 := Check2\<rparr>))"

text \<open>
  The steps of the whole: an interrupt, the second statement of \<open>task_start\<close>, or a step of the function
  of the task whose stack is in use. A step is labelled with the bytes that the ring took in.
\<close>

inductive mail_step :: "u32 \<Rightarrow> u32 \<Rightarrow> u32 \<Rightarrow> u32 \<Rightarrow> mail \<Rightarrow> u8 list \<Rightarrow> mail \<Rightarrow> bool"
  for task1 task2 msg buffer where
  mail_tick: "hw3_step (ml_hw ml) Tick h \<Longrightarrow> mail_step task1 task2 msg buffer ml [] (ml\<lparr>ml_hw := h\<rparr>)"
| mail_received: "hw3_step (ml_hw ml) (Received bs) h \<Longrightarrow>
    mail_step task1 task2 msg buffer ml (take (4096 - unat (rb_size (h_rx (ml_hw ml)))) bs) (ml\<lparr>ml_hw := h\<rparr>)"
| mail_enter: "hw3_step (ml_hw ml) Enter h \<Longrightarrow> mail_step task1 task2 msg buffer ml [] (ml\<lparr>ml_hw := h\<rparr>)"
| mail_task1: "\<lbrakk>h_self (ml_hw ml) = task1; \<not> h_starting (ml_hw ml); task1_function msg buffer ml = Inr ml'\<rbrakk> \<Longrightarrow>
    mail_step task1 task2 msg buffer ml [] ml'"
| mail_task2: "\<lbrakk>h_self (ml_hw ml) = task2; \<not> h_starting (ml_hw ml); task2_function msg ml = Inr ml'\<rbrakk> \<Longrightarrow>
    mail_step task1 task2 msg buffer ml [] ml'"

text \<open>The runs in which no interrupt comes between the two statements of \<open>task_start\<close>.\<close>

inductive mail_calm :: "u32 \<Rightarrow> u32 \<Rightarrow> u32 \<Rightarrow> u32 \<Rightarrow> mail \<Rightarrow> u8 list \<Rightarrow> mail \<Rightarrow> bool"
  for task1 task2 msg buffer where
  mail_start: "mail_calm task1 task2 msg buffer ml [] ml"
| mail_more: "\<lbrakk>mail_calm task1 task2 msg buffer ml bs ml1; mail_step task1 task2 msg buffer ml1 cs ml';
    h_starting (ml_hw ml1) \<longrightarrow> cs = [] \<and> ml' = ml1\<lparr>ml_hw := hw3_task_enter (ml_hw ml1)\<rparr>\<rbrakk> \<Longrightarrow>
    mail_calm task1 task2 msg buffer ml (bs @ cs) ml'"

definition mail_main :: "u32 \<Rightarrow> u32 \<Rightarrow> u32 \<Rightarrow> u32 \<Rightarrow> hw3 \<Rightarrow> mail" where
  "mail_main task1 task2 f1 f2 st = \<lparr>ml_hw = hw3_main task1 task2 f1 f2 st, ml_task1 = Check1, ml_task2 = Check2\<rparr>"

subsection \<open>Memory\<close>

definition in_video :: "u32 \<Rightarrow> bool" where "in_video a \<longleftrightarrow> 0xB8000 \<le> a \<and> a < 0xB8F00"
definition in_buffer :: "u32 \<Rightarrow> u32 \<Rightarrow> bool" where "in_buffer buffer a \<longleftrightarrow> unat (a - buffer) < 256"
definition in_cell :: "u32 \<Rightarrow> u32 \<Rightarrow> bool" where "in_cell msg a \<longleftrightarrow> unat (a - msg) < 4"

definition mail_layout :: "u32 \<Rightarrow> u32 \<Rightarrow> bool" where
  "mail_layout msg buffer \<longleftrightarrow> buffer \<noteq> 0 \<and> (\<forall>a. \<not> (in_video a \<and> in_buffer buffer a) \<and>
     \<not> (in_video a \<and> in_cell msg a) \<and> \<not> (in_buffer buffer a \<and> in_cell msg a))"

lemma bytes_of_int:
  assumes "0 \<le> x" and "x < 2 ^ 32"
  shows "x mod 256 + 256 * (x div 256 mod 256 + 256 * (x div 65536 mod 256 + 256 * (x div 16777216 mod 256))) = (x :: int)"
proof -
  have d: "x div 65536 = x div 256 div 256" "x div 16777216 = x div 256 div 256 div 256"
    by (simp_all add: zdiv_zmult2_eq [symmetric])
  have "x div 256 div 256 div 256 < 256" using assms(2) by (simp add: zdiv_zmult2_eq [symmetric])
  moreover have "0 \<le> x div 256 div 256 div 256" using assms(1) by simp
  ultimately have top: "x div 256 div 256 div 256 mod 256 = x div 256 div 256 div 256"
    by (intro mod_pos_pos_trivial)
  show ?thesis by (simp only: d top mod_mult_div_eq)
qed

lemma read_write32 [simp]: "read32 (write32 a w m) a = w"
proof -
  let ?b = "\<lambda>n. ucast (drop_bit n w) :: u8"
  have u: "uint (?b n) = uint w div 2 ^ n mod 256" for n
  proof -
    have "uint (drop_bit n w) = drop_bit n (uint w)" 
      unfolding unsigned_drop_bit_eq using uint_lt2p [of w] by (simp add: take_bit_int_eq_self)
    then show ?thesis by (simp add: unsigned_ucast_eq take_bit_eq_mod drop_bit_eq_div [of n "uint w"])
  qed
  have low: "uint (ucast w :: u8) = uint w mod 256" using u [of 0] by simp
  have e: "uint w mod 256 + 256 * (uint w div 256 mod 256 + 256 * (uint w div 65536 mod 256 +
      256 * (uint w div 16777216 mod 256))) = uint w"
    using uint_lt2p [of w] by (intro bytes_of_int) simp_all
  have "(word_rcat [?b 24, ?b 16, ?b 8, ucast w] :: u32) = word_of_int (uint w mod 256 + 256 *
      (uint (?b 8) + 256 * (uint (?b 16) + 256 * uint (?b 24))))"
    by (simp add: word_rcat_def low del: unsigned_ucast_eq)
  also have "\<dots> = w" using u [of 8] u [of 16] u [of 24] e by (simp only: power_numeral) simp
  finally show ?thesis by (simp add: read32_def write32_def store_def)
qed

lemma write32_other: "\<not> in_cell msg a \<Longrightarrow> write32 msg w m a = m a"
  by (simp add: write32_def store_def in_cell_def)

lemma read32_cong: "(\<And>a. in_cell msg a \<Longrightarrow> m a = m' a) \<Longrightarrow> read32 m msg = read32 m' msg"
  by (simp add: read32_def in_cell_def)

text \<open>A text in the buffer, ending in a zero that is in the buffer, too.\<close>

definition in_text :: "u32 \<Rightarrow> nat \<Rightarrow> u32 \<Rightarrow> bool" where "in_text b l a \<longleftrightarrow> unat (a - b) \<le> l"

definition text_in :: "memory \<Rightarrow> u32 \<Rightarrow> nat \<Rightarrow> u32 \<Rightarrow> u8 list \<Rightarrow> bool" where
  "text_in m b l p s \<longleftrightarrow> string_at m p s \<and> unat (p - b) + length s \<le> l \<and> l < 2 ^ 32"

lemma in_text_buffer: "in_text buffer 255 = in_buffer buffer"
  by (auto simp: fun_eq_iff in_text_def in_buffer_def)

lemma offset_unat:
  "unat (p - b) + i < 2 ^ 32 \<Longrightarrow> unat ((p :: u32) + of_nat i - b) = unat (p - b) + i"
proof -
  assume i: "unat (p - b) + i < 2 ^ 32"
  then have "unat (of_nat i :: u32) = i" by (simp add: unat_of_nat take_bit_nat_eq_self)
  moreover from this i have "unat (p - b) + unat (of_nat i :: u32) < 2 ^ LENGTH(32)" by simp
  then have "unat ((p - b) + of_nat i) = unat (p - b) + unat (of_nat i :: u32)"
    by (subst unat_plus_no_wrap) simp_all
  ultimately show ?thesis by (simp add: algebra_simps)
qed

lemma text_in_text:
  "text_in m b l p s \<Longrightarrow> i \<le> length s \<Longrightarrow> in_text b l (p + of_nat i)"
  by (simp add: text_in_def in_text_def offset_unat)

lemma text_in_cong:
  assumes "text_in m b l p s" and "\<And>a. in_text b l a \<Longrightarrow> m' a = m a"
  shows "text_in m' b l p s"
proof -
  have "m' (p + of_nat i) = m (p + of_nat i)" if "i \<le> length s" for i
    using text_in_text [OF assms(1) that] by (rule assms(2))
  with assms(1) show ?thesis by (simp add: text_in_def string_at_def)
qed

lemma text_in_nth: "text_in m b l p s \<Longrightarrow> i < length s \<Longrightarrow> m (p + of_nat i) = s ! i"
  by (simp add: text_in_def string_at_def)

lemma text_in_Cons:
  assumes "text_in m b l p s" and "m p \<noteq> 0"
  shows "\<exists>s'. s = m p # s' \<and> text_in m b l (p + 1) s'"
proof (cases s)
  case Nil
  with assms show ?thesis by (simp add: text_in_def string_at_def)
next
  case (Cons c s')
  have c: "c = m p" using assms(1) Cons by (auto simp: text_in_def string_at_def)
  have "m (p + 1 + of_nat i) = s' ! i" if "i < length s'" for i
  proof -
    have "m (p + of_nat (Suc i)) = s ! Suc i" 
      using assms(1) that by (intro text_in_nth) (simp_all add: Cons)
    then show ?thesis by (simp add: Cons add.assoc)
  qed
  moreover have "m (p + 1 + of_nat (length s')) = 0"
    using assms(1) by (simp add: text_in_def string_at_def Cons add.assoc)
  moreover have "unat (p + 1 - b) = unat (p - b) + 1"
    using offset_unat [of p b 1] assms(1) Cons by (simp add: text_in_def)
  ultimately show ?thesis using assms(1) Cons c by (simp add: text_in_def string_at_def)
qed

lemma text_in_Nil: "text_in m b l p s \<Longrightarrow> m p = 0 \<Longrightarrow> s = []"
  by (cases s) (auto simp: text_in_def string_at_def)

subsection \<open>The screen\<close>

text \<open>Two states that look the same: what is outside the text screen does not matter to it.\<close>

definition screen_same :: "hw_screen \<Rightarrow> hw_screen \<Rightarrow> bool" where
  "screen_same s t \<longleftrightarrow> sc_row s = sc_row t \<and> sc_col s = sc_col t \<and> (\<forall>a. in_video a \<longrightarrow> sc_mem s a = sc_mem t a)"

lemma screen_same_refl: "screen_same s s"
  by (simp add: screen_same_def)

lemma hw_put_same: "screen_same s t \<Longrightarrow> screen_same (hw_put off b s) (hw_put off b t)"
  by (simp add: screen_same_def hw_put_def)

lemma clear_cells_same: "screen_same s t \<Longrightarrow> screen_same (clear_cells n off s) (clear_cells n off t)"
  by (induction n arbitrary: off s t) (simp_all add: hw_put_same)

lemma hw_newline_same:
  assumes "screen_same s t"
  shows "screen_same (hw_newline s) (hw_newline t)"
proof -
  have "screen_same (s\<lparr>sc_row := r, sc_col := c\<rparr>) (t\<lparr>sc_row := r, sc_col := c\<rparr>)" for r c
    using assms by (simp add: screen_same_def)
  moreover have "sc_row s = sc_row t" using assms by (simp add: screen_same_def)
  ultimately show ?thesis by (simp add: hw_newline_def clear_cells_same)
qed

lemma put_cell_same:
  assumes "screen_same s t"
  shows "screen_same (put_cell c s) (put_cell c t)"
proof -
  let ?off = "(sc_col t + sc_row t * hw_cols) * 2"
  let ?p = "\<lambda>s. hw_put (?off + 1) hw_attr (hw_put ?off c s)"
  have e: "sc_row s = sc_row t" "sc_col s = sc_col t" using assms by (simp_all add: screen_same_def)
  have "screen_same (?p s) (?p t)" by (intro hw_put_same assms)
  then have "screen_same ((?p s)\<lparr>sc_col := k\<rparr>) ((?p t)\<lparr>sc_col := k\<rparr>)" for k by (simp add: screen_same_def)
  then show ?thesis using hw_newline_same by (simp add: put_cell_def Let_def e)
qed

lemma hw3_myputchar_same: "screen_same s t \<Longrightarrow> screen_same (hw3_myputchar c s) (hw3_myputchar c t)"
  by (simp add: hw3_myputchar_def hw_newline_same put_cell_same)

lemma hw3_myputchar_on: "on_screen s \<Longrightarrow> on_screen (hw3_myputchar c s) \<and> outside_same s (hw3_myputchar c s)"
  by (simp add: hw3_myputchar_def put_cell_on hw_newline_on)

lemma outside_mem: "outside_same s t \<Longrightarrow> \<not> in_video a \<Longrightarrow> sc_mem t a = sc_mem s a"
  by (auto simp: outside_same_def in_video_def)

subsection \<open>What interrupts and switches leave alone\<close>

lemma hw3_resume_screen [simp]: "h_screen (hw3_resume f st) = h_screen st"
  by (simp add: hw3_resume_def hw3_task_start_def hw3_iret_def irqrestore_def Let_def split: hw3_frame.split option.split)

lemma hw3_schedule_screen: "hw3_schedule i st = Inr st' \<Longrightarrow> h_screen st' = h_screen st"
  by (auto simp: hw3_schedule_def irqsave_def irqrestore_def hw3_iret_def tasks_map_def task_state_switch_def Let_def
      split: if_splits hw3_node.splits option.splits)

lemma hw3_run_handler_screen: "hw3_run_handler h irq st = Some st' \<Longrightarrow> h_screen st' = h_screen st"
  by (auto simp: hw3_run_handler_def pit_irq_handler_def run_serial_handler_def ports_map_def pic_map_def Let_def
      split: hw3_handler.splits)

lemma irq_raw_handler_screen:
  "irq_raw_handler intno errno i st = Some (Inr st') \<Longrightarrow> h_screen st' = h_screen st"
  by (auto simp: irq_raw_handler_def pic_map_def hw3_iret_def Let_def dest!: hw3_schedule_screen hw3_run_handler_screen
      split: if_splits option.splits)

lemma hw3_interrupt_screen: "hw3_interrupt intno errno st = Some (Inr st') \<Longrightarrow> h_screen st' = h_screen st"
  by (auto simp: hw3_interrupt_def raw_isr_def general_error_handler_def hw3_iret_def dest!: irq_raw_handler_screen
      split: if_splits option.splits hw3_isr.splits)

lemma hw3_rep_mem: "hw3_rep (mem_map f st) a = hw3_rep st a" "hw3_rep (st\<lparr>h_screen := s\<rparr>) a = hw3_rep st a"
  by (simp_all add: hw3_rep_def hw3_entered_def hw3_task_enter_def hw3_core_def mem_map_def)

definition ab_tasks :: "hw3_abs \<Rightarrow> u32 set" where "ab_tasks a = insert (ab_current a) (set (ab_queue a))"

lemma ab_schedule_tasks: "ab_tasks (ab_schedule a) \<subseteq> ab_tasks a" "ab_tasks (ab_preempt a) \<subseteq> ab_tasks a"
  by (auto simp: ab_tasks_def ab_schedule_def ab_preempt_def split: list.splits if_splits)

lemma ab_step_tasks: "ab_tasks (ab_step e a) \<subseteq> ab_tasks a"
proof -
  have "ab_tasks (a\<lparr>ab_ticks := t, ab_acks := k, ab_remain := r\<rparr>) = ab_tasks a"
    "ab_tasks (a\<lparr>ab_rx := b, ab_acks := k\<rparr>) = ab_tasks a" "ab_tasks (a\<lparr>ab_state := z\<rparr>) = ab_tasks a"
    "ab_tasks (a\<lparr>ab_rx := b\<rparr>) = ab_tasks a" for t k r b z by (simp_all add: ab_tasks_def)
  then show ?thesis using ab_schedule_tasks by (cases e) (metis ab_step.simps order_refl)+
qed

lemma ab_schedule_rx: "ab_rx (ab_schedule a) = ab_rx a" "ab_rx (ab_preempt a) = ab_rx a"
  by (simp_all add: ab_schedule_def ab_preempt_def split: list.split)

subsection \<open>No byte is lost on the way\<close>

text \<open>
  What has been read and not yet printed, by the places where the two tasks are. The texts that the cell
  can point to are the buffer and the one that it points to when \<open>main\<close> begins; \<open>B\<close> has the address and
  the length of each.
\<close>

definition texts_apart :: "u32 \<Rightarrow> (u32 \<times> nat) set \<Rightarrow> bool" where
  "texts_apart buffer B \<longleftrightarrow> (buffer, 255) \<in> B \<and> (\<forall>(b, l) \<in> B. \<forall>a. \<not> (in_video a \<and> in_text b l a))"

definition in_flight :: "u32 \<Rightarrow> u32 \<Rightarrow> (u32 \<times> nat) set \<Rightarrow> memory \<Rightarrow> task1_place \<Rightarrow> task2_place \<Rightarrow> u8 list \<Rightarrow> bool" where
  "in_flight msg buffer B m t1 t2 pend =
     (if read32 m msg = 0 then
        t2 \<in> {Check2, Yield2} \<and>
        (case t1 of
           End1 n \<Rightarrow> pend = map (\<lambda>i. m (buffer + of_nat i)) [0..<unat n] \<and> unat n \<le> 255
         | Post1 \<Rightarrow> text_in m buffer 255 buffer pend
         | _ \<Rightarrow> pend = [])
      else t1 \<in> {Check1, Yield1} \<and> (\<exists>l. (read32 m msg, l) \<in> B \<and>
        (case t2 of
           Print2 p \<Rightarrow> text_in m (read32 m msg) l p pend
         | Drop2 \<Rightarrow> pend = []
         | _ \<Rightarrow> text_in m (read32 m msg) l (read32 m msg) pend)))"

abbreviation flight :: "u32 \<Rightarrow> u32 \<Rightarrow> (u32 \<times> nat) set \<Rightarrow> mail \<Rightarrow> u8 list \<Rightarrow> bool" where
  "flight msg buffer B ml \<equiv> in_flight msg buffer B (hw3_mem (ml_hw ml)) (ml_task1 ml) (ml_task2 ml)"

definition mail_inv :: "u32 set \<Rightarrow> u32 \<Rightarrow> u32 \<Rightarrow> (u32 \<times> nat) set \<Rightarrow> hw_screen \<Rightarrow> u8 list \<Rightarrow> mail \<Rightarrow> bool" where
  "mail_inv T msg buffer B s0 acc ml \<longleftrightarrow>
     (\<exists>a out pend. hw3_rep (ml_hw ml) a \<and> ab_tasks a \<subseteq> T \<and> acc = out @ pend @ ab_rx a \<and> flight msg buffer B ml pend \<and>
        on_screen (h_screen (ml_hw ml)) \<and> screen_same (h_screen (ml_hw ml)) (fold hw3_myputchar out s0))"

lemma mail_invI:
  "\<lbrakk>hw3_rep (ml_hw ml) a; ab_tasks a \<subseteq> T; acc = out @ pend @ ab_rx a; flight msg buffer B ml pend; on_screen (h_screen (ml_hw ml));
    screen_same (h_screen (ml_hw ml)) (fold hw3_myputchar out s0)\<rbrakk> \<Longrightarrow> mail_inv T msg buffer B s0 acc ml"
  unfolding mail_inv_def by blast

lemma mail_keep:
  assumes "mail_inv T msg buffer B s0 acc ml" and "0 \<notin> set (acc @ bs)"
    and "\<And>a. hw3_rep (ml_hw ml) a \<Longrightarrow> \<exists>a'. hw3_rep h a' \<and> ab_tasks a' \<subseteq> ab_tasks a \<and> ab_rx a' = ab_rx a @ bs"
    and "h_screen h = h_screen (ml_hw ml)" and "ml_hw ml' = h"
    and "\<And>pend. flight msg buffer B ml pend \<Longrightarrow> flight msg buffer B ml' pend"
  shows "mail_inv T msg buffer B s0 (acc @ bs) ml'"
proof -
  from assms(1) obtain a out pend where i: "hw3_rep (ml_hw ml) a" "acc = out @ pend @ ab_rx a"
    "flight msg buffer B ml pend" "on_screen (h_screen (ml_hw ml))"
    "screen_same (h_screen (ml_hw ml)) (fold hw3_myputchar out s0)" "ab_tasks a \<subseteq> T"
    by (auto simp: mail_inv_def)
  from assms(3) [OF i(1)] obtain a' where "hw3_rep h a'" "ab_tasks a' \<subseteq> ab_tasks a" "ab_rx a' = ab_rx a @ bs" by blast
  then show ?thesis using i assms(4-6) by (intro mail_invI [of ml' a' _ _ out pend]) simp_all
qed

text \<open>Interrupts.\<close>

lemma mail_interrupt:
  assumes "mail_inv T msg buffer B s0 acc ml" and "hw3_step (ml_hw ml) e h" and "h_starting (ml_hw ml) \<longrightarrow> e = Enter"
    and "e \<in> {Tick, Enter} \<and> bs = [] \<or> (\<exists>cs. e = Received cs \<and> bs = take (4096 - unat (rb_size (h_rx (ml_hw ml)))) cs)"
    and "0 \<notin> set (acc @ bs)"
  shows "mail_inv T msg buffer B s0 (acc @ bs) (ml\<lparr>ml_hw := h\<rparr>)"
proof (rule mail_keep [OF assms(1,5), where h = h])
  fix a assume r: "hw3_rep (ml_hw ml) a"
  from hw3_repD [OF r] have "rb_ok (h_rx (ml_hw ml))" "ab_rx a = rb_bytes (h_rx (ml_hw ml))" by simp_all
  then have l: "length (ab_rx a) = unat (rb_size (h_rx (ml_hw ml)))" "length (ab_rx a) \<le> 4096"
    by (simp_all add: rb_ok_def)
  have "ab_rx (ab_step e a) = ab_rx a @ bs" using assms(4) l by (auto simp: ab_schedule_rx)
  with hw3_step_rep [OF r assms(2,3)] ab_step_tasks [of e a]
  show "\<exists>a'. hw3_rep h a' \<and> ab_tasks a' \<subseteq> ab_tasks a \<and> ab_rx a' = ab_rx a @ bs" by blast
next
  show scr: "h_screen h = h_screen (ml_hw ml)"
    using assms(2,4) by (auto simp: hw3_step_simps hw3_task_enter_def dest: hw3_interrupt_screen)
  show "ml_hw (ml\<lparr>ml_hw := h\<rparr>) = h" by simp
  fix pend assume "flight msg buffer B ml pend"
  then show "flight msg buffer B (ml\<lparr>ml_hw := h\<rparr>) pend" by (simp add: hw3_mem_def scr)
qed

lemma mail_yield:
  assumes "mail_inv T msg buffer B s0 acc ml" and "hw3_schedule None (ml_hw ml) = Inr h" and "0 \<notin> set acc"
    and "\<not> h_starting (ml_hw ml)" and "ml' = ml\<lparr>ml_hw := h, ml_task1 := p, ml_task2 := q\<rparr>"
    and "\<And>pend. flight msg buffer B ml pend \<Longrightarrow> flight msg buffer B (ml\<lparr>ml_task1 := p, ml_task2 := q\<rparr>) pend"
  shows "mail_inv T msg buffer B s0 acc ml'"
proof -
  note scr = hw3_schedule_screen [OF assms(2)]
  have "\<exists>a'. hw3_rep h a' \<and> ab_tasks a' \<subseteq> ab_tasks a \<and> ab_rx a' = ab_rx a @ []" if r: "hw3_rep (ml_hw ml) a" for a
    using hw3_step_rep [OF r step_yield [OF assms(4,2)]] assms(4) ab_schedule_tasks(1) [of a]
    by (intro exI [of _ "ab_schedule a"]) (simp add: ab_schedule_rx)
  moreover have "flight msg buffer B ml' pend" if "flight msg buffer B ml pend" for pend
    using assms(6) [OF that] by (simp add: hw3_mem_def scr assms(5))
  ultimately show ?thesis
    using mail_keep [OF assms(1), of "[]" h ml'] assms(3,5) scr by simp
qed

text \<open>A step of a task that only goes to another place.\<close>

lemma mail_goto:
  assumes "mail_inv T msg buffer B s0 acc ml" and "ml_hw ml' = ml_hw ml"
    and "\<And>pend. flight msg buffer B ml pend \<Longrightarrow> flight msg buffer B ml' pend"
  shows "mail_inv T msg buffer B s0 acc ml'"
  using assms unfolding mail_inv_def by metis

text \<open>A step of a task that writes to memory outside the screen.\<close>

lemma mail_write:
  assumes "mail_inv T msg buffer B s0 acc ml" and "ml_hw ml' = mem_map f (ml_hw ml)"
    and "\<And>a m. in_video a \<Longrightarrow> f m a = m a"
    and "\<And>pend. flight msg buffer B ml pend \<Longrightarrow> set pend \<subseteq> set acc \<Longrightarrow> flight msg buffer B ml' pend"
  shows "mail_inv T msg buffer B s0 acc ml'"
proof -
  from assms(1) obtain a out pend where i: "hw3_rep (ml_hw ml) a" "acc = out @ pend @ ab_rx a"
    "flight msg buffer B ml pend" "on_screen (h_screen (ml_hw ml))"
    "screen_same (h_screen (ml_hw ml)) (fold hw3_myputchar out s0)" "ab_tasks a \<subseteq> T"
    by (auto simp: mail_inv_def)
  have "flight msg buffer B ml' pend" using assms(4) [OF i(3)] i(2) by auto
  moreover have "on_screen (h_screen (ml_hw ml'))" using i(4) by (simp add: assms(2) mem_map_def on_screen_def)
  moreover have "screen_same (h_screen (ml_hw ml')) (fold hw3_myputchar out s0)"
    using i(5) assms(3) by (simp add: assms(2) mem_map_def screen_same_def)
  ultimately show ?thesis using i(1,2,6) by (intro mail_invI [of ml' a _ _ out pend]) (simp_all add: assms(2) hw3_rep_mem)
qed

text \<open>The steps of the first task.\<close>

lemma in_flight_cong:
  assumes "in_flight msg buffer B m t1 t2 pend" and "(buffer, 255) \<in> B"
    and "\<And>a. in_cell msg a \<or> (\<exists>(b, l) \<in> B. in_text b l a) \<Longrightarrow> m' a = m a"
  shows "in_flight msg buffer B m' t1 t2 pend"
proof -
  have cell: "read32 m' msg = read32 m msg" using assms(3) by (intro read32_cong) simp
  have same: "text_in m' b l p s" if "(b, l) \<in> B" "text_in m b l p s" for b l p s
    using text_in_cong [OF that(2), of m'] assms(3) that(1) by blast
  moreover have "m' (buffer + of_nat i) = m (buffer + of_nat i)" if "i < 255" for i
  proof -
    from that have "in_text buffer 255 (buffer + of_nat i)" using offset_unat [of buffer buffer i] by (simp add: in_text_def)
    with assms(2,3) show ?thesis by blast
  qed
  ultimately show ?thesis using assms(1) same [OF assms(2)] same
    by (cases "read32 m msg = 0") (auto simp: in_flight_def cell split: task1_place.splits task2_place.splits)
qed

lemma serial_read_mem:
  assumes "hw3_rep st a" and "hw3_serial_read buf 255 st = (n, st')" and "\<not> h_starting st"
  shows "hw3_rep st' (a\<lparr>ab_rx := drop 255 (ab_rx a)\<rparr>)" and "unat n = min 255 (length (ab_rx a))"
    and "\<And>i. i < unat n \<Longrightarrow> hw3_mem st' (buf + of_nat i) = ab_rx a ! i"
    and "\<And>x. \<not> in_buffer buf x \<Longrightarrow> hw3_mem st' x = hw3_mem st x"
    and "sc_row (h_screen st') = sc_row (h_screen st)" and "sc_col (h_screen st') = sc_col (h_screen st)"
proof -
  from read_rep [OF assms] show "hw3_rep st' (a\<lparr>ab_rx := drop 255 (ab_rx a)\<rparr>)" and
    n: "unat n = min 255 (length (ab_rx a))" and
    "\<And>i. i < unat n \<Longrightarrow> hw3_mem st' (buf + of_nat i) = ab_rx a ! i"
    by (simp_all add: hw3_mem_def unat_of_nat take_bit_nat_eq_self min_def)
  from hw3_repD [OF assms(1)] have ok: "rb_ok (h_rx st)" "rb_bytes (h_rx st) = ab_rx a" by simp_all
  from serial_read_bytes [OF ok(1), of buf 255 "hw3_mem st"] obtain rb' m' where
    r: "serial_read buf 255 (h_rx st) (hw3_mem st) = (of_nat (min 255 (length (ab_rx a))), rb', m')"
    "\<forall>x. min 255 (length (ab_rx a)) \<le> unat (x - buf) \<longrightarrow> m' x = hw3_mem st x"
    unfolding ok(2) by auto
  have e: "hw3_mem st' = m'" "sc_row (h_screen st') = sc_row (h_screen st)" "sc_col (h_screen st') = sc_col (h_screen st)"
    using assms(2) r(1) by (auto simp: hw3_serial_read_def irqsave_def irqrestore_def hw3_mem_def split: if_splits)
  then show "sc_row (h_screen st') = sc_row (h_screen st)" "sc_col (h_screen st') = sc_col (h_screen st)" by simp_all
  show "hw3_mem st' x = hw3_mem st x" if "\<not> in_buffer buf x" for x
    using r(2) that by (simp add: e(1) in_buffer_def)
qed

lemma mail_read:
  assumes "mail_inv T msg buffer B s0 acc ml" and "mail_layout msg buffer" and "ml_task1 ml = Read1"
    and "hw3_serial_read buffer 255 (ml_hw ml) = (n, h)" and "\<not> h_starting (ml_hw ml)"
  shows "mail_inv T msg buffer B s0 acc (ml\<lparr>ml_hw := h, ml_task1 := End1 n\<rparr>)"
proof -
  from assms(1) obtain a out pend where i: "hw3_rep (ml_hw ml) a" "acc = out @ pend @ ab_rx a"
    "flight msg buffer B ml pend" "on_screen (h_screen (ml_hw ml))"
    "screen_same (h_screen (ml_hw ml)) (fold hw3_myputchar out s0)" "ab_tasks a \<subseteq> T"
    by (auto simp: mail_inv_def)
  note r = serial_read_mem [OF i(1) assms(4,5)]
  have z: "read32 (hw3_mem (ml_hw ml)) msg = 0" "ml_task2 ml \<in> {Check2, Yield2}" "pend = []"
    using i(3) assms(3) by (auto simp: in_flight_def split: if_splits)
  have "read32 (hw3_mem h) msg = 0"
    unfolding z(1) [symmetric] using r(4) assms(2) by (intro read32_cong) (auto simp: mail_layout_def)
  moreover have "take 255 (ab_rx a) = map (\<lambda>i. hw3_mem h (buffer + of_nat i)) [0..<unat n]"
    using r(2,3) by (intro nth_equalityI) auto
  ultimately have "flight msg buffer B (ml\<lparr>ml_hw := h, ml_task1 := End1 n\<rparr>) (take 255 (ab_rx a))"
    using z(2) r(2) by (simp add: in_flight_def)
  moreover have "on_screen (h_screen h)" using i(4) r(5,6) by (simp add: on_screen_def)
  moreover have "screen_same (h_screen h) (fold hw3_myputchar out s0)"
    using i(5) r(4-6) assms(2) by (simp add: screen_same_def mail_layout_def hw3_mem_def)
  ultimately show ?thesis using r(1) i(2,6) z(3)
    by (intro mail_invI [of _ "a\<lparr>ab_rx := drop 255 (ab_rx a)\<rparr>" _ _ out "take 255 (ab_rx a)"])
      (simp_all add: ab_tasks_def)
qed

lemma mail_end:
  assumes "mail_inv T msg buffer B s0 acc ml" and "mail_layout msg buffer" and "ml_task1 ml = End1 n" and "0 \<notin> set acc"
  shows "mail_inv T msg buffer B s0 acc (ml\<lparr>ml_hw := mem_map (\<lambda>m. m(buffer + n := 0)) (ml_hw ml),
    ml_task1 := (if n \<noteq> 0 then Post1 else Check1)\<rparr>)" (is "mail_inv _ _ _ _ _ _ ?ml")
proof (cases "unat n \<le> 255")
  case True
  let ?m = "hw3_mem (ml_hw ml)" and ?m' = "(hw3_mem (ml_hw ml))(buffer + n := 0)"
  have b: "in_buffer buffer (buffer + n)" using True by (simp add: in_buffer_def)
  show ?thesis
  proof (rule mail_write [OF assms(1)])
    show "ml_hw ?ml = mem_map (\<lambda>m. m(buffer + n := 0)) (ml_hw ml)" by simp
    show "(m(buffer + n := 0)) a = m a" if "in_video a" for a and m :: memory
      using that b assms(2) by (auto simp: mail_layout_def)
    fix pend assume f: "flight msg buffer B ml pend" and sub: "set pend \<subseteq> set acc"
    then have z: "read32 ?m msg = 0" "ml_task2 ml \<in> {Check2, Yield2}"
      "pend = map (\<lambda>i. ?m (buffer + of_nat i)) [0..<unat n]"
      using assms(3) by (auto simp: in_flight_def split: if_splits)
    have "read32 ?m' msg = 0" unfolding z(1) [symmetric] using b assms(2) by (intro read32_cong) (auto simp: mail_layout_def)
    moreover have "text_in ?m' buffer 255 buffer pend"
    proof -
      have "buffer + of_nat i \<noteq> buffer + n" if "i < unat n" for i
      proof -
        from that True have "unat (of_nat i :: u32) = i" by (simp add: unat_of_nat take_bit_nat_eq_self)
        with that show ?thesis by auto
      qed
      then show ?thesis using z(3) True sub assms(4) by (auto simp: text_in_def string_at_def)
    qed
    moreover have "n = 0 \<Longrightarrow> pend = []" using z(3) by simp
    ultimately show "flight msg buffer B ?ml pend" using z(2)
      by (simp add: in_flight_def mem_map_def hw3_mem_def)
  qed
next
  case False
  with assms(1,3) show ?thesis by (auto simp: mail_inv_def in_flight_def split: if_splits)
qed

lemma mail_post:
  assumes "mail_inv T msg buffer B s0 acc ml" and "mail_layout msg buffer" and "ml_task1 ml = Post1"
    and "(buffer, 255) \<in> B"
  shows "mail_inv T msg buffer B s0 acc (ml\<lparr>ml_hw := mem_map (write32 msg buffer) (ml_hw ml), ml_task1 := Check1\<rparr>)"
    (is "mail_inv _ _ _ _ _ _ ?ml")
proof (rule mail_write [OF assms(1)])
  show "ml_hw ?ml = mem_map (write32 msg buffer) (ml_hw ml)" by simp
  show "write32 msg buffer m a = m a" if "in_video a" for a m
    using that assms(2) by (intro write32_other) (auto simp: mail_layout_def)
  fix pend assume "flight msg buffer B ml pend"
  then have z: "ml_task2 ml \<in> {Check2, Yield2}" "text_in (hw3_mem (ml_hw ml)) buffer 255 buffer pend"
    using assms(3) by (auto simp: in_flight_def split: if_splits)
  have "text_in (write32 msg buffer (hw3_mem (ml_hw ml))) buffer 255 buffer pend"
    using assms(2) by (intro text_in_cong [OF z(2)] write32_other) (auto simp: mail_layout_def in_text_buffer)
  then show "flight msg buffer B ?ml pend" using z(1) assms(2,4)
    by (auto simp: in_flight_def mem_map_def hw3_mem_def mail_layout_def)
qed

lemma mail_task1_step:
  assumes "mail_inv T msg buffer B s0 acc ml" and "mail_layout msg buffer" and "0 \<notin> set acc"
    and "task1_function msg buffer ml = Inr ml'" and "(buffer, 255) \<in> B" and "\<not> h_starting (ml_hw ml)"
  shows "mail_inv T msg buffer B s0 acc ml'"
proof (cases "ml_task1 ml")
  case Check1
  with assms(4) show ?thesis
    by (intro mail_goto [OF assms(1)]) (auto simp: task1_function_def in_flight_def split: if_splits task2_place.splits)
next
  case Yield1
  then obtain h where h: "hw3_schedule None (ml_hw ml) = Inr h" "ml' = ml\<lparr>ml_hw := h, ml_task1 := Check1\<rparr>"
    using assms(4) by (auto simp: task1_function_def map_sum_def split: sum.splits)
  show ?thesis using h(2) Yield1
    by (intro mail_yield [OF assms(1) h(1) assms(3,6), where p = Check1 and q = "ml_task2 ml"])
      (auto simp: in_flight_def split: if_splits intro!: mail.equality)
next
  case Read1
  then show ?thesis using assms(4) mail_read [OF assms(1,2) Read1 _ assms(6)]
    by (auto simp: task1_function_def split: prod.splits)
next
  case (End1 n)
  then show ?thesis using assms(4) mail_end [OF assms(1,2) End1 assms(3)] by (simp add: task1_function_def)
next
  case Post1
  then show ?thesis using assms(4) mail_post [OF assms(1,2) Post1 assms(5)] by (simp add: task1_function_def)
qed

text \<open>The steps of the second task.\<close>

lemma mail_print:
  assumes "mail_inv T msg buffer B s0 acc ml" and "mail_layout msg buffer" and "ml_task2 ml = Print2 p"
    and "hw3_mem (ml_hw ml) p = c" and "c \<noteq> 0" and "texts_apart buffer B"
  shows "mail_inv T msg buffer B s0 acc (ml\<lparr>ml_hw := (ml_hw ml)\<lparr>h_screen := hw3_myputchar c (h_screen (ml_hw ml))\<rparr>,
    ml_task2 := Print2 (p + 1)\<rparr>)" (is "mail_inv _ _ _ _ _ _ ?ml")
proof -
  let ?m = "hw3_mem (ml_hw ml)" and ?s = "h_screen (ml_hw ml)"
  from assms(1) obtain a out pend where i: "hw3_rep (ml_hw ml) a" "acc = out @ pend @ ab_rx a"
    "flight msg buffer B ml pend" "on_screen ?s" "screen_same ?s (fold hw3_myputchar out s0)" "ab_tasks a \<subseteq> T"
    by (auto simp: mail_inv_def)
  from i(3) assms(3) obtain l where z: "read32 ?m msg \<noteq> 0" "(read32 ?m msg, l) \<in> B" "ml_task1 ml \<in> {Check1, Yield1}"
    "text_in ?m (read32 ?m msg) l p pend" by (auto simp: in_flight_def split: if_splits)
  from text_in_Cons [OF z(4)] assms(4,5) obtain rest where
    r: "pend = c # rest" "text_in ?m (read32 ?m msg) l (p + 1) rest" by blast
  have on: "on_screen (hw3_myputchar c ?s)" "outside_same ?s (hw3_myputchar c ?s)"
    using hw3_myputchar_on [OF i(4)] by simp_all
  have keep: "sc_mem (hw3_myputchar c ?s) a = ?m a" if "in_cell msg a \<or> (\<exists>(b, l) \<in> B. in_text b l a)" for a
  proof -
    have "\<not> in_video a" using that assms(2,6) by (auto simp: mail_layout_def texts_apart_def)
    then show ?thesis using outside_mem [OF on(2)] by (simp add: hw3_mem_def)
  qed
  have "in_flight msg buffer B ?m (ml_task1 ml) (Print2 (p + 1)) rest" using z(1-3) r(2) by (auto simp: in_flight_def)
  moreover have "(buffer, 255) \<in> B" using assms(6) by (simp add: texts_apart_def)
  ultimately have "in_flight msg buffer B (sc_mem (hw3_myputchar c ?s)) (ml_task1 ml) (Print2 (p + 1)) rest"
    by (rule in_flight_cong) (rule keep)
  then have "flight msg buffer B ?ml rest" by (simp add: hw3_mem_def)
  moreover have "screen_same (hw3_myputchar c ?s) (fold hw3_myputchar (out @ [c]) s0)"
    using hw3_myputchar_same [OF i(5)] by simp
  ultimately show ?thesis using i(1,2,6) r(1) on(1)
    by (intro mail_invI [of _ a _ _ "out @ [c]" rest]) (simp_all add: hw3_rep_mem)
qed

lemma mail_drop:
  assumes "mail_inv T msg buffer B s0 acc ml" and "mail_layout msg buffer" and "ml_task2 ml = Drop2"
  shows "mail_inv T msg buffer B s0 acc (ml\<lparr>ml_hw := mem_map (write32 msg 0) (ml_hw ml), ml_task2 := Check2\<rparr>)"
    (is "mail_inv _ _ _ _ _ _ ?ml")
proof (rule mail_write [OF assms(1)])
  show "ml_hw ?ml = mem_map (write32 msg 0) (ml_hw ml)" by simp
  show "write32 msg 0 m a = m a" if "in_video a" for a m
    using that assms(2) by (intro write32_other) (auto simp: mail_layout_def)
  fix pend assume "flight msg buffer B ml pend"
  then have "ml_task1 ml \<in> {Check1, Yield1}" "pend = []"
    using assms(3) by (auto simp: in_flight_def split: if_splits)
  then show "flight msg buffer B ?ml pend" by (auto simp: in_flight_def mem_map_def hw3_mem_def)
qed

lemma mail_task2_step:
  assumes "mail_inv T msg buffer B s0 acc ml" and "mail_layout msg buffer" and "0 \<notin> set acc"
    and "task2_function msg ml = Inr ml'" and "texts_apart buffer B" and "\<not> h_starting (ml_hw ml)"
  shows "mail_inv T msg buffer B s0 acc ml'"
proof (cases "ml_task2 ml")
  case Check2
  with assms(4) show ?thesis
    by (intro mail_goto [OF assms(1)]) (auto simp: task2_function_def in_flight_def split: if_splits task1_place.splits)
next
  case Yield2
  then obtain h where h: "hw3_schedule None (ml_hw ml) = Inr h" "ml' = ml\<lparr>ml_hw := h, ml_task2 := Check2\<rparr>"
    using assms(4) by (auto simp: task2_function_def map_sum_def split: sum.splits)
  show ?thesis using h(2) Yield2
    by (intro mail_yield [OF assms(1) h(1) assms(3,6), where p = "ml_task1 ml" and q = Check2])
      (auto simp: in_flight_def split: if_splits intro!: mail.equality)
next
  case Take2
  with assms(4) show ?thesis
    by (intro mail_goto [OF assms(1)]) (auto simp: task2_function_def in_flight_def split: if_splits task1_place.splits)
next
  case (Print2 p)
  show ?thesis
  proof (cases "hw3_mem (ml_hw ml) p = 0")
    case True
    with assms(4) Print2 text_in_Nil [of "hw3_mem (ml_hw ml)" _ _ p] show ?thesis
      by (intro mail_goto [OF assms(1)]) (auto simp: task2_function_def in_flight_def split: if_splits task1_place.splits)
  next
    case False
    with assms(4) Print2 mail_print [OF assms(1,2) Print2 refl False assms(5)] show ?thesis by (simp add: task2_function_def)
  qed
next
  case Drop2
  then show ?thesis using assms(4) mail_drop [OF assms(1,2) Drop2] by (simp add: task2_function_def)
qed

text \<open>Runs.\<close>

lemma mail_step_inv:
  assumes "mail_inv T msg buffer B s0 acc ml" and "mail_layout msg buffer"
    and "mail_step task1 task2 msg buffer ml bs ml'" and "0 \<notin> set (acc @ bs)" and "texts_apart buffer B"
    and "h_starting (ml_hw ml) \<longrightarrow> bs = [] \<and> ml' = ml\<lparr>ml_hw := hw3_task_enter (ml_hw ml)\<rparr>"
  shows "mail_inv T msg buffer B s0 (acc @ bs) ml'"
proof (cases "h_starting (ml_hw ml)")
  case True
  then show ?thesis using mail_interrupt [OF assms(1) step_enter [OF True], of "[]"] assms(4,6) by simp
next
  case run: False
  from assms(3) show ?thesis
  proof cases
    case (mail_tick h)
    then show ?thesis using mail_interrupt [OF assms(1) mail_tick(3)] assms(4) run by simp
  next
    case (mail_received cs h)
    show ?thesis unfolding mail_received(2)
      by (rule mail_interrupt [OF assms(1) mail_received(3) _ _ assms(4)]) (use mail_received(1) run in auto)
  next
    case (mail_enter h)
    then show ?thesis using mail_interrupt [OF assms(1) mail_enter(3)] assms(4) by simp
  next
    case mail_task1
    then show ?thesis using mail_task1_step [OF assms(1,2)] assms(4,5) by (simp add: texts_apart_def)
  next
    case mail_task2
    then show ?thesis using mail_task2_step [OF assms(1,2)] assms(4,5) by simp
  qed
qed

lemma mail_calm_inv:
  "\<lbrakk>mail_calm task1 task2 msg buffer ml bs ml'; mail_inv T msg buffer B s0 g ml; mail_layout msg buffer;
    0 \<notin> set (g @ bs); texts_apart buffer B\<rbrakk> \<Longrightarrow> mail_inv T msg buffer B s0 (g @ bs) ml'"
proof (induction rule: mail_calm.induct)
  case (mail_more ml bs ml1 cs ml')
  then have "mail_inv T msg buffer B s0 (g @ bs) ml1" by simp
  from mail_step_inv [OF this mail_more.prems(2) mail_more.hyps(2)] mail_more.prems(3,4) mail_more.hyps(3) show ?case by simp
qed simp

lemma task_functions_total:
  assumes "hw3_rep (ml_hw ml) a" and "\<not> h_starting (ml_hw ml)"
  shows "\<exists>ml'. task1_function msg buffer ml = Inr ml'" and "\<exists>ml'. task2_function msg ml = Inr ml'"
proof -
  obtain h where "hw3_schedule None (ml_hw ml) = Inr h" using hw3_step_total [OF assms(1), of Yield] assms(2)
    by (auto simp: hw3_step_simps hw3_possible_def)
  then show "\<exists>ml'. task1_function msg buffer ml = Inr ml'" "\<exists>ml'. task2_function msg ml = Inr ml'"
    by (auto simp: task1_function_def task2_function_def Let_def split: task1_place.splits task2_place.splits prod.splits)
qed

lemma flight_length:
  "\<lbrakk>in_flight msg buffer B m t1 t2 pend; 255 \<le> k; \<forall>(b, l) \<in> B. l \<le> k\<rbrakk> \<Longrightarrow> length pend \<le> k"
proof (cases "read32 m msg = 0")
  case True
  moreover assume "in_flight msg buffer B m t1 t2 pend" "255 \<le> k"
  ultimately show ?thesis by (cases t1) (auto simp: in_flight_def text_in_def)
next
  case False
  assume "in_flight msg buffer B m t1 t2 pend" and k: "\<forall>(b, l) \<in> B. l \<le> k"
  with False obtain l where "(read32 m msg, l) \<in> B" "length pend \<le> l"
    by (cases t2) (auto simp: in_flight_def text_in_def)
  with k show ?thesis by auto
qed

text \<open>
  The text that the cell points to when \<open>main\<close> begins: none when the cell is zero, else what is at that
  address up to the first zero, outside the screen.
\<close>

definition first_text :: "memory \<Rightarrow> u32 \<Rightarrow> u8 list \<Rightarrow> bool" where
  "first_text m msg g \<longleftrightarrow>
     (if read32 m msg = 0 then g = []
      else string_at m (read32 m msg) g \<and> length g < 2 ^ 32 \<and> (\<forall>a. in_text (read32 m msg) (length g) a \<longrightarrow> \<not> in_video a))"

definition first_texts :: "memory \<Rightarrow> u32 \<Rightarrow> u32 \<Rightarrow> u8 list \<Rightarrow> (u32 \<times> nat) set" where
  "first_texts m msg buffer g = {(buffer, 255), (read32 m msg, length g)}"

lemma first_texts_apart:
  assumes "first_text m msg g" and "mail_layout msg buffer"
  shows "texts_apart buffer (first_texts m msg buffer g)"
proof -
  have "\<not> in_video a" if "in_text (read32 m msg) (length g) a" for a
  proof (cases "read32 m msg = 0")
    case True
    with assms(1) that have "a = 0" by (simp add: first_text_def in_text_def unat_eq_0)
    then show ?thesis by (simp add: in_video_def)
  next
    case False
    with assms(1) that show ?thesis by (simp add: first_text_def)
  qed
  with assms(2) show ?thesis by (auto simp: texts_apart_def first_texts_def mail_layout_def in_text_buffer)
qed

lemma puts_fold: "0 \<notin> set cs \<Longrightarrow> hw3_myputs cs s = fold hw3_myputchar cs s"
  unfolding hw3_myputs_def by (induction cs arbitrary: s) auto

lemma hw3_main_screen: "h_screen (hw3_main task1 task2 f1 f2 st) = hw3_clrscr (h_screen st)"
  by (simp add: hw3_main_def hw3_task_start_def hw3_task_new_def scheduler_setup_def tasks_map_def irqsave_def
      irqrestore_def serial_setup_def time_setup_def ports_map_def pic_map_def irq_unmask_def setup_irq_handler_def
      irq_setup_def exceptions_setup_def handlers_loop_isrs hw3_values Let_def)

lemma mail_main_inv:
  assumes "task1 \<noteq> task2" and "mail_layout msg buffer" and "on_screen (h_screen st)" and "first_text (hw3_mem st) msg g"
    and "B = first_texts (hw3_mem st) msg buffer g"
  shows "mail_inv {task1, task2} msg buffer B (hw3_clrscr (h_screen st)) g (mail_main task1 task2 f1 f2 st)"
proof -
  let ?w = "read32 (hw3_mem st) msg" and ?m = "sc_mem (hw3_clrscr (h_screen st))"
  note on = hw3_clrscr_on_screen [OF assms(3)]
  have keep: "?m a = hw3_mem st a" if "\<not> in_video a" for a
    using outside_mem [OF _ that] on by (auto simp: hw3_mem_def)
  then have w: "read32 ?m msg = ?w" using assms(2) by (intro read32_cong) (auto simp: mail_layout_def)
  have "text_in ?m ?w (length g) ?w g" if "?w \<noteq> 0"
  proof (rule text_in_cong)
    show "text_in (hw3_mem st) ?w (length g) ?w g" using assms(4) that by (simp add: first_text_def text_in_def)
    show "?m a = hw3_mem st a" if "in_text ?w (length g) a" for a
      using assms(4) that \<open>?w \<noteq> 0\<close> by (intro keep) (simp add: first_text_def)
  qed
  then have "flight msg buffer B (mail_main task1 task2 f1 f2 st) g"
    using assms(4) by (auto simp: in_flight_def mail_main_def hw3_mem_def hw3_main_screen w [unfolded hw3_mem_def]
        first_text_def assms(5) first_texts_def)
  then show ?thesis using hw3_main_rep [OF assms(1), of f1 f2 st] on
    by (intro mail_invI [of _ "hw3_start task1 task2 st" _ _ "[]" g])
      (simp_all add: mail_main_def hw3_main_screen screen_same_refl hw3_start_def ab_tasks_def)
qed

subsection \<open>Properties\<close>

text \<open>
  C14: the two tasks of \<open>hw3/main.c\<close> pass every byte on. They talk through the word at address 0, which
  nothing initialises: if it is not zero when \<open>main\<close> begins, the bytes \<open>g\<close> it happens to point to (up to
  its first zero, outside the screen) are shown first. As long as no zero byte is received and no
  interrupt comes between the two statements at the start of \<open>task_start\<close>, after any interleaving of timer
  ticks, received bytes and steps of the running task, \<open>g\<close> and the bytes that the ring took in are, in this
  order: those that \<open>myputs\<close> has shown on the cleared screen, at most 255 (or the rest of \<open>g\<close>) on the way,
  and those still in the ring. One of the two tasks is always the running one, and neither can fault. A
  zero byte would end the text of a reading early.
\<close>

theorem hw3_messages_in_order:
  assumes "task1 \<noteq> task2" and "mail_layout 0 buffer" and "on_screen (h_screen st)" and "first_text (hw3_mem st) 0 g"
    and "mail_calm task1 task2 0 buffer (mail_main task1 task2 f1 f2 st) bs ml" and "0 \<notin> set bs"
  shows "(\<exists>out pend. g @ bs = out @ pend @ rb_bytes (h_rx (ml_hw ml)) \<and> length pend \<le> max 255 (length g) \<and>
      screen_same (h_screen (ml_hw ml)) (hw3_myputs out (hw3_clrscr (h_screen st)))) \<and>
    h_self (ml_hw ml) \<in> {task1, task2} \<and>
    (\<not> h_starting (ml_hw ml) \<longrightarrow>
      (\<exists>ml'. task1_function 0 buffer ml = Inr ml') \<and> (\<exists>ml'. task2_function 0 ml = Inr ml'))"
proof -
  let ?B = "first_texts (hw3_mem st) 0 buffer g"
  have g: "0 \<notin> set (g @ bs)" using assms(4,6) by (auto simp: first_text_def string_at_def split: if_splits)
  from mail_calm_inv [OF assms(5) mail_main_inv [OF assms(1-4) refl] assms(2) g first_texts_apart [OF assms(4,2)]]
  obtain a out pend where
    i: "hw3_rep (ml_hw ml) a" "ab_tasks a \<subseteq> {task1, task2}" "g @ bs = out @ pend @ ab_rx a" "flight 0 buffer ?B ml pend"
      "screen_same (h_screen (ml_hw ml)) (fold hw3_myputchar out (hw3_clrscr (h_screen st)))"
    by (auto simp: mail_inv_def)
  have "length pend \<le> max 255 (length g)" by (rule flight_length [OF i(4)]) (auto simp: first_texts_def)
  moreover have "0 \<notin> set out" using g unfolding i(3) by simp
  then have "screen_same (h_screen (ml_hw ml)) (hw3_myputs out (hw3_clrscr (h_screen st)))"
    using i(5) by (simp add: puts_fold)
  moreover have "h_self (ml_hw ml) \<in> {task1, task2}" using i(2) hw3_repD(2) [OF i(1)] by (simp add: ab_tasks_def)
  ultimately show ?thesis using i(3) hw3_repD(6) [OF i(1)] task_functions_total [OF i(1)] by metis
qed

text \<open>A line that delivers one byte, and its way into the ring.\<close>

definition one_byte :: hw3 where
  "one_byte = hw3_zero\<lparr>h_pic := \<lparr>pic_irq_mask = 0xFFFF, pic_ports = \<lparr>pt_log = [],
     pt_device = \<lambda>es p. if p = 0x3F8 then 65 else if hd es = In8 0x3F8 then 0 else 1\<rparr>\<rparr>\<rparr>"

lemma device_same:
  "pt_device (out8 p b w) = pt_device w" "pt_device (pic_ports (hw_pic_unmask i q)) = pt_device (pic_ports q)"
  "pt_device (pic_ports (hw_pic_setup q)) = pt_device (pic_ports q)"
  "pt_device (pit_set_rate ch r w) = pt_device w"
  by (simp_all add: ports_defs hw_pic_unmask_def hw_pic_setup_def hw_pic_remap_def pic_out_def Let_def
      pit_set_rate_def pit_write_cmd_def pit_write_reload_def)

lemma hw3_main_device: "pt_device (pic_ports (h_pic (hw3_main t1 t2 f1 f2 st))) = pt_device (pic_ports (h_pic st))"
  by (simp add: hw3_main_def hw3_task_start_def hw3_task_new_def scheduler_setup_def tasks_map_def irqsave_def
      irqrestore_def serial_setup_def time_setup_def ports_map_def pic_map_def irq_unmask_def setup_irq_handler_def
      irq_setup_def exceptions_setup_def handlers_loop_isrs hw3_values Let_def device_same)

lemma hw3_main_log: "\<exists>es. pt_log (pic_ports (h_pic (hw3_main t1 t2 f1 f2 st))) = Out8 0x3F9 1 # es"
proof -
  have "\<exists>es. pt_log (pic_ports (h_pic (serial_setup s))) = Out8 0x3F9 1 # es" for s
    by (simp add: serial_setup_def ports_map_def pic_map_def Let_def ports_defs hw3_COM_PORT_def BITU_def)
  then show ?thesis
    by (simp add: hw3_main_def hw3_task_start_def hw3_task_new_def scheduler_setup_def tasks_map_def irqsave_def
        irqrestore_def Let_def)
qed

lemma one_byte_receives: "\<exists>w. receives (pic_ports (h_pic (hw3_main t1 t2 f1 f2 one_byte))) [65] w"
proof -
  let ?w = "pic_ports (h_pic (hw3_main t1 t2 f1 f2 one_byte))"
  have dev: "pt_device ?w = (\<lambda>es p. if p = 0x3F8 then 65 else if hd es = In8 0x3F8 then 0 else 1)"
    by (simp add: hw3_main_device) (simp add: one_byte_def)
  obtain es where es: "pt_log ?w = Out8 0x3F9 1 # es" using hw3_main_log by blast
  define w1 where "w1 = ?w\<lparr>pt_log := In8 0x3FD # Out8 0x3F9 1 # es\<rparr>"
  define w2 where "w2 = w1\<lparr>pt_log := In8 0x3F8 # In8 0x3FD # Out8 0x3F9 1 # es\<rparr>"
  have r1: "in8 0x3FD ?w = (1, w1)" by (simp add: ports_defs dev es w1_def)
  have r2: "in8 0x3F8 w1 = (65, w2)" by (simp add: ports_defs dev w1_def w2_def)
  have r3: "in8 0x3FD w2 = (0, w2\<lparr>pt_log := In8 0x3FD # pt_log w2\<rparr>)" by (simp add: ports_defs dev w1_def w2_def)
  show ?thesis by (rule exI, rule receives_byte [OF r1 _ r2 receives_none [OF r3]]) simp_all
qed

theorem hw3_messages_in_order_witness:
  "\<exists>ml. mail_calm 0x1000 0x2000 0 0x9000 (mail_main 0x1000 0x2000 0x100 0x200 one_byte) [65] ml \<and>
    (\<exists>out pend. [65] = out @ pend @ rb_bytes (h_rx (ml_hw ml)))"
proof -
  let ?st = "hw3_main 0x1000 0x2000 0x100 0x200 one_byte" and ?ml = "mail_main 0x1000 0x2000 0x100 0x200 one_byte"
  let ?st1 = "hw3_task_enter ?st" and ?ml1 = "?ml\<lparr>ml_hw := hw3_task_enter ?st\<rparr>"
  have ne: "(0x1000 :: u32) \<noteq> 0x2000" by simp
  have lay: "mail_layout 0 0x9000"
    by (auto simp: mail_layout_def in_video_def in_buffer_def in_cell_def word_less_nat_alt word_le_nat_alt
        unat_sub_if_size word_size)
  have z: "on_screen (h_screen one_byte)" "first_text (hw3_mem one_byte) 0 []"
    by (simp_all add: one_byte_def hw3_zero_def on_screen_def hw3_mem_def first_text_def read32_def word_rcat_def)
  have start: "h_starting ?st" by (simp add: hw3_main_def hw3_task_start_def Let_def)
  note rep = enter_rep [OF hw3_main_rep [OF ne, of "0x100" "0x200" one_byte] start]
  have "mail_step 0x1000 0x2000 0 0x9000 ?ml [] ?ml1"
    by (rule mail_enter) (simp add: mail_main_def step_enter [OF start])
  then have "mail_calm 0x1000 0x2000 0 0x9000 ?ml ([] @ []) ?ml1"
    by (rule mail_more [OF mail_start]) (simp add: mail_main_def)
  then have run1: "mail_calm 0x1000 0x2000 0 0x9000 ?ml [] ?ml1" by simp
  have "pic_ports (h_pic ?st1) = pic_ports (h_pic ?st)" by (simp add: hw3_task_enter_def)
  then obtain w where w: "receives (pic_ports (h_pic ?st1)) [65] w" using one_byte_receives by metis
  from received_rep [OF rep(1) w rep(2)] obtain h where h: "hw3_step ?st1 (Received [65]) h"
    using w hw3_repD(7) [OF rep(1)] by (auto intro: step_received)
  have "rb_bytes (h_rx ?st1) = []" using hw3_repD(6) [OF rep(1)] by (simp add: hw3_start_def)
  then have "unat (rb_size (h_rx (ml_hw ?ml1))) = 0" using length_rb_bytes [of "h_rx ?st1"] by simp
  moreover have "hw3_step (ml_hw ?ml1) (Received [65]) h" using h by simp
  then have "mail_step 0x1000 0x2000 0 0x9000 ?ml1 (take (4096 - unat (rb_size (h_rx (ml_hw ?ml1)))) [65]) (?ml1\<lparr>ml_hw := h\<rparr>)"
    by (rule mail_received)
  ultimately have "mail_step 0x1000 0x2000 0 0x9000 ?ml1 [65] (?ml1\<lparr>ml_hw := h\<rparr>)" by simp
  from mail_more [OF run1 this] rep(2) have
    run: "mail_calm 0x1000 0x2000 0 0x9000 ?ml [65] (?ml1\<lparr>ml_hw := h\<rparr>)" by simp
  have "0 \<notin> set [65 :: u8]" by simp
  from hw3_messages_in_order [OF ne lay z run this] run show ?thesis by fastforce
qed

end
