(* ===== verification/Spec2Isabelle.thy ===== *)
theory Spec2Isabelle
  imports Bootmem_History Slab_History Start Hw2_Clock Hw3_Tasks
begin

text \<open>
  A small operating system kernel for 32-bit x86 (\<open>kernel/\<close>) and the three exercises that led to it
  (\<open>hw1/\<close>, \<open>hw2/\<close>, \<open>hw3/\<close>). The development models all C functions of the kernel and of the
  exercises that do more than run one machine instruction; this theory collects the others.

  \<^bold>\<open>How the program works.\<close> The boot loader leaves a memory map and jumps to \<open>start_kernel\<close>
  (\<open>kernel/start.c\<close>). It calls \<open>setup_arch\<close> (\<open>arch/x86/setup.c\<close>), which registers the two consoles,
  fills the segment and interrupt tables, masks the 8259A controllers, enters the memory map in the
  boot allocator, builds the page allocator from it, makes the running code the swapper task, looks
  for the tables of the firmware and sets up the APIC. Then \<open>start_kernel\<close> prints the state of the page
  allocator, puts one task (\<open>init\<close>) into the queue of the scheduler and spins in \<open>schedule\<close>. The slab
  caches and \<open>kunmap\<close> have no caller yet. Below, a caller stands under what it calls:

  \<^item> \<open>Prelude\<close>: machine integers, the type \<open>outcome\<close> of code that may stop at an \<open>assert\<close>
    (\<open>Inr x\<close>, or \<open>Inl (Panic ...)\<close> with the text of the assertion), the collections of rules \<open>kernel_defs\<close>, \<open>link_simps\<close>, \<open>bits\<close>, and lemmas
    on lists and words.
  \<^item> \<open>Kernel\<close>: \<open>kernel.h\<close> and \<open>memory.h\<close>: masks, alignment, the layout of the address space, entries of
    page tables.
  \<^item> \<open>Linked_List\<close>: \<open>kernel/list.c\<close>. The pointer fields are two functions on nodes; \<open>list_rep\<close> says
    which list a circle of nodes represents. The locale \<open>intrusive_list\<close> is the interface of the
    clients, interpreted as \<open>lists\<close> here and as \<open>hw3_lists\<close> on \<open>hw3/list.c\<close>.
  \<^item> \<open>Bootmem\<close>, \<open>Bootmem_History\<close>: \<open>kernel/bootmem.c\<close>: two arrays of ranges. Adding, reserving and the
    search against the specification "lowest aligned place that fits"; then any sequence of calls,
    against a view of the allocator by sets of addresses.
  \<^item> \<open>Page_Blocks\<close>, \<open>Page_Alloc\<close>: \<open>kernel/page_alloc.c\<close>: the buddy allocator. The first theory has the
    arithmetic of blocks and tilings, the second the code and the invariants \<open>block_inv\<close> and \<open>page_inv\<close> that tie the
    fields of the pages and the free lists to a tiling with all buddies merged. The locale
    \<open>block_allocator\<close> is what a client may use; the history property is proved in it.
  \<^item> \<open>Setup_Page_Alloc\<close>: \<open>arch/x86/setup_page_alloc.c\<close>: from the boot allocator to the page allocator.
  \<^item> \<open>Slab\<close>, \<open>Slab_History\<close>: \<open>kernel/slab_cache.c\<close>: caches of objects on pairs of pages, each slab
    with a bitmap; then any sequence of calls of the caches and of the page allocator together.
  \<^item> \<open>Kmap\<close>: \<open>arch/x86/kmap.c\<close>: temporary mappings.
  \<^item> \<open>Utility\<close>: \<open>kernel/utility.c\<close>: the byte loops and the printing of numbers on a byte memory.
  \<^item> \<open>Ports\<close>: \<open>arch/x86/ioport.c\<close>: the ports as a log of accesses and a device that answers from it.
  \<^item> \<open>Console\<close>: \<open>console.c\<close>, \<open>vga_console.c\<close>, \<open>serial_console.c\<close>, \<open>io.c\<close>: from \<open>printf\<close> to the devices.
  \<^item> \<open>Setup_Memory\<close>: \<open>setup_memory.c\<close>: the walk over the memory map and the kernel's page directory.
  \<^item> \<open>Descriptors\<close>: \<open>gdt.c\<close>, \<open>idt.c\<close>: descriptors as words, and as the processor reads them.
  \<^item> \<open>Round_Robin\<close>: what a scheduler promises, as the locale \<open>round_robin\<close>; interpreted on the kernel's
    \<open>schedule\<close> (\<open>scheduler\<close>) and on that of \<open>hw3\<close> (\<open>hw3_scheduler\<close>).
  \<^item> \<open>Task\<close>: \<open>task.c\<close>, \<open>scheduler.c\<close> and the task part of \<open>setup.c\<close>: tasks, the hardware task switch
    through task state segments, the queue of active tasks.
  \<^item> \<open>Irq\<close>: \<open>irq.c\<close>, \<open>i8259a.c\<close>. The locale \<open>irq_controller\<close> is the contract of a controller: lines and
    masks. It is interpreted on the 8259A pair (\<open>pics\<close>), on the APIC (\<open>apics\<close>) and on the controllers
    of the exercises (\<open>hw_pics\<close>).
  \<^item> \<open>Acpi\<close>, \<open>Apic\<close>, \<open>Apic_Boot\<close>: \<open>acpi.c\<close>, \<open>arch/x86/acpi.c\<close>, \<open>apic.c\<close>: the tables of the firmware in
    memory, the walk over the MADT, the I/O APICs and the local APIC; and what the set-up makes of the
    tables, described from their entries alone (\<open>io_apics_of\<close>, \<open>isa_choice\<close>, \<open>local_ids\<close>).
  \<^item> \<open>Statistics\<close>, \<open>Start\<close>: \<open>start.c\<close> and the rest of \<open>setup.c\<close>: the report of the page allocator, the
    boot as the composition of all of the above, the start of the tasks, and the printing of an
    unexpected interrupt. The record \<open>machine\<close> holds the components' states side by side: the page
    structures, the kernel image and the tasks are stores of their own, although the page allocator
    takes the frames they lie in for free. What a task does to the page array or the image when it is
    given their frames is not modelled; \<open>start_kernel_runs\<close> has the conditions under which it is not.
  \<^item> \<open>Hw_Screen\<close>, \<open>Hw_Devices\<close>, \<open>Hw_Tables\<close>, \<open>Hw2_Clock\<close>: the screen, the controllers and the timer,
    the tables of the exercises, and the program of \<open>hw2\<close>.
  \<^item> \<open>Hw3_Serial\<close>, \<open>Hw3_Kernel\<close>, \<open>Hw3_Refine\<close>, \<open>Hw3_Tasks\<close>: the multitasking exercise: the ring of
    received bytes, the machine with its tasks and interrupts, its simulation by an abstract machine,
    and the two tasks that \<open>main.c\<close> runs. \<open>task_start\<close> turns interrupts on before it sets \<open>current\<close>;
    these are two steps. \<open>hw3_runs\<close> are all runs, \<open>hw3_calm\<close> those in which no interrupt comes between
    the two; the properties are about the latter, and \<open>hw3_race_reached\<close> shows what goes wrong in the
    others.

  \<^bold>\<open>State.\<close> A C structure is a record with its fields, an array a list or a function from indices, a
  pointer the index or address of what it points to, with the null pointer as \<open>None\<close> or the
  address 0 as each theory says. Where the code addresses memory by bytes (strings, the tables of the
  firmware, the screen) memory is a function from 32-bit addresses to bytes. Integers have their
  width and wrap; the build is \<open>-m32\<close>, so \<open>int\<close>, \<open>long\<close>, \<open>size_t\<close> and pointers have 32 bits. Indices
  that a fixed capacity bounds, and orders, are \<open>nat\<close>. An operation takes the state and returns it
  changed; a failing assertion is \<open>Inl\<close>, an error code is the code's own value.

  \<^bold>\<open>Loops.\<close> A loop that ends for every input is a function with its measure. A loop that may not end
  (the searches with a step the caller gives, the walks over tables in memory, the waits for a
  device, the reading of a string) is a \<^theory_text>\<open>partial_function\<close> with \<open>None\<close> for not returning, and
  that it returns is part of the properties: with the documented layout of the table or the string
  ended by a zero, or with a device that becomes ready. There is no fuel in the model.

  \<^bold>\<open>What the properties show.\<close> Of the allocators: exactly which calls succeed, that what is handed
  out is fresh, aligned and disjoint, that freeing gives back exactly it, and that the allocators'
  structures describe this after any history. Of the consoles: the text that a format stands for
  arrives on every console, inside the buffer and the screen. Of the tables: the processor reads back
  what was written. Of the interrupt controllers: after any history exactly the lines asked for are
  masked, for each of the three drivers. Of the tasks: a switch saves and restores exactly the
  registers, the running task goes round a circle. Of the firmware tables: the searches find the first match, the walk visits exactly the
  entries of a kind, and the routing of every interrupt follows from them. Of the boot as a whole:
  from the static data of the kernel \<open>setup_arch\<close> establishes all of the above, or stops at the
  assertion on the array of page structures, which it does only when the memory map leaves no room for
  that array (\<open>memory_room\<close>); and \<open>start_kernel\<close> reaches its loop, in which \<open>init\<close> and the swapper
  alternate, when the first four pages of memory are spare (\<open>first_pages_spare\<close>) and the kernel image
  with the stack of the boot lies behind them. Of \<open>hw3\<close>: every run in which no interrupt comes in the
  middle of \<open>task_start\<close> is a run of an abstract machine with a queue of tasks and a bounded queue of
  bytes; every waiting task runs after a bounded number of ticks; and no interleaving loses or reorders
  a byte on its way to the screen, as long as none is zero.

  Several properties show that the code does not do what it means to: the page allocator is given
  every page from the second on, reserved or not, because \<open>boot_mem_is_free\<close> compares with the wrong
  failure value; the assertion of \<open>free_pages\<close> does not notice the second free of a block that the first
  one merged into its lower buddy; all ISA interrupts share one entry of the I/O APIC; a limit of the
  tables is one too large; in \<open>hw3\<close> an interrupt in the middle of \<open>task_start\<close> can put a task into the
  queue twice, and the tasks talk through a word at address 0 that nothing initialises.

  \<^bold>\<open>Parameters.\<close> The device behind a port or in a memory-mapped window is a function or a store with
  the documented behaviour of the hardware; the addresses that the linker chooses are arguments with
  the order of the linker script as hypotheses; the memory map and the firmware tables are memory
  whose documented layout is a hypothesis. The instructions of the task switch do what the processor
  documents (in \<open>Task\<close>), without its checks of the segment
  selectors it loads, which are those the code itself has saved.

  \<^bold>\<open>Not modelled.\<close>
  \<^item> The assembly: the boot code and first page table, the interrupt stubs, the stack switch of \<open>hw3\<close>
    (its effect on the two stacks is in \<open>Hw3_Kernel\<close>), and the generator of the stubs of \<open>hw3\<close>.
  \<^item> Functions of one machine instruction without a result in memory (loading a table register,
    halting, enabling interrupts), other than as an effect on a field of the state where a later step
    depends on it.
  \<^item> The text of debug output, except the two reports that are modelled; constants that nothing uses.
  \<^item> Files that repeat another with the same text (\<open>hw2/gdt.c\<close>, \<open>hw2/pic.c\<close>, most of \<open>hw2/pit.c\<close> and
    of \<open>hw2/stdio.c\<close>): the model of the one stands for both.
  \<^item> The caches of the processor (the page tables as the processor caches them, in particular).
\<close>

end
